(* ===== verification/Prelude.thy ===== *)
theory Prelude
  imports Main "HOL-Library.Monad_Syntax"
begin

text \<open>
  Shared vocabulary of the development.

  C memory is modelled one heap per struct type: a heap is a partial map from addresses to
  struct values, address 0 is the null pointer.  A C function that touches memory is a function
  into the option type.  The value None stands for every outcome the C code must never have:
  a null or dangling pointer is dereferenced, memory is freed twice, an assert() or a verify()
  fails, or a loop does not return.  A theorem that an operation returns Some value is
  therefore a memory-safety and termination theorem as well as a functional one.

  malloc() is the environment's choice: an operation that allocates takes the address that
  malloc() returned as an argument, and its theorems assume only that this address is not null
  and not in use (predicate fresh).  Addresses may be reused after free().
\<close>

section \<open>Named collections\<close>

named_theorems heap_simps \<open>reading and writing heaps\<close>

named_theorems frame_intros \<open>structures that survive an update outside their footprint\<close>

section \<open>Heaps\<close>

type_synonym addr = nat

abbreviation (input) NULL :: addr where
  "NULL \<equiv> 0"

type_synonym 'c heap = "addr \<Rightarrow> 'c option"

definition load :: "'c heap \<Rightarrow> addr \<Rightarrow> 'c option" where
  "load h p = (if p = NULL then None else h p)"

definition update :: "'c heap \<Rightarrow> addr \<Rightarrow> ('c \<Rightarrow> 'c) \<Rightarrow> 'c heap option" where
  "update h p f = (case load h p of None \<Rightarrow> None | Some c \<Rightarrow> Some (h(p \<mapsto> f c)))"

definition dealloc :: "'c heap \<Rightarrow> addr \<Rightarrow> 'c heap option" where
  "dealloc h p = (case load h p of None \<Rightarrow> None | Some c \<Rightarrow> Some (h(p := None)))"

definition fresh :: "'c heap \<Rightarrow> addr \<Rightarrow> bool" where
  "fresh h p \<longleftrightarrow> p \<noteq> NULL \<and> h p = None"

definition c_assert :: "bool \<Rightarrow> unit option" where
  "c_assert b = (if b then Some () else None)"

lemma load_Some [heap_simps]: "p \<noteq> NULL \<Longrightarrow> h p = Some c \<Longrightarrow> load h p = Some c"
  by (simp add: load_def)

lemma load_SomeD: "load h p = Some c \<Longrightarrow> p \<noteq> NULL \<and> h p = Some c"
  by (simp add: load_def split: if_splits)

lemma update_Some [heap_simps]:
  "p \<noteq> NULL \<Longrightarrow> h p = Some c \<Longrightarrow> update h p f = Some (h(p \<mapsto> f c))"
  by (simp add: update_def heap_simps)

lemma dealloc_Some [heap_simps]:
  "p \<noteq> NULL \<Longrightarrow> h p = Some c \<Longrightarrow> dealloc h p = Some (h(p := None))"
  by (simp add: dealloc_def heap_simps)

lemma c_assert_True [simp]: "c_assert True = Some ()"
  by (simp add: c_assert_def)

lemma c_assert_False [simp]: "c_assert False = None"
  by (simp add: c_assert_def)

lemma c_assert_bind [simp]: "b \<Longrightarrow> Option.bind (c_assert b) f = f ()"
  by (simp add: c_assert_def)

lemma freshD: "fresh h p \<Longrightarrow> p \<noteq> NULL \<and> h p = None"
  by (simp add: fresh_def)

text \<open>
  shrunk A B h h': a data structure that owned the cells A owns the cells B now, the others were
  freed, and no cell outside A changed.
\<close>

definition shrunk :: "addr set \<Rightarrow> addr set \<Rightarrow> 'c heap \<Rightarrow> 'c heap \<Rightarrow> bool" where
  "shrunk A B h h' \<longleftrightarrow> B \<subseteq> A \<and> (\<forall>a. a \<notin> A \<longrightarrow> h' a = h a) \<and> (\<forall>a. a \<in> A \<longrightarrow> a \<notin> B \<longrightarrow> h' a = None)"

lemma shrunk_refl [simp]: "shrunk A A h h"
  by (simp add: shrunk_def)

lemma shrunk_trans: "shrunk A B h h' \<Longrightarrow> shrunk B C h' h'' \<Longrightarrow> shrunk A C h h''"
  unfolding shrunk_def by (metis subset_iff)

section \<open>Doubly linked segments\<close>

text \<open>
  dseg prv nxt lab h p x as l n: in heap h the cells with addresses and labels as form a doubly
  linked segment through the fields prv and nxt.  x is the address of the first cell and p what
  its backward pointer holds; l is the address of the last cell and n what its forward pointer
  holds (an empty segment has l = p and n = x).  The linked list and the chain through the
  nodes of a tree are both such segments.
\<close>

fun dseg :: "('c \<Rightarrow> addr) \<Rightarrow> ('c \<Rightarrow> addr) \<Rightarrow> ('c \<Rightarrow> 'd) \<Rightarrow> 'c heap \<Rightarrow> addr \<Rightarrow> addr \<Rightarrow> (addr \<times> 'd) list \<Rightarrow> addr \<Rightarrow> addr \<Rightarrow> bool" where
  "dseg prv nxt lab h p x [] l n \<longleftrightarrow> l = p \<and> n = x"
| "dseg prv nxt lab h p x ((a, d) # as) l n \<longleftrightarrow>
     x = a \<and> a \<noteq> NULL \<and>
     (\<exists>it. h a = Some it \<and> prv it = p \<and> lab it = d \<and> dseg prv nxt lab h a (nxt it) as l n)"

lemma dseg_append [simp]:
  "dseg prv nxt lab h p x (as @ bs) l n \<longleftrightarrow> (\<exists>m y. dseg prv nxt lab h p x as m y \<and> dseg prv nxt lab h m y bs l n)"
  by (induction prv nxt lab h p x as l n rule: dseg.induct) auto

lemma dseg_frame [frame_intros]:
  "dseg prv nxt lab h p x as l n \<Longrightarrow> a \<notin> fst ` set as \<Longrightarrow> dseg prv nxt lab (h(a := c)) p x as l n"
  by (induction as arbitrary: p x) auto

lemma dseg_alloc: "dseg prv nxt lab h p x as l n \<Longrightarrow> a \<in> fst ` set as \<Longrightarrow> a \<noteq> NULL \<and> (\<exists>it. h a = Some it)"
  by (induction prv nxt lab h p x as l n rule: dseg.induct) auto

lemma dseg_last: "dseg prv nxt lab h p x as l n \<Longrightarrow> as \<noteq> [] \<Longrightarrow> l = fst (last as)"
  by (induction as arbitrary: p x) (auto split: if_splits)

lemma dseg_first: "dseg prv nxt lab h p x as l n \<Longrightarrow> as \<noteq> [] \<Longrightarrow> x = fst (hd as)"
  by (cases as) auto

lemma dseg_null_first: "dseg prv nxt lab h p x as l NULL \<Longrightarrow> x = NULL \<longleftrightarrow> as = []"
  by (cases as) auto

lemma dseg_null_last: "dseg prv nxt lab h NULL x as l n \<Longrightarrow> l = NULL \<longleftrightarrow> as = []"
  by (cases as rule: rev_cases) auto

lemma dseg_last_in: "dseg prv nxt lab h p x as l n \<Longrightarrow> as \<noteq> [] \<Longrightarrow> l \<in> fst ` set as"
  by (cases as rule: rev_cases) auto

lemma dseg_first_in: "dseg prv nxt lab h p x as l n \<Longrightarrow> as \<noteq> [] \<Longrightarrow> x \<in> fst ` set as"
  by (cases as) auto

lemma dseg_agree:
  "dseg prv nxt lab h p x as l n \<Longrightarrow> (\<And>y. y \<in> fst ` set as \<Longrightarrow> h' y = h y) \<Longrightarrow> dseg prv nxt lab h' p x as l n"
  by (induction as arbitrary: p x) auto

section \<open>Association lists\<close>

lemma filter_key:
  "distinct (map fst (xs @ (k, v) # ys)) \<Longrightarrow> filter (\<lambda>p. fst p \<noteq> k) (xs @ (k, v) # ys) = xs @ ys"
proof -
  assume d: "distinct (map fst (xs @ (k, v) # ys))"
  then have "\<forall>p \<in> set xs. fst p \<noteq> k" "\<forall>p \<in> set ys. fst p \<noteq> k" by auto
  then have "filter (\<lambda>p. fst p \<noteq> k) xs = xs" "filter (\<lambda>p. fst p \<noteq> k) ys = ys"
    by (auto intro: filter_True)
  then show ?thesis by simp
qed

lemma map_of_filter_key: "map_of (filter (\<lambda>p. fst p \<noteq> k) xs) = (map_of xs)(k := None)"
  by (induction xs) auto

section \<open>Intervals\<close>

lemma upt_split: "i \<le> j \<Longrightarrow> j \<le> k \<Longrightarrow> [i..<k] = [i..<j] @ [j..<k]"
  using upt_add_eq_append [of i j "k - j"] by simp

end
