(* ===== verification/LinkedList.thy ===== *)
theory LinkedList
  imports Prelude
begin

text \<open>
  The doubly linked list of src/src/util/linked_list.c at pointer level.  A list item is a cell
  of a heap, the list header is a value that the operations return updated.  Every operation
  ends with the consistency check the debug build runs (linked_list_check), so that a result
  Some value also says the check passed.

  The abstract value of a list is the sequence of (address, data) pairs from head to tail;
  dlist_rep relates the two and each operation has a refinement lemma against it.
\<close>

section \<open>Data\<close>

record 'd list_item =
  li_prev :: addr
  li_next :: addr
  li_data :: 'd

record linked_list =
  ll_head :: addr
  ll_tail :: addr
  ll_count :: int

section \<open>Operations\<close>

partial_function (option) linked_list_check_loop ::
  "'d list_item heap \<Rightarrow> linked_list \<Rightarrow> addr \<Rightarrow> addr \<Rightarrow> int \<Rightarrow> int option" where
  "linked_list_check_loop h list this_item prev_item nr_items =
     (if this_item = NULL then Some nr_items
      else do {
        this \<leftarrow> load h this_item;
        (if this_item = ll_head list then c_assert (li_prev this = NULL)
         else do {
           prev \<leftarrow> load h prev_item;
           c_assert (li_next prev = this_item);
           c_assert (li_prev this = prev_item) });
        linked_list_check_loop h list (li_next this) this_item (nr_items + 1) })"

definition linked_list_check :: "'d list_item heap \<Rightarrow> linked_list \<Rightarrow> unit option" where
  "linked_list_check h list = do {
     nr_items \<leftarrow> linked_list_check_loop h list (ll_head list) NULL 0;
     c_assert (nr_items = ll_count list) }"

definition linked_list_new :: "'d list_item heap \<Rightarrow> linked_list option" where
  "linked_list_new h = do {
     let list = \<lparr>ll_head = NULL, ll_tail = NULL, ll_count = 0\<rparr>;
     linked_list_check h list;
     Some list }"

definition linked_list_add_item_head ::
  "'d list_item heap \<Rightarrow> linked_list \<Rightarrow> 'd \<Rightarrow> addr \<Rightarrow> ('d list_item heap \<times> linked_list \<times> addr) option" where
  "linked_list_add_item_head h list data new_item = do {
     let h = h(new_item \<mapsto> \<lparr>li_prev = NULL, li_next = ll_head list, li_data = data\<rparr>);
     (h, list) \<leftarrow> (if ll_head list \<noteq> NULL then do {
                    h \<leftarrow> update h (ll_head list) (li_prev_update (\<lambda>_. new_item));
                    Some (h, list) }
                  else Some (h, list\<lparr>ll_tail := new_item\<rparr>));
     let list = list\<lparr>ll_head := new_item, ll_count := ll_count list + 1\<rparr>;
     linked_list_check h list;
     Some (h, list, new_item) }"

definition linked_list_add_item_tail ::
  "'d list_item heap \<Rightarrow> linked_list \<Rightarrow> 'd \<Rightarrow> addr \<Rightarrow> ('d list_item heap \<times> linked_list \<times> addr) option" where
  "linked_list_add_item_tail h list data new_item = do {
     let h = h(new_item \<mapsto> \<lparr>li_prev = NULL, li_next = NULL, li_data = data\<rparr>);
     (h, list) \<leftarrow> (if ll_count list = 0 then
                    Some (h, list\<lparr>ll_head := new_item, ll_tail := new_item\<rparr>)
                  else do {
                    h \<leftarrow> update h new_item (li_prev_update (\<lambda>_. ll_tail list));
                    h \<leftarrow> update h (ll_tail list) (li_next_update (\<lambda>_. new_item));
                    Some (h, list\<lparr>ll_tail := new_item\<rparr>) });
     let list = list\<lparr>ll_count := ll_count list + 1\<rparr>;
     linked_list_check h list;
     Some (h, list, new_item) }"

definition linked_list_make_item_head ::
  "'d list_item heap \<Rightarrow> linked_list \<Rightarrow> addr \<Rightarrow> ('d list_item heap \<times> linked_list) option" where
  "linked_list_make_item_head h list item =
     (if item = ll_head list then Some (h, list)
      else do {
        let old_head = ll_head list;
        it \<leftarrow> load h item;
        let old_prev = li_prev it;
        let old_next = li_next it;
        list \<leftarrow> (if ll_tail list = item then do {
                   c_assert (old_prev \<noteq> NULL);
                   Some (list\<lparr>ll_tail := old_prev\<rparr>) }
                 else Some list);
        let list = list\<lparr>ll_head := item\<rparr>;
        h \<leftarrow> update h item (li_prev_update (\<lambda>_. NULL));
        h \<leftarrow> update h item (li_next_update (\<lambda>_. old_head));
        h \<leftarrow> (if old_head \<noteq> NULL then update h old_head (li_prev_update (\<lambda>_. item)) else Some h);
        h \<leftarrow> (if old_prev \<noteq> NULL then update h old_prev (li_next_update (\<lambda>_. old_next)) else Some h);
        h \<leftarrow> (if old_next \<noteq> NULL then update h old_next (li_prev_update (\<lambda>_. old_prev)) else Some h);
        linked_list_check h list;
        Some (h, list) })"

definition linked_list_remove_tail ::
  "'d list_item heap \<Rightarrow> linked_list \<Rightarrow> ('d list_item heap \<times> linked_list \<times> 'd) option" where
  "linked_list_remove_tail h list = do {
     c_assert (ll_count list > 0);
     let item = ll_tail list;
     it \<leftarrow> load h item;
     let data = li_data it;
     (h, list) \<leftarrow> (if ll_count list = 1 then
                    Some (h, list\<lparr>ll_head := NULL, ll_tail := NULL\<rparr>)
                  else do {
                    let list = list\<lparr>ll_tail := li_prev it\<rparr>;
                    h \<leftarrow> update h (li_prev it) (li_next_update (\<lambda>_. NULL));
                    Some (h, list) });
     h \<leftarrow> dealloc h item;
     let list = list\<lparr>ll_count := ll_count list - 1\<rparr>;
     linked_list_check h list;
     Some (h, list, data) }"

definition linked_list_remove_head ::
  "'d list_item heap \<Rightarrow> linked_list \<Rightarrow> ('d list_item heap \<times> linked_list \<times> 'd) option" where
  "linked_list_remove_head h list = do {
     c_assert (ll_count list > 0);
     let item = ll_head list;
     it \<leftarrow> load h item;
     let data = li_data it;
     (h, list) \<leftarrow> (if ll_count list = 1 then
                    Some (h, list\<lparr>ll_head := NULL, ll_tail := NULL\<rparr>)
                  else do {
                    let list = list\<lparr>ll_head := li_next it\<rparr>;
                    h \<leftarrow> update h (li_next it) (li_prev_update (\<lambda>_. NULL));
                    Some (h, list) });
     h \<leftarrow> dealloc h item;
     let list = list\<lparr>ll_count := ll_count list - 1\<rparr>;
     linked_list_check h list;
     Some (h, list, data) }"

definition linked_list_remove_item ::
  "'d list_item heap \<Rightarrow> linked_list \<Rightarrow> addr \<Rightarrow> ('d list_item heap \<times> linked_list \<times> 'd) option" where
  "linked_list_remove_item h list item = do {
     (h, list) \<leftarrow> linked_list_make_item_head h list item;
     linked_list_remove_head h list }"

definition linked_list_free :: "'d list_item heap \<Rightarrow> linked_list \<Rightarrow> unit option" where
  "linked_list_free h list = do {
     linked_list_check h list;
     c_assert (ll_count list = 0) }"

section \<open>Representation\<close>

abbreviation lseg :: "'d list_item heap \<Rightarrow> addr \<Rightarrow> addr \<Rightarrow> (addr \<times> 'd) list \<Rightarrow> addr \<Rightarrow> addr \<Rightarrow> bool" where
  "lseg \<equiv> dseg li_prev li_next li_data"

definition dlist_rep :: "'d list_item heap \<Rightarrow> linked_list \<Rightarrow> (addr \<times> 'd) list \<Rightarrow> bool" where
  "dlist_rep h list xs \<longleftrightarrow>
     lseg h NULL (ll_head list) xs (ll_tail list) NULL \<and>
     distinct (map fst xs) \<and> ll_count list = int (length xs)"

lemma dlist_rep_empty [simp]: "dlist_rep h \<lparr>ll_head = NULL, ll_tail = NULL, ll_count = 0\<rparr> []"
  by (simp add: dlist_rep_def)

lemma check_loop_tail:
  "lseg h p x as l NULL \<Longrightarrow> p \<noteq> NULL \<Longrightarrow> h p = Some pit \<Longrightarrow> li_next pit = x \<Longrightarrow>
   ll_head list \<notin> fst ` set as \<Longrightarrow>
   linked_list_check_loop h list x p k = Some (k + int (length as))"
proof (induction as arbitrary: p x k pit)
  case Nil
  then show ?case by (simp add: linked_list_check_loop.simps)
next
  case (Cons b as)
  obtain a d where b: "b = (a, d)" by (cases b)
  with Cons.prems(1) obtain it where it: "x = a" "a \<noteq> NULL" "h a = Some it" "li_prev it = p"
      "lseg h a (li_next it) as l NULL" by auto
  have "linked_list_check_loop h list x p k = linked_list_check_loop h list (li_next it) x (k + 1)"
    using it b Cons.prems by (subst linked_list_check_loop.simps) (auto simp: heap_simps)
  with it b Cons.prems(5) show ?case by (auto simp: Cons.IH)
qed

lemma check_rep [simp]: "dlist_rep h list xs \<Longrightarrow> linked_list_check h list = Some ()"
proof (cases xs)
  case Nil
  assume "dlist_rep h list xs"
  with Nil show ?thesis
    by (simp add: dlist_rep_def linked_list_check_def linked_list_check_loop.simps)
next
  case (Cons b as)
  assume rep: "dlist_rep h list xs"
  obtain a d where b: "b = (a, d)" by (cases b)
  with rep Cons obtain it where it: "ll_head list = a" "a \<noteq> NULL" "h a = Some it"
      "li_prev it = NULL" "lseg h a (li_next it) as (ll_tail list) NULL" "a \<notin> fst ` set as"
      "ll_count list = 1 + int (length as)"
    by (auto simp: dlist_rep_def)
  have "linked_list_check_loop h list (ll_head list) NULL 0 = linked_list_check_loop h list (li_next it) a 1"
    using it by (subst linked_list_check_loop.simps) (simp add: heap_simps)
  then show ?thesis
    using it by (simp add: linked_list_check_def check_loop_tail)
qed


section \<open>Refinement\<close>

lemma dlist_rep_fresh: "dlist_rep h list xs \<Longrightarrow> fresh h a \<Longrightarrow> a \<notin> fst ` set xs"
  by (auto simp: dlist_rep_def fresh_def dest: dseg_alloc)

lemma dlist_rep_alloc: "dlist_rep h list xs \<Longrightarrow> (a, d) \<in> set xs \<Longrightarrow>
    a \<noteq> NULL \<and> (\<exists>it. h a = Some it \<and> li_data it = d)"
proof -
  assume rep: "dlist_rep h list xs" and mem: "(a, d) \<in> set xs"
  from mem obtain ys zs where "xs = ys @ (a, d) # zs" by (meson split_list)
  with rep show ?thesis by (auto simp: dlist_rep_def)
qed

lemma dlist_rep_frame [frame_intros]:
  "dlist_rep h list xs \<Longrightarrow> a \<notin> fst ` set xs \<Longrightarrow> dlist_rep (h(a := c)) list xs"
  by (auto simp: dlist_rep_def intro: frame_intros)

lemma linked_list_new_rep: "linked_list_new h = Some list \<longleftrightarrow>
    list = \<lparr>ll_head = NULL, ll_tail = NULL, ll_count = 0\<rparr>"
  by (auto simp: linked_list_new_def Let_def check_rep[OF dlist_rep_empty])

lemma linked_list_add_item_head_rep:
  assumes rep: "dlist_rep h list xs" and a: "fresh h a"
  obtains h' list' where "linked_list_add_item_head h list d a = Some (h', list', a)"
    "dlist_rep h' list' ((a, d) # xs)" "\<And>b. b \<notin> insert a (fst ` set xs) \<Longrightarrow> h' b = h b"
proof (cases xs)
  case Nil
  let ?h = "h(a \<mapsto> \<lparr>li_prev = NULL, li_next = NULL, li_data = d\<rparr>)"
  let ?l = "\<lparr>ll_head = a, ll_tail = a, ll_count = 1\<rparr>"
  have "dlist_rep ?h ?l ((a, d) # xs)"
    using Nil a by (auto simp: dlist_rep_def fresh_def)
  moreover from this have "linked_list_add_item_head h list d a = Some (?h, ?l, a)"
    using Nil rep a by (cases list) (auto simp: linked_list_add_item_head_def dlist_rep_def[of h])
  ultimately show ?thesis using that Nil by auto
next
  case (Cons b ys)
  obtain c e where b: "b = (c, e)" by (cases b)
  from rep Cons b obtain it where it: "ll_head list = c" "c \<noteq> NULL" "h c = Some it" "li_data it = e"
      "li_prev it = NULL" "lseg h c (li_next it) ys (ll_tail list) NULL" "c \<notin> fst ` set ys"
    by (auto simp: dlist_rep_def)
  have na: "a \<noteq> c" "a \<notin> fst ` set ys" "a \<noteq> NULL"
    using dlist_rep_fresh[OF rep a] a Cons b by (auto simp: fresh_def)
  let ?h = "h(a \<mapsto> \<lparr>li_prev = NULL, li_next = c, li_data = d\<rparr>, c \<mapsto> it\<lparr>li_prev := a\<rparr>)"
  let ?l = "list\<lparr>ll_head := a, ll_count := ll_count list + 1\<rparr>"
  have "dlist_rep ?h ?l ((a, d) # xs)"
    using rep Cons b na it by (auto simp: dlist_rep_def intro!: frame_intros)
  moreover from this have "linked_list_add_item_head h list d a = Some (?h, ?l, a)"
    using it na by (simp add: linked_list_add_item_head_def heap_simps)
  ultimately show ?thesis using that Cons b by auto
qed

lemma linked_list_add_item_tail_rep:
  assumes rep: "dlist_rep h list xs" and a: "fresh h a"
  obtains h' list' where "linked_list_add_item_tail h list d a = Some (h', list', a)"
    "dlist_rep h' list' (xs @ [(a, d)])" "\<And>b. b \<notin> insert a (fst ` set xs) \<Longrightarrow> h' b = h b"
proof (cases xs rule: rev_cases)
  case Nil
  let ?h = "h(a \<mapsto> \<lparr>li_prev = NULL, li_next = NULL, li_data = d\<rparr>)"
  let ?l = "\<lparr>ll_head = a, ll_tail = a, ll_count = 1\<rparr>"
  have "dlist_rep ?h ?l (xs @ [(a, d)])"
    using Nil a by (auto simp: dlist_rep_def fresh_def)
  moreover from this have "linked_list_add_item_tail h list d a = Some (?h, ?l, a)"
    using Nil rep a by (cases list) (auto simp: linked_list_add_item_tail_def dlist_rep_def[of h])
  ultimately show ?thesis using that Nil by auto
next
  case (snoc ys b)
  obtain c e where b: "b = (c, e)" by (cases b)
  from rep snoc b obtain it where it: "ll_tail list = c" "c \<noteq> NULL" "h c = Some it" "li_data it = e"
      "li_next it = NULL" "lseg h NULL (ll_head list) ys (li_prev it) c" "c \<notin> fst ` set ys"
    by (auto simp: dlist_rep_def)
  have na: "a \<noteq> c" "a \<notin> fst ` set ys" "a \<noteq> NULL"
    using dlist_rep_fresh[OF rep a] a snoc b by (auto simp: fresh_def)
  let ?h = "h(a \<mapsto> \<lparr>li_prev = c, li_next = NULL, li_data = d\<rparr>, c \<mapsto> it\<lparr>li_next := a\<rparr>)"
  let ?l = "list\<lparr>ll_tail := a, ll_count := ll_count list + 1\<rparr>"
  have "dlist_rep ?h ?l (xs @ [(a, d)])"
    using rep snoc b na it by (auto simp: dlist_rep_def intro!: frame_intros exI)
  moreover from this have "linked_list_add_item_tail h list d a = Some (?h, ?l, a)"
    using it na rep snoc by (simp add: linked_list_add_item_tail_def heap_simps dlist_rep_def[of h])
  ultimately show ?thesis using that snoc b by auto
qed


text \<open>
  The first three changes of linked_list_make_item_head(): the item a is taken out of its place and
  put before the first item b; p is the item before a, its pointer moves to the item after a.
\<close>

lemma moved_segments:
  assumes ys: "lseg h NULL b ys p a" "ys \<noteq> []" and a: "h a = Some it" and zs: "lseg h a n zs l NULL"
    and dist: "a \<notin> fst ` set ys" "a \<notin> fst ` set zs" "distinct (map fst ys)" "fst ` set ys \<inter> fst ` set zs = {}"
  obtains itb itp where "h b = Some itb" "(h(a \<mapsto> it\<lparr>li_prev := NULL, li_next := b\<rparr>, b \<mapsto> itb\<lparr>li_prev := a\<rparr>)) p = Some itp"
    "lseg (h(a \<mapsto> it\<lparr>li_prev := NULL, li_next := b\<rparr>, b \<mapsto> itb\<lparr>li_prev := a\<rparr>, p \<mapsto> itp\<lparr>li_next := n\<rparr>)) a b ys p n"
    "lseg (h(a \<mapsto> it\<lparr>li_prev := NULL, li_next := b\<rparr>, b \<mapsto> itb\<lparr>li_prev := a\<rparr>, p \<mapsto> itp\<lparr>li_next := n\<rparr>)) a n zs l NULL"
proof -
  obtain e ys' where b: "ys = (b, e) # ys'" using ys by (cases ys) auto
  have ba: "b \<noteq> a" using dist(1) b by auto
  have p: "p \<in> fst ` set ys" "p \<noteq> a"
    using ys(2) dist(1) dseg_last[OF ys(1)] last_in_set[of ys] by auto
  let ?h1 = "h(a \<mapsto> it\<lparr>li_prev := NULL, li_next := b\<rparr>)"
  obtain itb where itb: "h b = Some itb" using ys(1) b by auto
  let ?h2 = "?h1(b \<mapsto> itb\<lparr>li_prev := a\<rparr>)"
  obtain ip where "h p = Some ip" using dseg_alloc[OF ys(1) p(1)] by auto
  with p(2) have "\<exists>itp. ?h2 p = Some itp" by simp
  then obtain itp where itp: "?h2 p = Some itp" by blast
  let ?h3 = "?h2(p \<mapsto> itp\<lparr>li_next := n\<rparr>)"
  have seg2: "lseg ?h2 a b ys p a"
    using ys(1) b ba itb dist by (auto intro!: frame_intros)
  obtain us c f where us: "ys = us @ [(c, f)]" using ys(2) by (metis prod.exhaust rev_exhaust)
  have "lseg (g(p \<mapsto> itp\<lparr>li_next := n\<rparr>)) a b ys p n" if "lseg g a b ys p a" "g p = Some itp" for g
    using that us p dist(3) by (auto intro!: frame_intros)
  from this[OF seg2 itp] have "lseg ?h3 a b ys p n" .
  moreover have "p \<notin> fst ` set zs" "b \<notin> fst ` set zs" using p dist(4) b by auto
  with zs dist(2) have "lseg ?h3 a n zs l NULL" by (auto intro!: frame_intros)
  ultimately show thesis by (rule that[OF itb itp])
qed

lemma linked_list_make_item_head_rep:
  assumes rep: "dlist_rep h list (ys @ (a, d) # zs)"
  obtains h' list' where "linked_list_make_item_head h list a = Some (h', list')"
    "dlist_rep h' list' ((a, d) # ys @ zs)"
    "\<And>b. b \<notin> fst ` set (ys @ (a, d) # zs) \<Longrightarrow> h' b = h b"
proof (cases "ys = []")
  case True
  then have "linked_list_make_item_head h list a = Some (h, list)"
    using rep by (auto simp: linked_list_make_item_head_def dlist_rep_def)
  then show ?thesis using that rep True by auto
next
  case False
  from rep obtain p it where it: "a \<noteq> NULL" "h a = Some it" "li_prev it = p" "li_data it = d"
      "lseg h NULL (ll_head list) ys p a" "lseg h a (li_next it) zs (ll_tail list) NULL"
    by (auto simp: dlist_rep_def)
  have dist: "a \<notin> fst ` set ys" "a \<notin> fst ` set zs" "distinct (map fst ys)" "distinct (map fst zs)"
      "fst ` set ys \<inter> fst ` set zs = {}" and cnt: "ll_count list = 1 + int (length ys) + int (length zs)"
    using rep by (auto simp: dlist_rep_def)
  let ?n = "li_next it"
  obtain b where b: "ll_head list = b" "b \<in> fst ` set ys" "b \<noteq> NULL" "a \<noteq> b"
    using it(5) False dist by (cases ys) auto
  have p: "p \<in> fst ` set ys" "p \<noteq> NULL" "p \<noteq> a"
    using it(5) False dist dseg_last[OF it(5)] dseg_alloc[OF it(5)] last_in_set[of ys] by auto
  obtain itb itp where seg: "h b = Some itb" "(h(a \<mapsto> it\<lparr>li_prev := NULL, li_next := b\<rparr>, b \<mapsto> itb\<lparr>li_prev := a\<rparr>)) p = Some itp"
    "lseg (h(a \<mapsto> it\<lparr>li_prev := NULL, li_next := b\<rparr>, b \<mapsto> itb\<lparr>li_prev := a\<rparr>, p \<mapsto> itp\<lparr>li_next := ?n\<rparr>)) a b ys p ?n"
    "lseg (h(a \<mapsto> it\<lparr>li_prev := NULL, li_next := b\<rparr>, b \<mapsto> itb\<lparr>li_prev := a\<rparr>, p \<mapsto> itp\<lparr>li_next := ?n\<rparr>)) a ?n zs (ll_tail list) NULL"
    by (rule moved_segments[OF it(5) False it(2,6) dist(1-3,5)]) (simp add: b(1))
  define h3 where "h3 = h(a \<mapsto> it\<lparr>li_prev := NULL, li_next := b\<rparr>, b \<mapsto> itb\<lparr>li_prev := a\<rparr>, p \<mapsto> itp\<lparr>li_next := ?n\<rparr>)"
  note seg3 = seg(3,4)[folded h3_def]
  define list' where "list' = (if ll_tail list = a then list\<lparr>ll_tail := p\<rparr> else list)\<lparr>ll_head := a\<rparr>"
  have n: "?n = NULL \<longleftrightarrow> zs = []" using dseg_null_first[OF it(6)] .
  have tail: "ll_tail list = a \<longleftrightarrow> zs = []"
    using it(6) dseg_last[OF it(6)] last_in_set[of zs] dist by (cases "zs = []") auto
  have a1: "h3 a = Some (it\<lparr>li_prev := NULL, li_next := b\<rparr>)"
    using p b by (simp add: h3_def)
  have fr: "h3 x = h x" if "x \<notin> fst ` set (ys @ (a, d) # zs)" for x
    using that p b by (auto simp: h3_def)
  show ?thesis
  proof (cases zs)
    case Nil
    have "dlist_rep h3 list' ((a, d) # ys @ zs)"
      using a1 it seg3 tail n Nil dist cnt by (auto simp: dlist_rep_def list'_def)
    moreover from this have "linked_list_make_item_head h list a = Some (h3, list')"
      using it b p seg(1,2) tail n Nil
      by (simp add: linked_list_make_item_head_def heap_simps list'_def h3_def Let_def)
    ultimately show ?thesis using that fr by blast
  next
    case (Cons c0 zs')
    obtain c f where c0: "c0 = (c, f)" by (cases c0)
    from seg3(2) Cons c0 obtain itc where itc: "?n = c" "c \<noteq> NULL" "h3 c = Some itc" "li_prev itc = a"
        "li_data itc = f" "lseg h3 c (li_next itc) zs' (ll_tail list) NULL" by auto
    define h4 where "h4 = h3(c \<mapsto> itc\<lparr>li_prev := p\<rparr>)"
    have "c \<notin> fst ` set ys" "c \<noteq> a" "c \<notin> fst ` set zs'" using dist Cons c0 by auto
    then have "dlist_rep h4 list' ((a, d) # ys @ zs)"
      using a1 it seg3 itc tail n Cons c0 dist cnt
      by (auto simp: dlist_rep_def list'_def h4_def intro!: frame_intros exI)
    moreover from this have "linked_list_make_item_head h list a = Some (h4, list')"
      using it b p seg(1,2) tail n Cons itc
      by (simp add: linked_list_make_item_head_def heap_simps list'_def h4_def h3_def Let_def)
    moreover have "h4 x = h x" if "x \<notin> fst ` set (ys @ (a, d) # zs)" for x
      using fr[OF that] that Cons c0 by (auto simp: h4_def)
    ultimately show ?thesis using that by blast
  qed
qed

lemma linked_list_remove_head_rep:
  assumes rep: "dlist_rep h list ((a, d) # xs)"
  obtains h' list' where "linked_list_remove_head h list = Some (h', list', d)"
    "dlist_rep h' list' xs" "h' a = None" "\<And>b. b \<notin> fst ` set ((a, d) # xs) \<Longrightarrow> h' b = h b"
proof -
  from rep obtain it where it: "a \<noteq> NULL" "ll_head list = a" "h a = Some it" "li_data it = d"
      "lseg h a (li_next it) xs (ll_tail list) NULL" "a \<notin> fst ` set xs"
      "ll_count list = 1 + int (length xs)" "distinct (map fst xs)"
    by (auto simp: dlist_rep_def)
  show ?thesis
  proof (cases xs)
    case Nil
    let ?h = "h(a := None)" and ?l = "\<lparr>ll_head = NULL, ll_tail = NULL, ll_count = 0\<rparr>"
    have "dlist_rep ?h ?l xs" using Nil by simp
    moreover from this have "linked_list_remove_head h list = Some (?h, ?l, d)"
      using it Nil by (cases list) (simp add: linked_list_remove_head_def heap_simps check_rep[OF dlist_rep_empty])
    ultimately show ?thesis using that by auto
  next
    case (Cons b ys)
    obtain c e where b: "b = (c, e)" by (cases b)
    from it Cons b obtain itc where itc: "li_next it = c" "c \<noteq> NULL" "h c = Some itc" "li_prev itc = a"
        "li_data itc = e" "lseg h c (li_next itc) ys (ll_tail list) NULL" by auto
    have ac: "a \<noteq> c" using it Cons b by auto
    let ?h = "h(c \<mapsto> itc\<lparr>li_prev := NULL\<rparr>, a := None)"
    let ?l = "list\<lparr>ll_head := c, ll_count := ll_count list - 1\<rparr>"
    have "dlist_rep ?h ?l xs"
      using it itc Cons b by (auto simp: dlist_rep_def intro!: frame_intros)
    moreover from this have "linked_list_remove_head h list = Some (?h, ?l, d)"
      using it(1-5,7) itc(1-3) Cons ac by (simp add: linked_list_remove_head_def heap_simps)
    ultimately show ?thesis using that Cons b by auto
  qed
qed

lemma linked_list_remove_tail_rep:
  assumes rep: "dlist_rep h list (xs @ [(a, d)])"
  obtains h' list' where "linked_list_remove_tail h list = Some (h', list', d)"
    "dlist_rep h' list' xs" "h' a = None" "\<And>b. b \<notin> fst ` set (xs @ [(a, d)]) \<Longrightarrow> h' b = h b"
proof -
  from rep obtain it where it: "a \<noteq> NULL" "ll_tail list = a" "h a = Some it" "li_data it = d"
      "li_next it = NULL" "lseg h NULL (ll_head list) xs (li_prev it) a" "a \<notin> fst ` set xs"
      "ll_count list = 1 + int (length xs)" "distinct (map fst xs)"
    by (auto simp: dlist_rep_def)
  show ?thesis
  proof (cases xs rule: rev_cases)
    case Nil
    let ?h = "h(a := None)" and ?l = "\<lparr>ll_head = NULL, ll_tail = NULL, ll_count = 0\<rparr>"
    have "dlist_rep ?h ?l xs" using Nil by simp
    moreover from this have "linked_list_remove_tail h list = Some (?h, ?l, d)"
      using it Nil by (cases list) (simp add: linked_list_remove_tail_def heap_simps check_rep[OF dlist_rep_empty])
    ultimately show ?thesis using that by auto
  next
    case (snoc ys b)
    obtain c e where b: "b = (c, e)" by (cases b)
    from it snoc b obtain itc where itc: "li_prev it = c" "c \<noteq> NULL" "h c = Some itc" "li_next itc = a"
        "li_data itc = e" "lseg h NULL (ll_head list) ys (li_prev itc) c" by auto
    have ac: "a \<noteq> c" using it snoc b by auto
    let ?h = "h(c \<mapsto> itc\<lparr>li_next := NULL\<rparr>, a := None)"
    let ?l = "list\<lparr>ll_tail := c, ll_count := ll_count list - 1\<rparr>"
    have "dlist_rep ?h ?l xs"
      using it itc snoc b by (auto simp: dlist_rep_def intro!: frame_intros exI)
    moreover from this have "linked_list_remove_tail h list = Some (?h, ?l, d)"
      using it(1-4,8) itc(1-3) snoc ac by (simp add: linked_list_remove_tail_def heap_simps)
    ultimately show ?thesis using that snoc b by auto
  qed
qed

lemma linked_list_remove_item_rep:
  assumes rep: "dlist_rep h list (ys @ (a, d) # zs)"
  obtains h' list' where "linked_list_remove_item h list a = Some (h', list', d)"
    "dlist_rep h' list' (ys @ zs)" "h' a = None"
    "\<And>b. b \<notin> fst ` set (ys @ (a, d) # zs) \<Longrightarrow> h' b = h b"
proof -
  obtain h1 list1 where 1: "linked_list_make_item_head h list a = Some (h1, list1)"
      "dlist_rep h1 list1 ((a, d) # ys @ zs)" "\<And>b. b \<notin> fst ` set (ys @ (a, d) # zs) \<Longrightarrow> h1 b = h b"
    by (rule linked_list_make_item_head_rep[OF rep]) blast
  obtain h2 list2 where 2: "linked_list_remove_head h1 list1 = Some (h2, list2, d)"
      "dlist_rep h2 list2 (ys @ zs)" "h2 a = None" "\<And>b. b \<notin> fst ` set ((a, d) # ys @ zs) \<Longrightarrow> h2 b = h1 b"
    by (rule linked_list_remove_head_rep[OF 1(2)]) blast
  have "h2 b = h b" if "b \<notin> fst ` set (ys @ (a, d) # zs)" for b
    using that 1(3)[OF that] 2(4)[of b] by auto
  with 1 2 show ?thesis by (intro that[of h2 list2]) (auto simp: linked_list_remove_item_def)
qed

lemma linked_list_free_rep: "dlist_rep h list [] \<Longrightarrow> linked_list_free h list = Some ()"
  by (simp add: linked_list_free_def) (simp add: dlist_rep_def)

end
