(* ===== verification/AvlTree.thy ===== *)
theory AvlTree
  imports Prelude
begin

text \<open>
  The AVL tree of src/src/util/avltree.c at pointer level: nodes with child, parent and
  allocation-order pointers in a heap.  Keys and values are void pointers in C; here a stored
  pointer is an option value whose None is the null pointer.  The comparison callback is the
  argument cmpfunc.  Loops are partial functions into the option type, so that a loop that does
  not return is the value None.  malloc() results are arguments (see Prelude).
\<close>

section \<open>Data\<close>

record ('k, 'v) node =
  n_key :: "'k option"
  n_val :: "'v option"
  n_left :: addr
  n_right :: addr
  n_parent :: addr
  n_next :: addr
  n_prev :: addr

record avltree =
  at_root :: addr
  at_first :: addr
  at_prev :: addr

type_synonym ('k, 'v) nodes = "('k, 'v) node heap"

section \<open>Allocation and local navigation\<close>

definition avltree_new :: avltree where
  "avltree_new = \<lparr>at_root = NULL, at_first = NULL, at_prev = NULL\<rparr>"

definition new_node :: "('k, 'v) nodes \<Rightarrow> avltree \<Rightarrow> addr \<Rightarrow> (('k, 'v) nodes \<times> avltree) option" where
  "new_node h tree node = do {
     let h = h(node \<mapsto> \<lparr>n_key = None, n_val = None, n_left = NULL, n_right = NULL,
                         n_parent = NULL, n_next = NULL, n_prev = NULL\<rparr>);
     h \<leftarrow> (if at_prev tree \<noteq> NULL then do {
             h \<leftarrow> update h (at_prev tree) (n_next_update (\<lambda>_. node));
             update h node (n_prev_update (\<lambda>_. at_prev tree)) }
           else Some h);
     let tree = tree\<lparr>at_prev := node\<rparr>;
     let tree = (if at_first tree = NULL then tree\<lparr>at_first := node\<rparr> else tree);
     Some (h, tree) }"

definition sibling :: "('k, 'v) nodes \<Rightarrow> addr \<Rightarrow> addr option" where
  "sibling h node = do {
     n \<leftarrow> load h node;
     (if n_parent n = NULL then Some NULL
      else do {
        p \<leftarrow> load h (n_parent n);
        (if n_left p = node then Some (n_right p) else Some NULL) }) }"

definition first_child :: "('k, 'v) nodes \<Rightarrow> addr \<Rightarrow> addr option" where
  "first_child h node = do {
     n \<leftarrow> load h node;
     (if n_left n \<noteq> NULL then Some (n_left n)
      else if n_right n \<noteq> NULL then Some (n_right n)
      else Some NULL) }"

section \<open>Rotations\<close>

definition rotate_left :: "('k, 'v) nodes \<Rightarrow> avltree \<Rightarrow> addr \<Rightarrow> (('k, 'v) nodes \<times> avltree) option" where
  "rotate_left h tree root = do {
     r \<leftarrow> load h root;
     let pivot = n_right r;
     let parent = n_parent r;
     let tree = (if root = at_root tree then tree\<lparr>at_root := pivot\<rparr> else tree);
     pv \<leftarrow> load h pivot;
     h \<leftarrow> update h root (n_right_update (\<lambda>_. n_left pv));
     pv \<leftarrow> load h pivot;
     h \<leftarrow> (if n_left pv \<noteq> NULL then update h (n_left pv) (n_parent_update (\<lambda>_. root)) else Some h);
     h \<leftarrow> update h pivot (n_left_update (\<lambda>_. root));
     h \<leftarrow> update h root (n_parent_update (\<lambda>_. pivot));
     h \<leftarrow> update h pivot (n_parent_update (\<lambda>_. parent));
     h \<leftarrow> (if parent \<noteq> NULL then do {
             pn \<leftarrow> load h parent;
             (if n_left pn = root then update h parent (n_left_update (\<lambda>_. pivot))
              else update h parent (n_right_update (\<lambda>_. pivot))) }
           else Some h);
     Some (h, tree) }"

definition rotate_right :: "('k, 'v) nodes \<Rightarrow> avltree \<Rightarrow> addr \<Rightarrow> (('k, 'v) nodes \<times> avltree) option" where
  "rotate_right h tree root = do {
     r \<leftarrow> load h root;
     let pivot = n_left r;
     let parent = n_parent r;
     let tree = (if root = at_root tree then tree\<lparr>at_root := pivot\<rparr> else tree);
     pv \<leftarrow> load h pivot;
     h \<leftarrow> update h root (n_left_update (\<lambda>_. n_right pv));
     pv \<leftarrow> load h pivot;
     h \<leftarrow> (if n_right pv \<noteq> NULL then update h (n_right pv) (n_parent_update (\<lambda>_. root)) else Some h);
     h \<leftarrow> update h pivot (n_right_update (\<lambda>_. root));
     h \<leftarrow> update h root (n_parent_update (\<lambda>_. pivot));
     h \<leftarrow> update h pivot (n_parent_update (\<lambda>_. parent));
     h \<leftarrow> (if parent \<noteq> NULL then do {
             pn \<leftarrow> load h parent;
             (if n_right pn = root then update h parent (n_right_update (\<lambda>_. pivot))
              else update h parent (n_left_update (\<lambda>_. pivot))) }
           else Some h);
     Some (h, tree) }"

section \<open>Height\<close>

text \<open>
  node_height() walks the subtree depth first with three loops: the inner loop that descends to
  the leftmost leaf and tracks the greatest depth, the inner loop that climbs until a node with
  a next sibling, and the outer loop.
\<close>

partial_function (option) height_descend ::
  "('k, 'v) nodes \<Rightarrow> addr \<Rightarrow> int \<Rightarrow> int \<Rightarrow> (addr \<times> int \<times> int) option" where
  "height_descend h node height maxheight = do {
     c \<leftarrow> first_child h node;
     (if c \<noteq> NULL then
        (let height = height + 1
         in height_descend h c height (if height > maxheight then height else maxheight))
      else Some (node, height, maxheight)) }"

partial_function (option) height_climb ::
  "('k, 'v) nodes \<Rightarrow> addr \<Rightarrow> addr \<Rightarrow> int \<Rightarrow> (addr \<times> int) option" where
  "height_climb h root node height = do {
     s \<leftarrow> sibling h node;
     (if s = NULL \<and> node \<noteq> root then do {
        n \<leftarrow> load h node;
        height_climb h root (n_parent n) (height - 1) }
      else Some (node, height)) }"

partial_function (option) height_loop ::
  "('k, 'v) nodes \<Rightarrow> addr \<Rightarrow> addr \<Rightarrow> int \<Rightarrow> int \<Rightarrow> int option" where
  "height_loop h root node height maxheight =
     (if node \<noteq> root then do {
        (node, height, maxheight) \<leftarrow> height_descend h node height maxheight;
        (node, height) \<leftarrow> height_climb h root node height;
        node \<leftarrow> (if node \<noteq> root then sibling h node else Some node);
        height_loop h root node height maxheight }
      else Some maxheight)"

definition node_height :: "('k, 'v) nodes \<Rightarrow> addr \<Rightarrow> int option" where
  "node_height h root =
     (if root = NULL then Some 0
      else do {
        node \<leftarrow> first_child h root;
        (if node \<noteq> NULL then height_loop h root node 2 2 else Some 1) })"

section \<open>Rebalancing\<close>

definition rebalance_node :: "('k, 'v) nodes \<Rightarrow> avltree \<Rightarrow> addr \<Rightarrow> (('k, 'v) nodes \<times> avltree) option" where
  "rebalance_node h tree root = do {
     rt \<leftarrow> load h root;
     hr \<leftarrow> node_height h (n_right rt);
     hl \<leftarrow> node_height h (n_left rt);
     let balance = hr - hl;
     (if balance = 2 then do {
        let r = n_right rt;
        rn \<leftarrow> load h r;
        hrr \<leftarrow> node_height h (n_right rn);
        hrl \<leftarrow> node_height h (n_left rn);
        let rb = hrr - hrl;
        (if rb = 1 then rotate_left h tree root
         else if rb = -1 then do {
           (h, tree) \<leftarrow> rotate_right h tree r;
           rotate_left h tree root }
         else Some (h, tree)) }
      else if balance = -2 then do {
        let l = n_left rt;
        ln \<leftarrow> load h l;
        hlr \<leftarrow> node_height h (n_right ln);
        hll \<leftarrow> node_height h (n_left ln);
        let lb = hlr - hll;
        (if lb = -1 then rotate_right h tree root
         else if lb = 1 then do {
           (h, tree) \<leftarrow> rotate_left h tree l;
           rotate_right h tree root }
         else Some (h, tree)) }
      else Some (h, tree)) }"

partial_function (option) rebalance_loop ::
  "('k, 'v) nodes \<Rightarrow> avltree \<Rightarrow> addr \<Rightarrow> (('k, 'v) nodes \<times> avltree) option" where
  "rebalance_loop h tree root =
     (if root = NULL then Some (h, tree)
      else do {
        rt \<leftarrow> load h root;
        let next = n_parent rt;
        (h, tree) \<leftarrow> rebalance_node h tree root;
        rebalance_loop h tree next })"

definition rebalance :: "('k, 'v) nodes \<Rightarrow> avltree \<Rightarrow> addr \<Rightarrow> (('k, 'v) nodes \<times> avltree) option" where
  "rebalance h tree node = do {
     n \<leftarrow> load h node;
     rebalance_loop h tree (n_parent n) }"

section \<open>Lookup\<close>

partial_function (option) lookup_loop ::
  "('k \<Rightarrow> 'k \<Rightarrow> int) \<Rightarrow> ('k, 'v) nodes \<Rightarrow> 'k \<Rightarrow> addr \<Rightarrow> addr option" where
  "lookup_loop cmpfunc h key node =
     (if node = NULL then Some NULL
      else do {
        n \<leftarrow> load h node;
        nk \<leftarrow> n_key n;
        (if cmpfunc key nk < 0 then lookup_loop cmpfunc h key (n_left n)
         else if cmpfunc key nk > 0 then lookup_loop cmpfunc h key (n_right n)
         else Some node) })"

definition avltree_lookup ::
  "('k \<Rightarrow> 'k \<Rightarrow> int) \<Rightarrow> ('k, 'v) nodes \<Rightarrow> avltree \<Rightarrow> 'k \<Rightarrow> 'v option option" where
  "avltree_lookup cmpfunc h tree key = do {
     node \<leftarrow> lookup_loop cmpfunc h key (at_root tree);
     (if node = NULL then Some None
      else do { n \<leftarrow> load h node; Some (n_val n) }) }"

section \<open>Insertion\<close>

text \<open>
  The insertion loop ends with the position where the new node was linked (Inr), or with the
  early return 1 for a key that is already there (Inl).
\<close>

partial_function (option) add_loop ::
  "('k \<Rightarrow> 'k \<Rightarrow> int) \<Rightarrow> ('k, 'v) nodes \<Rightarrow> avltree \<Rightarrow> 'k \<Rightarrow> addr \<Rightarrow> addr \<Rightarrow>
   (int + (('k, 'v) nodes \<times> avltree)) option" where
  "add_loop cmpfunc h tree key new node = do {
     n \<leftarrow> load h node;
     nk \<leftarrow> n_key n;
     (if cmpfunc key nk < 0 then
        (if n_left n \<noteq> NULL then add_loop cmpfunc h tree key new (n_left n)
         else do {
           (h, tree) \<leftarrow> new_node h tree new;
           h \<leftarrow> update h node (n_left_update (\<lambda>_. new));
           h \<leftarrow> update h new (n_parent_update (\<lambda>_. node));
           Some (Inr (h, tree)) })
      else if cmpfunc key nk > 0 then
        (if n_right n \<noteq> NULL then add_loop cmpfunc h tree key new (n_right n)
         else do {
           (h, tree) \<leftarrow> new_node h tree new;
           h \<leftarrow> update h node (n_right_update (\<lambda>_. new));
           h \<leftarrow> update h new (n_parent_update (\<lambda>_. node));
           Some (Inr (h, tree)) })
      else Some (Inl 1)) }"

definition avltree_add_node ::
  "('k \<Rightarrow> 'k \<Rightarrow> int) \<Rightarrow> ('k, 'v) nodes \<Rightarrow> avltree \<Rightarrow> 'k \<Rightarrow> 'v \<Rightarrow> addr \<Rightarrow>
   (('k, 'v) nodes \<times> avltree \<times> int) option" where
  "avltree_add_node cmpfunc h tree key val new =
     (if at_root tree \<noteq> NULL then do {
        res \<leftarrow> add_loop cmpfunc h tree key new (at_root tree);
        (case res of
           Inl err \<Rightarrow> Some (h, tree, err)
         | Inr (h, tree) \<Rightarrow> do {
             h \<leftarrow> update h new (n_key_update (\<lambda>_. Some key));
             h \<leftarrow> update h new (n_val_update (\<lambda>_. Some val));
             (h, tree) \<leftarrow> rebalance h tree new;
             Some (h, tree, 0) }) }
      else do {
        (h, tree) \<leftarrow> new_node h tree new;
        h \<leftarrow> update h new (n_key_update (\<lambda>_. Some key));
        h \<leftarrow> update h new (n_val_update (\<lambda>_. Some val));
        let tree = tree\<lparr>at_root := new\<rparr>;
        Some (h, tree, 0) })"

section \<open>Deletion\<close>

definition dealloc_node :: "('k, 'v) nodes \<Rightarrow> avltree \<Rightarrow> addr \<Rightarrow> (('k, 'v) nodes \<times> avltree) option" where
  "dealloc_node h tree node = do {
     n \<leftarrow> load h node;
     let tree = (if node = at_first tree then tree\<lparr>at_first := n_next n\<rparr> else tree);
     let tree = (if node = at_prev tree then tree\<lparr>at_prev := n_prev n\<rparr> else tree);
     h \<leftarrow> (if n_prev n \<noteq> NULL then update h (n_prev n) (n_next_update (\<lambda>_. n_next n)) else Some h);
     n \<leftarrow> load h node;
     h \<leftarrow> (if n_next n \<noteq> NULL then update h (n_next n) (n_prev_update (\<lambda>_. n_prev n)) else Some h);
     h \<leftarrow> dealloc h node;
     Some (h, tree) }"

partial_function (option) rightmost :: "('k, 'v) nodes \<Rightarrow> addr \<Rightarrow> addr option" where
  "rightmost h replace = do {
     n \<leftarrow> load h replace;
     (if n_right n \<noteq> NULL then rightmost h (n_right n) else Some replace) }"

partial_function (option) leftmost :: "('k, 'v) nodes \<Rightarrow> addr \<Rightarrow> addr option" where
  "leftmost h replace = do {
     n \<leftarrow> load h replace;
     (if n_left n \<noteq> NULL then leftmost h (n_left n) else Some replace) }"

text \<open>
  The three cases of avltree_delete_node() for the node target that was found: it has a left
  child, it has only a right child, it has no child.
\<close>

definition remove_target ::
  "('k, 'v) nodes \<Rightarrow> avltree \<Rightarrow> addr \<Rightarrow> (('k, 'v) nodes \<times> avltree) option" where
  "remove_target h tree target = do {
     tn \<leftarrow> load h target;
     (if n_left tn \<noteq> NULL then do {
        replace \<leftarrow> rightmost h (n_left tn);
        rn \<leftarrow> load h replace;
        h \<leftarrow> update h target (n_key_update (\<lambda>_. n_key rn));
        h \<leftarrow> update h target (n_val_update (\<lambda>_. n_val rn));
        h \<leftarrow> (if n_parent rn = target
              then update h (n_parent rn) (n_left_update (\<lambda>_. n_left rn))
              else update h (n_parent rn) (n_right_update (\<lambda>_. n_left rn)));
        h \<leftarrow> (if n_left rn \<noteq> NULL
              then update h (n_left rn) (n_parent_update (\<lambda>_. n_parent rn)) else Some h);
        dealloc_node h tree replace }
      else if n_right tn \<noteq> NULL then do {
        replace \<leftarrow> leftmost h (n_right tn);
        rn \<leftarrow> load h replace;
        h \<leftarrow> update h target (n_key_update (\<lambda>_. n_key rn));
        h \<leftarrow> update h target (n_val_update (\<lambda>_. n_val rn));
        h \<leftarrow> (if n_parent rn = target
              then update h (n_parent rn) (n_right_update (\<lambda>_. n_right rn))
              else update h (n_parent rn) (n_left_update (\<lambda>_. n_right rn)));
        h \<leftarrow> (if n_right rn \<noteq> NULL
              then update h (n_right rn) (n_parent_update (\<lambda>_. n_parent rn)) else Some h);
        dealloc_node h tree replace }
      else do {
        (h, tree) \<leftarrow>
          (if target \<noteq> at_root tree then do {
             p \<leftarrow> load h (n_parent tn);
             h \<leftarrow> (if n_left p = target
                   then update h (n_parent tn) (n_left_update (\<lambda>_. NULL))
                   else update h (n_parent tn) (n_right_update (\<lambda>_. NULL)));
             Some (h, tree) }
           else Some (h, tree\<lparr>at_root := NULL\<rparr>));
        dealloc_node h tree target }) }"

definition avltree_delete_node ::
  "('k \<Rightarrow> 'k \<Rightarrow> int) \<Rightarrow> ('k, 'v) nodes \<Rightarrow> avltree \<Rightarrow> 'k \<Rightarrow>
   (('k, 'v) nodes \<times> avltree \<times> 'v option) option" where
  "avltree_delete_node cmpfunc h tree key = do {
     target \<leftarrow> lookup_loop cmpfunc h key (at_root tree);
     (if target = NULL then Some (h, tree, None)
      else do {
        tn \<leftarrow> load h target;
        let val = n_val tn;
        let parent = n_parent tn;
        (h, tree) \<leftarrow> remove_target h tree target;
        (h, tree) \<leftarrow> (if parent \<noteq> NULL then rebalance h tree parent else Some (h, tree));
        Some (h, tree, val) }) }"

section \<open>Disposal\<close>

partial_function (option) avltree_free_loop :: "('k, 'v) nodes \<Rightarrow> addr \<Rightarrow> ('k, 'v) nodes option" where
  "avltree_free_loop h node =
     (if node = NULL then Some h
      else do {
        n \<leftarrow> load h node;
        let next = n_next n;
        h \<leftarrow> dealloc h node;
        avltree_free_loop h next })"

definition avltree_free :: "('k, 'v) nodes \<Rightarrow> avltree \<Rightarrow> ('k, 'v) nodes option" where
  "avltree_free h tree = avltree_free_loop h (at_first tree)"

end
