(* ===== verification/Comparator.thy ===== *)
theory Comparator
  imports Prelude
begin

text \<open>
  The comparison callback of the tree and of the ordered map: an interface (locale comparator)
  with the laws the data structures rely on, and its instance strcmp(), which file_cache.c and
  dataset_cache.c pass as their cmpfunc.
\<close>

section \<open>The interface\<close>

locale comparator =
  fixes cmp :: "'k \<Rightarrow> 'k \<Rightarrow> int"
  assumes cmp_eq: "cmp x y = 0 \<longleftrightarrow> x = y"
    and cmp_flip: "cmp x y < 0 \<longleftrightarrow> cmp y x > 0"
    and cmp_trans: "cmp x y < 0 \<Longrightarrow> cmp y z < 0 \<Longrightarrow> cmp x z < 0"
begin

definition below :: "'k \<Rightarrow> 'k \<Rightarrow> bool" where
  "below x y \<longleftrightarrow> cmp x y < 0"

lemma cmp_same [simp]: "cmp x x = 0"
  by (simp add: cmp_eq)

lemma below_irrefl [simp]: "\<not> below x x"
  by (simp add: below_def)

lemma below_trans: "below x y \<Longrightarrow> below y z \<Longrightarrow> below x z"
  unfolding below_def by (rule cmp_trans)

lemma below_asym: "below x y \<Longrightarrow> \<not> below y x"
  using below_trans below_irrefl by blast

lemma above_iff: "cmp x y > 0 \<longleftrightarrow> below y x"
  by (simp add: below_def cmp_flip)

lemma below_cases: "below x y \<or> x = y \<or> below y x"
  using cmp_eq[of x y] above_iff[of x y] by (auto simp: below_def)

end

section \<open>strcmp\<close>

text \<open>
  strcmp() of the C library on strings without the terminating null byte: the bytes are compared
  as unsigned char; only the sign of the result is specified, which is all the callers use.
\<close>

fun strcmp :: "string \<Rightarrow> string \<Rightarrow> int" where
  "strcmp [] [] = 0"
| "strcmp [] (c # cs) = -1"
| "strcmp (c # cs) [] = 1"
| "strcmp (c # cs) (d # ds) =
     (if c = d then strcmp cs ds else int (of_char c) - int (of_char d))"

lemma strcmp_eq: "strcmp xs ys = 0 \<longleftrightarrow> xs = ys"
  by (induction xs ys rule: strcmp.induct) auto

lemma strcmp_flip: "strcmp xs ys = - strcmp ys xs"
  by (induction xs ys rule: strcmp.induct) auto

lemma strcmp_trans: "strcmp xs ys < 0 \<Longrightarrow> strcmp ys zs < 0 \<Longrightarrow> strcmp xs zs < 0"
proof (induction xs ys arbitrary: zs rule: strcmp.induct)
  case (2 c cs)
  then show ?case by (cases zs) auto
next
  case (4 c cs d ds)
  then show ?case by (cases zs) (auto split: if_splits)
qed auto

interpretation cstring: comparator strcmp
proof
  fix x y z :: string
  show "strcmp x y = 0 \<longleftrightarrow> x = y" by (rule strcmp_eq)
  show "strcmp x y < 0 \<longleftrightarrow> strcmp y x > 0" using strcmp_flip[of x y] by simp
  show "strcmp x y < 0 \<Longrightarrow> strcmp y z < 0 \<Longrightarrow> strcmp x z < 0" by (rule strcmp_trans)
qed

end
