(* ===== verification/AvlSpec.thy ===== *)
theory AvlSpec
  imports Comparator "HOL-Library.Tree"
begin

text \<open>
  The tree algorithms of avltree.c on mathematical trees whose labels are (address, key, value).
  A position in a tree is a context: the list of frames from the position up to the root, which
  is the chain of parent pointers of the C code.  AvlTree holds the pointer code and AvlRefine
  proves that it computes these functions; the facts about order and balance are proved here.
\<close>

type_synonym ('k, 'v) label = "addr \<times> 'k \<times> 'v"
type_synonym ('k, 'v) ltree = "('k, 'v) label tree"

section \<open>Contexts\<close>

datatype 'a frame = InL 'a "'a tree" | InR "'a tree" 'a

fun plug1 :: "'a frame \<Rightarrow> 'a tree \<Rightarrow> 'a tree" where
  "plug1 (InL x r) t = Node t x r"
| "plug1 (InR l x) t = Node l x t"

fun plug :: "'a frame list \<Rightarrow> 'a tree \<Rightarrow> 'a tree" where
  "plug [] t = t"
| "plug (c # cs) t = plug cs (plug1 c t)"

section \<open>Rotations and one rebalancing step\<close>

fun rotL :: "'a tree \<Rightarrow> 'a tree" where
  "rotL (Node a x (Node b y c)) = Node (Node a x b) y c"
| "rotL t = t"

fun rotR :: "'a tree \<Rightarrow> 'a tree" where
  "rotR (Node (Node a x b) y c) = Node a x (Node b y c)"
| "rotR t = t"

fun balance :: "'a tree \<Rightarrow> int" where
  "balance Leaf = 0"
| "balance (Node l x r) = int (height r) - int (height l)"

fun rebal1 :: "'a tree \<Rightarrow> 'a tree" where
  "rebal1 Leaf = Leaf"
| "rebal1 (Node l x r) =
     (let b = balance (Node l x r) in
      if b = 2 then
        (if balance r = 1 then rotL (Node l x r)
         else if balance r = -1 then rotL (Node l x (rotR r))
         else Node l x r)
      else if b = -2 then
        (if balance l = -1 then rotR (Node l x r)
         else if balance l = 1 then rotR (Node (rotL l) x r)
         else Node l x r)
      else Node l x r)"

declare rebal1.simps [simp del]

text \<open>Walk from a position to the root, rebalancing every ancestor (rebalance() in C).\<close>

fun rebal_up :: "'a frame list \<Rightarrow> 'a tree \<Rightarrow> 'a tree" where
  "rebal_up [] t = t"
| "rebal_up (c # cs) t = rebal_up cs (rebal1 (plug1 c t))"

section \<open>Insertion and deletion\<close>

fun path :: "('k \<Rightarrow> 'k \<Rightarrow> int) \<Rightarrow> 'k \<Rightarrow> ('k, 'v) ltree \<Rightarrow> ('k, 'v) label frame list \<Rightarrow>
    ('k, 'v) label frame list \<times> ('k, 'v) ltree" where
  "path cmp k Leaf cs = (cs, Leaf)"
| "path cmp k (Node l (a, nk, v) r) cs =
     (if cmp k nk < 0 then path cmp k l (InL (a, nk, v) r # cs)
      else if cmp k nk > 0 then path cmp k r (InR l (a, nk, v) # cs)
      else (cs, Node l (a, nk, v) r))"

fun ins :: "('k \<Rightarrow> 'k \<Rightarrow> int) \<Rightarrow> ('k, 'v) label \<Rightarrow> ('k, 'v) ltree \<Rightarrow> ('k, 'v) ltree" where
  "ins cmp x Leaf = Node Leaf x Leaf"
| "ins cmp x (Node l y r) =
     (if cmp (fst (snd x)) (fst (snd y)) < 0 then rebal1 (Node (ins cmp x l) y r)
      else if cmp (fst (snd x)) (fst (snd y)) > 0 then rebal1 (Node l y (ins cmp x r))
      else Node l y r)"

fun split_max :: "'a tree \<Rightarrow> 'a tree \<times> 'a" where
  "split_max (Node l x Leaf) = (l, x)"
| "split_max (Node l x r) = (let (r', m) = split_max r in (Node l x r', m))"

fun split_min :: "'a tree \<Rightarrow> 'a tree \<times> 'a" where
  "split_min (Node Leaf x r) = (r, x)"
| "split_min (Node l x r) = (let (l', m) = split_min l in (Node l' x r, m))"

text \<open>
  The node that holds the key is replaced by the greatest node of its left subtree or the least
  of its right subtree, whose key and value are copied into it: the address at the position
  stays, the address of the replacement is the one that is freed.
\<close>

definition del_root :: "('k, 'v) ltree \<Rightarrow> ('k, 'v) ltree \<times> addr" where
  "del_root t = (case t of
     Leaf \<Rightarrow> (Leaf, NULL)
   | Node l (a, _, _) r \<Rightarrow>
       (if l \<noteq> Leaf then (case split_max l of (l', (b, k, v)) \<Rightarrow> (Node l' (a, k, v) r, b))
        else if r \<noteq> Leaf then (case split_min r of (r', (b, k, v)) \<Rightarrow> (Node l (a, k, v) r', b))
        else (Leaf, a)))"

text \<open>
  The code calls rebalance(tree, parent) with the parent of the node, and rebalance() starts at
  the parent of its argument: the parent itself is never rebalanced.
\<close>

definition del :: "('k \<Rightarrow> 'k \<Rightarrow> int) \<Rightarrow> 'k \<Rightarrow> ('k, 'v) ltree \<Rightarrow> ('k, 'v) ltree" where
  "del cmp k t = (case path cmp k t [] of
     (cs, Leaf) \<Rightarrow> t
   | (cs, u) \<Rightarrow> (case cs of
        [] \<Rightarrow> fst (del_root u)
      | c # cs' \<Rightarrow> rebal_up cs' (plug1 c (fst (del_root u)))))"


section \<open>In-order contents\<close>

definition kvs :: "('k, 'v) ltree \<Rightarrow> ('k \<times> 'v) list" where
  "kvs t = map snd (inorder t)"

definition addrs :: "('k, 'v) ltree \<Rightarrow> addr list" where
  "addrs t = map fst (inorder t)"

fun before :: "'a frame list \<Rightarrow> 'a list" where
  "before [] = []"
| "before (InL x r # cs) = before cs"
| "before (InR l x # cs) = before cs @ inorder l @ [x]"

fun after :: "'a frame list \<Rightarrow> 'a list" where
  "after [] = []"
| "after (InL x r # cs) = x # inorder r @ after cs"
| "after (InR l x # cs) = after cs"

lemma kvs_simps [simp]:
  "kvs Leaf = []" "kvs (Node l x r) = kvs l @ snd x # kvs r"
  by (simp_all add: kvs_def)

lemma addrs_simps [simp]:
  "addrs Leaf = []" "addrs (Node l x r) = addrs l @ fst x # addrs r"
  by (simp_all add: addrs_def)

lemma inorder_rotL [simp]: "inorder (rotL t) = inorder t"
  by (cases t rule: rotL.cases) auto

lemma inorder_rotR [simp]: "inorder (rotR t) = inorder t"
  by (cases t rule: rotR.cases) auto

lemma inorder_rebal1 [simp]: "inorder (rebal1 t) = inorder t"
  by (cases t) (simp_all add: rebal1.simps Let_def del: rotL.simps rotR.simps)

lemma inorder_plug: "inorder (plug cs t) = before cs @ inorder t @ after cs"
proof (induction cs t rule: plug.induct)
  case (2 c cs t)
  then show ?case by (cases c) auto
qed simp

lemma inorder_rebal_up [simp]: "inorder (rebal_up cs t) = inorder (plug cs t)"
proof (induction cs arbitrary: t)
  case (Cons c cs)
  then show ?case by (simp add: inorder_plug)
qed simp

lemma plug_Leaf: "plug cs t = Leaf \<longleftrightarrow> cs = [] \<and> t = Leaf"
proof (induction cs t rule: plug.induct)
  case (2 c cs t)
  then show ?case by (cases c) auto
qed simp

lemma plug_append: "plug (cs @ ds) t = plug ds (plug cs t)"
  by (induction cs arbitrary: t) auto

section \<open>Search paths\<close>

lemma path_plug: "path cmp k t cs = (ds, u) \<Longrightarrow> plug ds u = plug cs t"
  by (induction cmp k t cs rule: path.induct) (auto split: if_splits)

lemma path_found:
  "path cmp k t cs = (ds, Node l (a, nk, v) r) \<Longrightarrow> \<not> cmp k nk < 0 \<and> \<not> cmp k nk > 0"
  by (induction cmp k t cs rule: path.induct) (auto split: if_splits)

lemma rebal_up_path_ins:
  "path cmp (fst (snd x)) t cs = (ds, Leaf) \<Longrightarrow>
   rebal_up ds (Node Leaf x Leaf) = rebal_up cs (ins cmp x t)"
  by (induction cmp "fst (snd x)" t cs rule: path.induct) (auto split: if_splits)

section \<open>Greatest and least node\<close>

lemma split_max_inorder:
  "t \<noteq> Leaf \<Longrightarrow> split_max t = (t', m) \<Longrightarrow> inorder t = inorder t' @ [m]"
  by (induction t arbitrary: t' rule: split_max.induct) (auto split: prod.splits)

lemma split_min_inorder:
  "t \<noteq> Leaf \<Longrightarrow> split_min t = (t', m) \<Longrightarrow> inorder t = m # inorder t'"
  by (induction t arbitrary: t' rule: split_min.induct) (auto split: prod.splits)

lemma del_root_kvs:
  "kvs (fst (del_root (Node l (a, k, v) r))) = kvs l @ kvs r"
  by (auto simp: del_root_def kvs_def dest: split_max_inorder split_min_inorder split: prod.splits)

lemma del_root_addrs:
  assumes "distinct (addrs (Node l (a, k, v) r))"
  shows "distinct (addrs (fst (del_root (Node l (a, k, v) r)))) \<and>
    set (addrs (fst (del_root (Node l (a, k, v) r))))
      = set (addrs (Node l (a, k, v) r)) - {snd (del_root (Node l (a, k, v) r))} \<and>
    snd (del_root (Node l (a, k, v) r)) \<in> set (addrs (Node l (a, k, v) r))"
proof -
  consider (left) l' b k' v' where "l \<noteq> Leaf" "split_max l = (l', (b, k', v'))"
    | (right) r' b k' v' where "l = Leaf" "r \<noteq> Leaf" "split_min r = (r', (b, k', v'))"
    | (leaf) "l = Leaf" "r = Leaf"
    by (metis prod_cases3 surj_pair)
  then show ?thesis
  proof cases
    case left
    then have "inorder l = inorder l' @ [(b, k', v')]" by (rule split_max_inorder)
    with left assms show ?thesis by (auto simp: del_root_def addrs_def)
  next
    case right
    then have "inorder r = (b, k', v') # inorder r'" by (intro split_min_inorder)
    with right assms show ?thesis by (auto simp: del_root_def addrs_def)
  next
    case leaf
    then show ?thesis by (simp add: del_root_def)
  qed
qed

section \<open>Balance\<close>

fun avl :: "'a tree \<Rightarrow> bool" where
  "avl Leaf = True"
| "avl (Node l x r) = (avl l \<and> avl r \<and> \<bar>balance (Node l x r)\<bar> \<le> 1)"

lemma rebal1_right_heavy:
  assumes "avl l" "avl r" "height r = height l + 2" "balance r \<noteq> 0"
  shows "avl (rebal1 (Node l x r)) \<and> height (rebal1 (Node l x r)) = height l + 2"
proof -
  from assms(3) obtain b y c where r: "r = Node b y c" by (cases r) auto
  with assms(2,4) consider "balance r = 1" | "balance r = -1" by fastforce
  then show ?thesis
  proof cases
    case 1
    with assms r show ?thesis by (auto simp: rebal1.simps Let_def max_def split: if_splits)
  next
    case 2
    with r obtain b1 z b2 where b: "b = Node b1 z b2" by (cases b) auto
    from 2 assms r b have "height c = height l" "max (height b1) (height b2) = height l"
      by (auto simp: max_def split: if_splits)
    with 2 assms r b show ?thesis by (auto simp: rebal1.simps Let_def max_def split: if_splits)
  qed
qed

lemma rebal1_left_heavy:
  assumes "avl l" "avl r" "height l = height r + 2" "balance l \<noteq> 0"
  shows "avl (rebal1 (Node l x r)) \<and> height (rebal1 (Node l x r)) = height r + 2"
proof -
  from assms(3) obtain b y c where l: "l = Node b y c" by (cases l) auto
  with assms(1,4) consider "balance l = -1" | "balance l = 1" by fastforce
  then show ?thesis
  proof cases
    case 1
    with assms l show ?thesis by (auto simp: rebal1.simps Let_def max_def split: if_splits)
  next
    case 2
    with l obtain c1 z c2 where c: "c = Node c1 z c2" by (cases c) auto
    from 2 assms l c have "height b = height r" "max (height c1) (height c2) = height r"
      by (auto simp: max_def split: if_splits)
    with 2 assms l c show ?thesis by (auto simp: rebal1.simps Let_def max_def split: if_splits)
  qed
qed

lemma rebal1_balanced: "\<bar>balance t\<bar> \<le> 1 \<Longrightarrow> rebal1 t = t"
  by (cases t) (auto simp: rebal1.simps Let_def)

text \<open>
  grows t u: u is balanced, at most one higher than t, and leans to one side when it is higher
  and t was not empty.  This excludes the case the code does not handle, an unbalanced node
  whose heavy child is level.
\<close>

definition grows :: "'a tree \<Rightarrow> 'a tree \<Rightarrow> bool" where
  "grows t u \<longleftrightarrow> avl u \<and> (height u = height t \<or>
     height u = height t + 1 \<and> (t \<noteq> Leaf \<longrightarrow> balance u \<noteq> 0))"

lemma height_pos: "t = Leaf \<or> 0 < height t"
  by (cases t) auto

lemma grows_left:
  assumes "avl (Node l x r)" "grows l l'"
  shows "grows (Node l x r) (rebal1 (Node l' x r))"
proof (cases "height l' = height r + 2")
  case True
  with assms have "balance l' \<noteq> 0" by (cases "l = Leaf") (auto simp: grows_def)
  with True assms have "avl (rebal1 (Node l' x r)) \<and> height (rebal1 (Node l' x r)) = height r + 2"
    by (intro rebal1_left_heavy) (auto simp: grows_def)
  moreover have "height (Node l x r) = height r + 2" using True assms by (auto simp: grows_def)
  ultimately show ?thesis by (simp add: grows_def)
next
  case False
  with assms have "\<bar>balance (Node l' x r)\<bar> \<le> 1" by (auto simp: grows_def)
  then have "rebal1 (Node l' x r) = Node l' x r" by (rule rebal1_balanced)
  with assms False height_pos[of l] height_pos[of r] show ?thesis by (auto simp: grows_def max_def)
qed

lemma grows_right:
  assumes "avl (Node l x r)" "grows r r'"
  shows "grows (Node l x r) (rebal1 (Node l x r'))"
proof (cases "height r' = height l + 2")
  case True
  with assms have "balance r' \<noteq> 0" by (cases "r = Leaf") (auto simp: grows_def)
  with True assms have "avl (rebal1 (Node l x r')) \<and> height (rebal1 (Node l x r')) = height l + 2"
    by (intro rebal1_right_heavy) (auto simp: grows_def)
  moreover have "height (Node l x r) = height l + 2" using True assms by (auto simp: grows_def)
  ultimately show ?thesis by (simp add: grows_def)
next
  case False
  with assms have "\<bar>balance (Node l x r')\<bar> \<le> 1" by (auto simp: grows_def)
  then have "rebal1 (Node l x r') = Node l x r'" by (rule rebal1_balanced)
  with assms False height_pos[of l] height_pos[of r] show ?thesis by (auto simp: grows_def max_def)
qed

lemma ins_grows: "avl t \<Longrightarrow> grows t (ins cmp x t)"
proof (induction t)
  case Leaf
  then show ?case by (simp add: grows_def)
next
  case (Node l y r)
  then show ?case using grows_left[OF Node.prems] grows_right[OF Node.prems]
    by (auto simp: grows_def[of "Node l y r" "Node l y r"])
qed

section \<open>The tree as a map\<close>

definition bst :: "('k \<Rightarrow> 'k \<Rightarrow> int) \<Rightarrow> ('k, 'v) ltree \<Rightarrow> bool" where
  "bst cmp t \<longleftrightarrow> sorted_wrt (\<lambda>x y. cmp x y < 0) (map fst (kvs t))"

lemma bst_inorder: "inorder t = inorder u \<Longrightarrow> bst cmp t = bst cmp u"
  by (simp add: bst_def kvs_def)

lemma bst_Leaf [simp]: "bst cmp Leaf"
  by (simp add: bst_def)

lemma bst_Node: "bst cmp (Node l x r) \<longleftrightarrow> bst cmp l \<and> bst cmp r \<and>
    (\<forall>p \<in> set (kvs l). cmp (fst p) (fst (snd x)) < 0) \<and>
    (\<forall>q \<in> set (kvs r). cmp (fst (snd x)) (fst q) < 0) \<and>
    (\<forall>p \<in> set (kvs l). \<forall>q \<in> set (kvs r). cmp (fst p) (fst q) < 0)"
  by (auto simp: bst_def sorted_wrt_append)

context comparator
begin

lemma path_Leaf_iff:
  assumes "bst cmp t"
  shows "snd (path cmp k t cs) = Leaf \<longleftrightarrow> k \<notin> fst ` set (kvs t)"
  using assms
proof (induction t arbitrary: cs)
  case (Node l x r)
  obtain a nk v where x: "x = (a, nk, v)" by (cases x)
  have sub: "bst cmp l" "bst cmp r" using Node.prems by (auto simp: bst_Node)
  have l: "k \<notin> fst ` set (kvs l)" if "\<not> cmp k nk < 0"
    using that Node.prems by (auto simp: bst_Node x)
  have r: "k \<notin> fst ` set (kvs r)" if "\<not> cmp k nk > 0"
    using that Node.prems by (auto simp: bst_Node x above_iff below_def)
  have "k = nk \<longleftrightarrow> \<not> cmp k nk < 0 \<and> \<not> cmp k nk > 0" using cmp_eq[of k nk] by auto
  with l r Node.IH(1)[OF sub(1)] Node.IH(2)[OF sub(2)] show ?case
    by (cases "cmp k nk < 0"; cases "cmp k nk > 0") (auto simp: x)
qed simp

lemma bst_distinct: "bst cmp t \<Longrightarrow> distinct (map fst (kvs t))"
proof (induction t)
  case (Node l x r)
  then show ?case using below_irrefl by (force simp: bst_Node below_def)
qed simp

lemma path_value:
  assumes "bst cmp t" "path cmp k t [] = (ds, Node l (a, nk, v) r)"
  shows "nk = k" and "map_of (kvs t) k = Some v"
proof -
  show nk: "nk = k" using path_found[OF assms(2)] cmp_eq[of k nk] by simp
  have "kvs t = map snd (before ds) @ kvs l @ (nk, v) # kvs r @ map snd (after ds)"
    using arg_cong[OF path_plug[OF assms(2)], of kvs] by (simp add: kvs_def inorder_plug)
  then have "(k, v) \<in> set (kvs t)" by (simp add: nk)
  with bst_distinct[OF assms(1)] show "map_of (kvs t) k = Some v" by (simp add: map_of_eq_Some_iff)
qed

lemma kvs_del:
  assumes "bst cmp t"
  shows "kvs (del cmp k t) = filter (\<lambda>p. fst p \<noteq> k) (kvs t)"
proof (cases "path cmp k t []")
  case (Pair ds u)
  show ?thesis
  proof (cases u)
    case Leaf
    with Pair path_Leaf_iff[OF assms, of k "[]"] have "\<forall>p \<in> set (kvs t). fst p \<noteq> k" by force
    with Pair Leaf show ?thesis by (simp add: del_def)
  next
    case (Node l x r)
    obtain a nk v where x: "x = (a, nk, v)" by (cases x)
    note p = Pair[unfolded Node x]
    have t: "kvs t = map snd (before ds) @ kvs l @ (k, v) # kvs r @ map snd (after ds)"
      using arg_cong[OF path_plug[OF p], of kvs] path_value(1)[OF assms p]
      by (simp add: kvs_def inorder_plug)
    have del_io: "inorder (del cmp k t) = inorder (plug ds (fst (del_root u)))"
      using p Node x by (simp add: del_def split: list.split)
    have d: "kvs (del cmp k t) = map snd (before ds) @ kvs l @ kvs r @ map snd (after ds)"
      using del_io del_root_kvs[of l a nk v r] by (simp add: kvs_def inorder_plug Node x)
    have "filter (\<lambda>p. fst p \<noteq> k) (kvs t) = (map snd (before ds) @ kvs l) @ kvs r @ map snd (after ds)"
      using filter_key[of "map snd (before ds) @ kvs l" k v "kvs r @ map snd (after ds)"]
        bst_distinct[OF assms] by (simp add: t)
    then show ?thesis by (simp add: d)
  qed
qed

lemma kvs_rebal1 [simp]: "kvs (rebal1 t) = kvs t"
  by (simp add: kvs_def)

lemma bst_rebal1 [simp]: "bst cmp (rebal1 t) = bst cmp t"
  by (simp add: bst_def)

lemma ins_bst:
  assumes "bst cmp t" "fst (snd x) \<notin> fst ` set (kvs t)"
  shows "bst cmp (ins cmp x t) \<and> set (kvs (ins cmp x t)) = insert (snd x) (set (kvs t))"
  using assms
proof (induction t)
  case (Node l y r)
  let ?k = "fst (snd x)" and ?nk = "fst (snd y)"
  have neq: "?k \<noteq> ?nk" using Node.prems(2) by auto
  have sub: "bst cmp l" "bst cmp r" "?k \<notin> fst ` set (kvs l)" "?k \<notin> fst ` set (kvs r)"
    using Node.prems by (auto simp: bst_Node)
  show ?case
  proof (cases "cmp ?k ?nk < 0")
    case True
    have "cmp ?k (fst q) < 0" if "q \<in> set (kvs r)" for q
      using that Node.prems(1) True by (auto simp: bst_Node intro: cmp_trans)
    with True Node.IH(1)[OF sub(1,3)] Node.prems(1) show ?thesis
      by (auto simp: bst_Node)
  next
    case False
    with neq cmp_eq[of ?k ?nk] have gt: "cmp ?k ?nk > 0" by simp
    then have lt: "cmp ?nk ?k < 0" by (simp add: cmp_flip)
    have "cmp (fst p) ?k < 0" if "p \<in> set (kvs l)" for p
      using that Node.prems(1) lt by (auto simp: bst_Node intro: cmp_trans)
    with gt lt Node.IH(2)[OF sub(2,4)] Node.prems(1) show ?thesis
      by (auto simp: bst_Node)
  qed
qed (simp add: bst_def)

lemma map_of_ins:
  assumes "bst cmp t" "k \<notin> fst ` set (kvs t)"
  shows "map_of (kvs (ins cmp (a, k, v) t)) = (map_of (kvs t))(k \<mapsto> v)"
proof -
  have i: "bst cmp (ins cmp (a, k, v) t)" "set (kvs (ins cmp (a, k, v) t)) = insert (k, v) (set (kvs t))"
    using ins_bst[of t "(a, k, v)"] assms by auto
  have "map_of (kvs (ins cmp (a, k, v) t)) = map_of ((k, v) # kvs t)"
  proof (rule map_of_inject_set[THEN iffD2])
    show "distinct (map fst (kvs (ins cmp (a, k, v) t)))" by (rule bst_distinct[OF i(1)])
    show "distinct (map fst ((k, v) # kvs t))" using bst_distinct[OF assms(1)] assms(2) by simp
    show "set (kvs (ins cmp (a, k, v) t)) = set ((k, v) # kvs t)" using i(2) by simp
  qed
  then show ?thesis by simp
qed

lemma map_of_del: "bst cmp t \<Longrightarrow> map_of (kvs (del cmp k t)) = (map_of (kvs t))(k := None)"
  by (simp add: kvs_del map_of_filter_key)

lemma del_bst:
  assumes "bst cmp t"
  shows "bst cmp (del cmp k t)"
  using assms sorted_wrt_filter[of "\<lambda>p q. cmp (fst p) (fst q) < 0" "kvs t"]
  by (simp only: bst_def sorted_wrt_map kvs_del[OF assms])

end

end
