(* ===== verification/AvlRefine.thy ===== *)
theory AvlRefine
  imports AvlTree AvlSpec "HOL-Library.Multiset"
begin

text \<open>
  What a heap of nodes represents: is_tree relates the nodes below a pointer to a labelled tree,
  is_ctx the nodes above it to a context.  The pointer surgery of avltree.c (hanging a subtree
  at a position, both rotations) is related to the tree functions of AvlSpec.
\<close>

section \<open>Representation\<close>

fun is_tree :: "('k, 'v) nodes \<Rightarrow> addr \<Rightarrow> addr \<Rightarrow> ('k, 'v) ltree \<Rightarrow> bool" where
  "is_tree h par p Leaf \<longleftrightarrow> p = NULL"
| "is_tree h par p (Node l (a, k, v) r) \<longleftrightarrow> p = a \<and> a \<noteq> NULL \<and>
     (\<exists>n. h a = Some n \<and> n_key n = Some k \<and> n_val n = Some v \<and> n_parent n = par \<and>
        is_tree h a (n_left n) l \<and> is_tree h a (n_right n) r)"

fun is_ctx :: "('k, 'v) nodes \<Rightarrow> addr \<Rightarrow> ('k, 'v) label frame list \<Rightarrow> addr \<Rightarrow> addr \<Rightarrow> bool" where
  "is_ctx h root [] p par \<longleftrightarrow> root = p \<and> par = NULL"
| "is_ctx h root (InL (a, k, v) r # cs) p par \<longleftrightarrow> par = a \<and> a \<noteq> NULL \<and>
     (\<exists>n. h a = Some n \<and> n_key n = Some k \<and> n_val n = Some v \<and> n_left n = p \<and>
        is_tree h a (n_right n) r \<and> is_ctx h root cs a (n_parent n))"
| "is_ctx h root (InR l (a, k, v) # cs) p par \<longleftrightarrow> par = a \<and> a \<noteq> NULL \<and>
     (\<exists>n. h a = Some n \<and> n_key n = Some k \<and> n_val n = Some v \<and> n_right n = p \<and>
        is_tree h a (n_left n) l \<and> is_ctx h root cs a (n_parent n))"

fun caddrs :: "('k, 'v) label frame list \<Rightarrow> addr list" where
  "caddrs [] = []"
| "caddrs (InL x r # cs) = fst x # addrs r @ caddrs cs"
| "caddrs (InR l x # cs) = fst x # addrs l @ caddrs cs"

lemma is_tree_plug:
  "is_tree h NULL root (plug cs t) \<longleftrightarrow> (\<exists>p par. is_ctx h root cs p par \<and> is_tree h par p t)"
proof (induction cs t rule: plug.induct)
  case (2 c cs t)
  then show ?case by (cases c) auto
qed auto

lemma addrs_plug: "mset (addrs (plug cs t)) = mset (addrs t) + mset (caddrs cs)"
proof (induction cs t rule: plug.induct)
  case (2 c cs t)
  then show ?case by (cases c) (auto simp: ac_simps)
qed simp

lemma distinct_plug: "distinct (addrs (plug cs t)) \<longleftrightarrow> distinct (addrs t @ caddrs cs)"
  using addrs_plug[of cs t] by (metis mset_append mset_eq_imp_distinct_iff)

lemma set_addrs_plug: "set (addrs (plug cs t)) = set (addrs t) \<union> set (caddrs cs)"
  using addrs_plug[of cs t] by (metis set_append mset_append mset_eq_setD)

lemma is_tree_frame [simp]:
  "a \<notin> set (addrs t) \<Longrightarrow> is_tree (h(a := c)) par p t = is_tree h par p t"
  by (induction h par p t rule: is_tree.induct) auto

lemma is_ctx_frame [simp]:
  "a \<notin> set (caddrs cs) \<Longrightarrow> is_ctx (h(a := c)) root cs p par = is_ctx h root cs p par"
  by (induction h root cs p par rule: is_ctx.induct) auto

lemma is_tree_alloc: "is_tree h par p t \<Longrightarrow> a \<in> set (addrs t) \<Longrightarrow> a \<noteq> NULL \<and> (\<exists>n. h a = Some n)"
  by (induction h par p t rule: is_tree.induct) auto

lemma is_ctx_alloc: "is_ctx h root cs p par \<Longrightarrow> a \<in> set (caddrs cs) \<Longrightarrow> a \<noteq> NULL \<and> (\<exists>n. h a = Some n)"
  by (induction h root cs p par rule: is_ctx.induct) (auto dest: is_tree_alloc)

lemma is_tree_ptr: "is_tree h par p t \<Longrightarrow> p = (case t of Leaf \<Rightarrow> NULL | Node l x r \<Rightarrow> fst x)"
  by (cases "(h, par, p, t)" rule: is_tree.cases) auto

lemma is_tree_agree:
  "\<forall>a \<in> set (addrs t). h' a = h a \<Longrightarrow> is_tree h' par p t = is_tree h par p t"
  by (induction h par p t rule: is_tree.induct) auto

lemma is_tree_move:
  "is_tree h par p t \<Longrightarrow> (\<And>x. x \<in> set (addrs t) \<Longrightarrow> h' x = h x) \<Longrightarrow> is_tree h' par p t"
  using is_tree_agree[of t h' h par p] by auto

lemma is_ctx_agree:
  "\<forall>a \<in> set (caddrs cs). h' a = h a \<Longrightarrow> is_ctx h' root cs p par = is_ctx h root cs p par"
proof (induction h root cs p par rule: is_ctx.induct)
  case (2 h root a k v r cs p par)
  have "is_tree h' a q r = is_tree h a q r" for q using 2 by (intro is_tree_agree) auto
  with 2 show ?case by auto
next
  case (3 h root l a k v cs p par)
  have "is_tree h' a q l = is_tree h a q l" for q using 3 by (intro is_tree_agree) auto
  with 3 show ?case by auto
qed simp

lemma is_ctx_root: "is_ctx h root cs p par \<Longrightarrow> cs \<noteq> [] \<Longrightarrow> root \<in> set (caddrs cs)"
proof (induction h root cs p par rule: is_ctx.induct)
  case (2 h root a k v r cs p par)
  then show ?case by (cases "cs = []") auto
next
  case (3 h root l a k v cs p par)
  then show ?case by (cases "cs = []") auto
qed simp

lemma is_ctx_par: "is_ctx h root cs p par \<Longrightarrow> par = NULL \<longleftrightarrow> cs = []"
  by (induction h root cs p par rule: is_ctx.induct) auto

lemma is_ctx_par_in: "is_ctx h root cs p par \<Longrightarrow> cs \<noteq> [] \<Longrightarrow> par \<in> set (caddrs cs)"
  by (induction h root cs p par rule: is_ctx.induct) auto

definition same_links :: "('k, 'v) nodes \<Rightarrow> ('k, 'v) nodes \<Rightarrow> bool" where
  "same_links h h' \<longleftrightarrow> (\<forall>x. map_option (\<lambda>n. (n_prev n, n_next n)) (h' x)
     = map_option (\<lambda>n. (n_prev n, n_next n)) (h x))"

lemma same_links_refl [simp]: "same_links h h"
  by (simp add: same_links_def)

lemma same_links_trans [trans]: "same_links h h' \<Longrightarrow> same_links h' h'' \<Longrightarrow> same_links h h''"
  by (simp add: same_links_def)

lemma same_links_upd:
  "h a = Some n \<Longrightarrow> n_prev n' = n_prev n \<Longrightarrow> n_next n' = n_next n \<Longrightarrow> same_links h (h(a \<mapsto> n'))"
  by (simp add: same_links_def)

text \<open>
  keeps S: a step on the tree that owns the nodes S leaves every other node and the order of
  allocation alone.
\<close>

definition keeps ::
  "addr set \<Rightarrow> ('k, 'v) nodes \<Rightarrow> avltree \<Rightarrow> ('k, 'v) nodes \<Rightarrow> avltree \<Rightarrow> bool" where
  "keeps S h T h' T' \<longleftrightarrow> same_links h h' \<and> (\<forall>y. y \<notin> S \<longrightarrow> h' y = h y) \<and>
     at_first T' = at_first T \<and> at_prev T' = at_prev T"

lemma keeps_refl [simp]: "keeps S h T h T"
  by (simp add: keeps_def)

lemma keeps_mono: "keeps S h T h' T' \<Longrightarrow> S \<subseteq> S' \<Longrightarrow> keeps S' h T h' T'"
  by (auto simp: keeps_def)

lemma keeps_trans [trans]: "keeps S h T h' T' \<Longrightarrow> keeps S h' T' h'' T'' \<Longrightarrow> keeps S h T h'' T''"
  by (auto simp: keeps_def intro: same_links_trans)

section \<open>Pointer surgery\<close>

text \<open>Give the subtree at q the new parent x (when there is a subtree).\<close>

lemma reparent:
  assumes "is_tree h par q t" "distinct (addrs t)"
  obtains h' where "(if q \<noteq> NULL then update h q (n_parent_update (\<lambda>_. x)) else Some h) = Some h'"
    "is_tree h' x q t" "\<forall>y. y \<notin> set (addrs t) \<longrightarrow> h' y = h y" "same_links h h'"
proof (cases t)
  case Leaf
  with assms that show ?thesis by auto
next
  case (Node l y r)
  obtain a k v where y: "y = (a, k, v)" by (cases y)
  with assms Node obtain n where n: "q = a" "a \<noteq> NULL" "h a = Some n" by auto
  have "is_tree (h(a \<mapsto> n\<lparr>n_parent := x\<rparr>)) x q t"
    using assms Node y n by auto
  with that n Node y show ?thesis by (auto simp: heap_simps same_links_def)
qed

text \<open>Hang another subtree at a position: the parent's child pointer changes.\<close>

lemma relink_left:
  assumes "is_ctx h root cs p par" "p \<noteq> NULL" "p \<notin> set (caddrs cs)" "distinct (caddrs cs)"
  obtains h' where "(if par \<noteq> NULL then do {
             pn \<leftarrow> load h par;
             (if n_left pn = p then update h par (n_left_update (\<lambda>_. q))
              else update h par (n_right_update (\<lambda>_. q))) }
           else Some h) = Some h'"
    "is_ctx h' (if p = root then q else root) cs q par"
    "\<forall>y. y \<notin> set (caddrs cs) \<longrightarrow> h' y = h y" "same_links h h'"
proof (cases "(h, root, cs, p, par)" rule: is_ctx.cases)
  case 1
  with assms that show ?thesis by auto
next
  case (2 h1 root1 a k v r ds)
  with assms obtain n where n: "h a = Some n" "a \<noteq> NULL" "n_left n = p" "par = a" by auto
  have "root \<noteq> p" using is_ctx_root[OF assms(1)] assms(3) 2 by auto
  with assms 2 n have "is_ctx (h(a \<mapsto> n\<lparr>n_left := q\<rparr>)) (if p = root then q else root) cs q par"
    by auto
  with that n 2 show ?thesis by (auto simp: heap_simps same_links_def)
next
  case (3 h1 root1 l a k v ds)
  with assms obtain n where n: "h a = Some n" "a \<noteq> NULL" "n_right n = p" "par = a"
    "is_tree h a (n_left n) l" by auto
  have "root \<noteq> p" using is_ctx_root[OF assms(1)] assms(3) 3 by auto
  with assms 3 n have *: "is_ctx (h(a \<mapsto> n\<lparr>n_right := q\<rparr>)) (if p = root then q else root) cs q par"
    by auto
  have "n_left n \<noteq> p"
    using is_tree_ptr[OF n(5)] assms(2,3) 3 by (cases l) auto
  with * that n 3 show ?thesis by (auto simp: heap_simps same_links_def)
qed

lemma relink_right:
  assumes "is_ctx h root cs p par" "p \<noteq> NULL" "p \<notin> set (caddrs cs)" "distinct (caddrs cs)"
  obtains h' where "(if par \<noteq> NULL then do {
             pn \<leftarrow> load h par;
             (if n_right pn = p then update h par (n_right_update (\<lambda>_. q))
              else update h par (n_left_update (\<lambda>_. q))) }
           else Some h) = Some h'"
    "is_ctx h' (if p = root then q else root) cs q par"
    "\<forall>y. y \<notin> set (caddrs cs) \<longrightarrow> h' y = h y" "same_links h h'"
proof (cases "(h, root, cs, p, par)" rule: is_ctx.cases)
  case 1
  with assms that show ?thesis by auto
next
  case (3 h1 root1 l a k v ds)
  with assms obtain n where n: "h a = Some n" "a \<noteq> NULL" "n_right n = p" "par = a" by auto
  have "root \<noteq> p" using is_ctx_root[OF assms(1)] assms(3) 3 by auto
  with assms 3 n have "is_ctx (h(a \<mapsto> n\<lparr>n_right := q\<rparr>)) (if p = root then q else root) cs q par"
    by auto
  with that n 3 show ?thesis by (auto simp: heap_simps same_links_def)
next
  case (2 h1 root1 a k v r ds)
  with assms obtain n where n: "h a = Some n" "a \<noteq> NULL" "n_left n = p" "par = a"
    "is_tree h a (n_right n) r" by auto
  have "root \<noteq> p" using is_ctx_root[OF assms(1)] assms(3) 2 by auto
  with assms 2 n have *: "is_ctx (h(a \<mapsto> n\<lparr>n_left := q\<rparr>)) (if p = root then q else root) cs q par"
    by auto
  have "n_right n \<noteq> p"
    using is_tree_ptr[OF n(5)] assms(2,3) 2 by (cases r) auto
  with * that n 2 show ?thesis by (auto simp: heap_simps same_links_def)
qed


section \<open>Rotations\<close>

text \<open>
  The heap after a rotation around a (its child b moves up, the inner subtree B of b moves to a):
  h2 is reached by the change of a and the new parent of B, h4 by the change of a and b and the
  change of the parent of a.
\<close>

lemma rotated_heap:
  assumes ab: "h a = Some n" "h b = Some m" "a \<noteq> b"
    and d: "distinct (a # b # addrs A @ addrs B @ addrs C @ cs)"
    and h2: "\<forall>y. y \<notin> set (addrs B) \<longrightarrow> h2 y = (h(a \<mapsto> n1)) y" "same_links (h(a \<mapsto> n1)) h2" "is_tree h2 a q B"
    and h4: "\<forall>y. y \<notin> set cs \<longrightarrow> h4 y = (h2(b \<mapsto> m1, a \<mapsto> n2, b \<mapsto> m2)) y" "same_links (h2(b \<mapsto> m1, a \<mapsto> n2, b \<mapsto> m2)) h4"
    and links: "n_prev n1 = n_prev n" "n_next n1 = n_next n" "n_prev n2 = n_prev n" "n_next n2 = n_next n"
      "n_prev m2 = n_prev m" "n_next m2 = n_next m"
    and outer: "is_tree h pa qa A" "is_tree h pc qc C"
  shows "h4 a = Some n2" "h4 b = Some m2" "is_tree h4 pa qa A" "is_tree h4 a q B" "is_tree h4 pc qc C"
    "same_links h h4" "\<And>y. y \<noteq> a \<Longrightarrow> y \<noteq> b \<Longrightarrow> y \<notin> set (addrs B) \<Longrightarrow> y \<notin> set cs \<Longrightarrow> h4 y = h y"
proof -
  show "h4 a = Some n2" "h4 b = Some m2" using h4(1) d by auto
  have frame: "h4 y = h y" if "y \<noteq> a" "y \<noteq> b" "y \<notin> set (addrs B)" "y \<notin> set cs" for y
    using that h2(1) h4(1) by simp
  then show "\<And>y. y \<noteq> a \<Longrightarrow> y \<noteq> b \<Longrightarrow> y \<notin> set (addrs B) \<Longrightarrow> y \<notin> set cs \<Longrightarrow> h4 y = h y" .
  show "is_tree h4 pa qa A" by (rule is_tree_move [OF outer(1)], rule frame) (use d in auto)
  show "is_tree h4 pc qc C" by (rule is_tree_move [OF outer(2)], rule frame) (use d in auto)
  show "is_tree h4 a q B"
  proof (rule is_tree_move [OF h2(3)])
    fix y assume "y \<in> set (addrs B)"
    with d have "y \<notin> set cs" "y \<noteq> a" "y \<noteq> b" by auto
    with h4(1) show "h4 y = h2 y" by simp
  qed
  have h2ab: "h2 a = Some n1" "h2 b = Some m" using h2(1) ab d by auto
  have "same_links h (h(a \<mapsto> n1))" using ab(1) links by (simp add: same_links_def)
  also have "same_links \<dots> h2" by (rule h2(2))
  also have "same_links h2 (h2(b \<mapsto> m1, a \<mapsto> n2, b \<mapsto> m2))" using h2ab ab(3) links by (simp add: same_links_def)
  also have "same_links \<dots> h4" by (rule h4(2))
  finally show "same_links h h4" .
qed

lemma rotate_left_spec:
  assumes ctx: "is_ctx h (at_root T) cs p par"
    and tr: "is_tree h par p (Node A (a, k, v) (Node B (b, k', v') C))"
    and dist: "distinct (addrs (Node A (a, k, v) (Node B (b, k', v') C)) @ caddrs cs)"
  obtains h' T' where "rotate_left h T p = Some (h', T')" "is_ctx h' (at_root T') cs b par"
    "is_tree h' par b (Node (Node A (a, k, v) B) (b, k', v') C)"
    "keeps (set (addrs (Node A (a, k, v) (Node B (b, k', v') C)) @ caddrs cs)) h T h' T'"
proof -
  from tr obtain n m where n: "h a = Some n" "a \<noteq> NULL" "p = a" "n_parent n = par" "n_right n = b"
    "n_key n = Some k" "n_val n = Some v" "is_tree h a (n_left n) A" 
    and m: "h b = Some m" "b \<noteq> NULL" "n_parent m = a" "n_key m = Some k'" "n_val m = Some v'"
      "is_tree h b (n_left m) B" "is_tree h b (n_right m) C"
    by auto
  have ab: "a \<noteq> b" "a \<notin> set (addrs B)" "b \<notin> set (addrs B)" using dist by auto
  define h1 where "h1 = h(a \<mapsto> n\<lparr>n_right := n_left m\<rparr>)"
  have B1: "is_tree h1 b (n_left m) B" and dB: "distinct (addrs B)" "distinct (caddrs cs)" "a \<notin> set (caddrs cs)"
    using m ab dist by (auto simp: h1_def)
  obtain h2 where h2: "(if n_left m \<noteq> NULL then update h1 (n_left m) (n_parent_update (\<lambda>_. a)) else Some h1) = Some h2"
      "is_tree h2 a (n_left m) B" "\<forall>y. y \<notin> set (addrs B) \<longrightarrow> h2 y = h1 y" "same_links h1 h2"
    by (rule reparent[OF B1 dB(1), where x = a]) blast
  define k1 where "k1 = h2(b \<mapsto> m\<lparr>n_left := a\<rparr>)"
  define k2 where "k2 = k1(a \<mapsto> n\<lparr>n_right := n_left m, n_parent := b\<rparr>)"
  define h3 where "h3 = k2(b \<mapsto> m\<lparr>n_left := a, n_parent := par\<rparr>)"
  have ctx3: "is_ctx h3 (at_root T) cs a par"
    using ctx n(3) dist h2(3) by (subst is_ctx_agree[of cs h3 h]) (auto simp: h3_def k2_def k1_def h1_def)
  obtain h4 where h4: "(if par \<noteq> NULL then do {
             pn \<leftarrow> load h3 par;
             (if n_left pn = a then update h3 par (n_left_update (\<lambda>_. b))
              else update h3 par (n_right_update (\<lambda>_. b))) }
           else Some h3) = Some h4"
      "is_ctx h4 (if a = at_root T then b else at_root T) cs b par"
      "\<forall>y. y \<notin> set (caddrs cs) \<longrightarrow> h4 y = h3 y" "same_links h3 h4"
    by (rule relink_left[OF ctx3 n(2) dB(3,2), where q = b]) blast
  define T' where "T' = (if a = at_root T then T\<lparr>at_root := b\<rparr> else T)"
  have h2b: "h2 b = Some m" "h2 a = Some (n\<lparr>n_right := n_left m\<rparr>)"
    using h2(3) m(1) ab by (auto simp: h1_def)
  have steps: "load h a = Some n" "load h b = Some m" "update h a (n_right_update (\<lambda>_. n_left m)) = Some h1"
    "load h1 b = Some m" "update h2 b (n_left_update (\<lambda>_. a)) = Some k1"
    "update k1 a (n_parent_update (\<lambda>_. b)) = Some k2" "update k2 b (n_parent_update (\<lambda>_. par)) = Some h3"
    using n(1-3) m(1,2) ab(1) h2b by (auto simp: heap_simps h1_def k1_def k2_def h3_def)
  have "distinct (a # b # addrs A @ addrs B @ addrs C @ caddrs cs)" using dist by auto
  note rot = rotated_heap [OF n(1) m(1) ab(1) this h2(3,4) [unfolded h1_def] h2(2) h4(3,4) [unfolded h3_def k2_def k1_def]
      _ _ _ _ _ _ n(8) m(7), simplified]
  have "rotate_left h T p = Some (h4, T')"
    by (simp only: rotate_left_def Let_def T'_def n(3-5) steps h2(1) h4(1) Option.bind.bind_lunit)
  moreover have "is_ctx h4 (at_root T') cs b par" using h4(2) by (auto simp: T'_def split: if_splits)
  moreover have "is_tree h4 par b (Node (Node A (a, k, v) B) (b, k', v') C)"
    using rot(1-5) n m by simp
  moreover have "keeps (set (addrs (Node A (a, k, v) (Node B (b, k', v') C)) @ caddrs cs)) h T h4 T'"
    using rot(6,7) by (auto simp: keeps_def T'_def)
  ultimately show ?thesis by (rule that)
qed

lemma rotate_right_spec:
  assumes ctx: "is_ctx h (at_root T) cs p par"
    and tr: "is_tree h par p (Node (Node A (b, k', v') B) (a, k, v) C)"
    and dist: "distinct (addrs (Node (Node A (b, k', v') B) (a, k, v) C) @ caddrs cs)"
  obtains h' T' where "rotate_right h T p = Some (h', T')" "is_ctx h' (at_root T') cs b par"
    "is_tree h' par b (Node A (b, k', v') (Node B (a, k, v) C))"
    "keeps (set (addrs (Node (Node A (b, k', v') B) (a, k, v) C) @ caddrs cs)) h T h' T'"
proof -
  from tr obtain n m where n: "h a = Some n" "a \<noteq> NULL" "p = a" "n_parent n = par" "n_left n = b"
    "n_key n = Some k" "n_val n = Some v" "is_tree h a (n_right n) C" 
    and m: "h b = Some m" "b \<noteq> NULL" "n_parent m = a" "n_key m = Some k'" "n_val m = Some v'"
      "is_tree h b (n_right m) B" "is_tree h b (n_left m) A"
    by auto
  have ab: "a \<noteq> b" "a \<notin> set (addrs B)" "b \<notin> set (addrs B)" using dist by auto
  define h1 where "h1 = h(a \<mapsto> n\<lparr>n_left := n_right m\<rparr>)"
  have B1: "is_tree h1 b (n_right m) B" and dB: "distinct (addrs B)" "distinct (caddrs cs)" "a \<notin> set (caddrs cs)"
    using m ab dist by (auto simp: h1_def)
  obtain h2 where h2: "(if n_right m \<noteq> NULL then update h1 (n_right m) (n_parent_update (\<lambda>_. a)) else Some h1) = Some h2"
      "is_tree h2 a (n_right m) B" "\<forall>y. y \<notin> set (addrs B) \<longrightarrow> h2 y = h1 y" "same_links h1 h2"
    by (rule reparent[OF B1 dB(1), where x = a]) blast
  define k1 where "k1 = h2(b \<mapsto> m\<lparr>n_right := a\<rparr>)"
  define k2 where "k2 = k1(a \<mapsto> n\<lparr>n_left := n_right m, n_parent := b\<rparr>)"
  define h3 where "h3 = k2(b \<mapsto> m\<lparr>n_right := a, n_parent := par\<rparr>)"
  have ctx3: "is_ctx h3 (at_root T) cs a par"
    using ctx n(3) dist h2(3) by (subst is_ctx_agree[of cs h3 h]) (auto simp: h3_def k2_def k1_def h1_def)
  obtain h4 where h4: "(if par \<noteq> NULL then do {
             pn \<leftarrow> load h3 par;
             (if n_right pn = a then update h3 par (n_right_update (\<lambda>_. b))
              else update h3 par (n_left_update (\<lambda>_. b))) }
           else Some h3) = Some h4"
      "is_ctx h4 (if a = at_root T then b else at_root T) cs b par"
      "\<forall>y. y \<notin> set (caddrs cs) \<longrightarrow> h4 y = h3 y" "same_links h3 h4"
    by (rule relink_right[OF ctx3 n(2) dB(3,2), where q = b]) blast
  define T' where "T' = (if a = at_root T then T\<lparr>at_root := b\<rparr> else T)"
  have h2b: "h2 b = Some m" "h2 a = Some (n\<lparr>n_left := n_right m\<rparr>)"
    using h2(3) m(1) ab by (auto simp: h1_def)
  have steps: "load h a = Some n" "load h b = Some m" "update h a (n_left_update (\<lambda>_. n_right m)) = Some h1"
    "load h1 b = Some m" "update h2 b (n_right_update (\<lambda>_. a)) = Some k1"
    "update k1 a (n_parent_update (\<lambda>_. b)) = Some k2" "update k2 b (n_parent_update (\<lambda>_. par)) = Some h3"
    using n(1-3) m(1,2) ab(1) h2b by (auto simp: heap_simps h1_def k1_def k2_def h3_def)
  have "distinct (a # b # addrs C @ addrs B @ addrs A @ caddrs cs)" using dist by auto
  note rot = rotated_heap [OF n(1) m(1) ab(1) this h2(3,4) [unfolded h1_def] h2(2) h4(3,4) [unfolded h3_def k2_def k1_def]
      _ _ _ _ _ _ n(8) m(7), simplified]
  have "rotate_right h T p = Some (h4, T')"
    by (simp only: rotate_right_def Let_def T'_def n(3-5) steps h2(1) h4(1) Option.bind.bind_lunit)
  moreover have "is_ctx h4 (at_root T') cs b par" using h4(2) by (auto simp: T'_def split: if_splits)
  moreover have "is_tree h4 par b (Node A (b, k', v') (Node B (a, k, v) C))"
    using rot(1-5) n m by simp
  moreover have "keeps (set (addrs (Node (Node A (b, k', v') B) (a, k, v) C) @ caddrs cs)) h T h4 T'"
    using rot(6,7) by (auto simp: keeps_def T'_def)
  ultimately show ?thesis by (rule that)
qed

end
