(* ===== verification/AvlHeight.thy ===== *)
theory AvlHeight
  imports AvlRefine
begin

text \<open>
  node_height() of avltree.c returns the height of the subtree it is called on, and returns: its
  three nested loops walk the subtree once, depth first.
\<close>

section \<open>Height\<close>

fun root_addr :: "('k, 'v) ltree \<Rightarrow> addr" where
  "root_addr Leaf = NULL"
| "root_addr (Node l x r) = fst x"

lemma is_tree_root: "is_tree h par p t \<Longrightarrow> p = root_addr t"
  by (cases "(h, par, p, t)" rule: is_tree.cases) auto

lemma root_addr_NULL: "is_tree h par p t \<Longrightarrow> root_addr t = NULL \<longleftrightarrow> t = Leaf"
  by (cases "(h, par, p, t)" rule: is_tree.cases) auto

lemma root_addr_in: "t \<noteq> Leaf \<Longrightarrow> root_addr t \<in> set (addrs t)"
  by (cases t) auto

lemma first_child_tree:
  "is_tree h par p (Node l x r) \<Longrightarrow>
   first_child h p = Some (if l \<noteq> Leaf then root_addr l else root_addr r)"
proof -
  assume tr: "is_tree h par p (Node l x r)"
  obtain a k v where x: "x = (a, k, v)" by (cases x)
  with tr obtain n where n: "p = a" "a \<noteq> NULL" "h a = Some n" "is_tree h a (n_left n) l" "is_tree h a (n_right n) r"
    by auto
  show ?thesis
    using n is_tree_root[OF n(4)] is_tree_root[OF n(5)] root_addr_NULL[OF n(4)]
    by (auto simp: first_child_def heap_simps)
qed

text \<open>The two halves of an iteration of the outer loop of node_height(), as continuations.\<close>

definition height_after :: "('k, 'v) nodes \<Rightarrow> addr \<Rightarrow> addr \<Rightarrow> int \<Rightarrow> int \<Rightarrow> int option" where
  "height_after h root node d m = do {
     (node, d) \<leftarrow> height_climb h root node d;
     node \<leftarrow> (if node \<noteq> root then sibling h node else Some node);
     height_loop h root node d m }"

definition height_from :: "('k, 'v) nodes \<Rightarrow> addr \<Rightarrow> addr \<Rightarrow> int \<Rightarrow> int \<Rightarrow> int option" where
  "height_from h root node d m = do {
     (node, d, m) \<leftarrow> height_descend h node d m;
     height_after h root node d m }"

lemma height_loop_from: "node \<noteq> root \<Longrightarrow> height_loop h root node d m = height_from h root node d m"
  by (subst height_loop.simps) (auto simp: height_from_def height_after_def split: prod.splits intro!: Option.bind_cong)

lemma height_from_leaf: "first_child h node = Some 0 \<Longrightarrow> height_from h root node d m = height_after h root node d m"
  unfolding height_from_def by (subst height_descend.simps) simp

lemma height_from_child:
  "first_child h node = Some c \<Longrightarrow> c \<noteq> NULL \<Longrightarrow>
   height_from h root node d m = height_from h root c (d + 1) (max m (d + 1))"
proof -
  assume c: "first_child h node = Some c" "c \<noteq> NULL"
  have "max m (d + 1) = (if d + 1 > m then d + 1 else m)" by simp
  with c show ?thesis unfolding height_from_def by (subst height_descend.simps) (simp add: Let_def)
qed

lemma height_after_up:
  "sibling h node = Some 0 \<Longrightarrow> node \<noteq> root \<Longrightarrow> node \<noteq> NULL \<Longrightarrow> h node = Some n \<Longrightarrow>
   height_after h root node d m = height_after h root (n_parent n) (d - 1) m"
  unfolding height_after_def by (subst height_climb.simps) (simp add: heap_simps)

lemma height_after_sibling:
  "sibling h node = Some s \<Longrightarrow> s \<noteq> NULL \<Longrightarrow> node \<noteq> root \<Longrightarrow>
   height_after h root node d m = height_loop h root s d m"
  unfolding height_after_def by (subst height_climb.simps) simp

lemma height_after_root:
  "sibling h root = Some s \<Longrightarrow> height_after h root root d m = Some m"
  unfolding height_after_def by (subst height_climb.simps) (simp add: height_loop.simps)

lemma is_tree_node:
  assumes "is_tree h par p t" "t \<noteq> Leaf"
  obtains n where "p = root_addr t" "root_addr t \<noteq> NULL" "h (root_addr t) = Some n" "n_parent n = par"
  using assms by (cases "(h, par, p, t)" rule: is_tree.cases) auto

lemma is_tree_children:
  assumes "is_tree h par p (Node l x r)"
  obtains n where "p = fst x" "p \<noteq> NULL" "h p = Some n" "n_parent n = par"
    "n_left n = root_addr l" "n_right n = root_addr r"
    "is_tree h p (root_addr l) l" "is_tree h p (root_addr r) r"
proof -
  obtain a k v where x: "x = (a, k, v)" by (cases x)
  with assms obtain n where n: "p = a" "a \<noteq> NULL" "h a = Some n" "n_parent n = par"
    "is_tree h a (n_left n) l" "is_tree h a (n_right n) r"
    by auto
  with is_tree_root[OF n(5)] is_tree_root[OF n(6)] x that show thesis by simp
qed

lemma sibling_of_left:
  assumes "is_tree h par p (Node l x r)" "l \<noteq> Leaf"
  shows "sibling h (root_addr l) = Some (root_addr r)"
proof -
  obtain n where n: "p \<noteq> NULL" "h p = Some n" "n_left n = root_addr l" "n_right n = root_addr r"
    "is_tree h p (root_addr l) l"
    using assms(1) by (rule is_tree_children)
  obtain m where "root_addr l \<noteq> NULL" "h (root_addr l) = Some m" "n_parent m = p"
    using n(5) assms(2) by (rule is_tree_node)
  with n show ?thesis by (simp add: sibling_def heap_simps)
qed

lemma sibling_of_right:
  assumes "is_tree h par p (Node l x r)" "r \<noteq> Leaf" "distinct (addrs (Node l x r))"
  shows "sibling h (root_addr r) = Some 0"
proof -
  obtain n where n: "p \<noteq> NULL" "h p = Some n" "n_left n = root_addr l" "is_tree h p (root_addr l) l"
    "is_tree h p (root_addr r) r"
    using assms(1) by (rule is_tree_children)
  obtain m where m: "root_addr r \<noteq> NULL" "h (root_addr r) = Some m" "n_parent m = p"
    using n(5) assms(2) by (rule is_tree_node)
  have "root_addr l \<noteq> root_addr r"
    using root_addr_in[OF assms(2)] root_addr_in[of l] assms(3) m(1) by (cases "l = Leaf") auto
  with m n show ?thesis by (simp add: sibling_def heap_simps)
qed

text \<open>The climb out of a right child continues at its parent, that out of a left child at the right one.\<close>

lemma height_from_right:
  assumes tr: "is_tree h par p (Node l x r)" "r \<noteq> Leaf" "distinct (addrs (Node l x r))" "root \<notin> set (addrs r)"
    and r: "height_from h root (root_addr r) (d + 1) m
      = height_after h root (root_addr r) (d + 1) (max m (d + int (height r)))"
  shows "height_from h root (root_addr r) (d + 1) m = height_after h root p d (max m (d + int (height r)))"
proof -
  have root: "root_addr r \<noteq> root" using tr(4) root_addr_in[OF tr(2)] by auto
  obtain n0 where "p \<noteq> NULL" "h p = Some n0" "is_tree h p (root_addr r) r"
    using tr(1) by (rule is_tree_children)
  then obtain n where "root_addr r \<noteq> NULL" "h (root_addr r) = Some n" "n_parent n = p"
    using tr(2) by (metis is_tree_node)
  with height_after_up[OF sibling_of_right[OF tr(1-3)] root] show ?thesis unfolding r by simp
qed

lemma height_after_left:
  assumes tr: "is_tree h par p (Node l x r)" "l \<noteq> Leaf" "root \<notin> set (addrs l)" "root \<notin> set (addrs r)"
  shows "height_after h root (root_addr l) (d + 1) m
    = (if r = Leaf then height_after h root p d m else height_from h root (root_addr r) (d + 1) m)"
proof -
  have root: "root_addr l \<noteq> root" using tr(3) root_addr_in[OF tr(2)] by auto
  obtain n0 where lr: "p \<noteq> NULL" "h p = Some n0" "is_tree h p (root_addr l) l" "is_tree h p (root_addr r) r"
    using tr(1) by (rule is_tree_children)
  obtain n where n: "root_addr l \<noteq> NULL" "h (root_addr l) = Some n" "n_parent n = p"
    using lr(3) tr(2) by (rule is_tree_node)
  note sl = sibling_of_left[OF tr(1,2)]
  show ?thesis
  proof (cases "r = Leaf")
    case True
    then show ?thesis using height_after_up[of h "root_addr l" root n] root n sl by simp
  next
    case False
    then have "root_addr r \<noteq> root" "root_addr r \<noteq> NULL"
      using root_addr_in[OF False] tr(4) root_addr_NULL[OF lr(4)] by auto
    with False show ?thesis using height_after_sibling[OF sl _ root] by (simp add: height_loop_from)
  qed
qed

lemma height_from_tree:
  assumes "is_tree h par p t" "t \<noteq> Leaf" "distinct (addrs t)" "root \<notin> set (addrs t)" "d \<le> m"
  shows "height_from h root p d m = height_after h root p d (max m (d - 1 + int (height t)))"
  using assms
proof (induction t arbitrary: par p d m)
  case (Node l x r)
  obtain n where n: "p \<noteq> NULL" "h p = Some n" "is_tree h p (root_addr l) l" "is_tree h p (root_addr r) r"
    using Node.prems(1) by (rule is_tree_children)
  note child = first_child_tree[OF Node.prems(1)]
  have d: "distinct (addrs l)" "distinct (addrs r)" "root \<notin> set (addrs l)" "root \<notin> set (addrs r)"
    using Node.prems by auto
  have right: "height_from h root (root_addr r) (d + 1) m' = height_after h root p d (max m' (d + int (height r)))"
    if "r \<noteq> Leaf" "d + 1 \<le> m'" for m'
    using Node.IH(2)[OF n(4) that(1) d(2,4) that(2)]
    by (intro height_from_right[OF Node.prems(1) that(1) Node.prems(3) d(4)]) simp
  show ?case
  proof (cases "l = Leaf")
    case l: True
    show ?thesis
    proof (cases "r = Leaf")
      case True
      with l child Node.prems(5) show ?thesis by (simp add: height_from_leaf)
    next
      case False
      with l child have "height_from h root p d m = height_from h root (root_addr r) (d + 1) (max m (d + 1))"
        using root_addr_NULL[OF n(4)] by (intro height_from_child) auto
      with right[OF False, of "max m (d + 1)"] l False Node.prems(5) show ?thesis
        using height_pos[of r] by (simp add: max_def)
    qed
  next
    case False
    let ?m = "max (max m (d + 1)) (d + int (height l))"
    have "height_from h root p d m = height_from h root (root_addr l) (d + 1) (max m (d + 1))"
      using child False root_addr_NULL[OF n(3)] by (intro height_from_child) auto
    also have "\<dots> = height_after h root (root_addr l) (d + 1) ?m"
      using Node.IH(1)[OF n(3) False d(1,3)] by simp
    finally have "height_from h root p d m = height_after h root (root_addr l) (d + 1) ?m" .
    note l = this height_after_left[OF Node.prems(1) False d(3,4)]
    show ?thesis
    proof (cases "r = Leaf")
      case True
      with l False Node.prems(5) height_pos[of l] show ?thesis by (simp add: max_def)
    next
      case r: False
      with l right[OF r, of ?m] have "height_from h root p d m = height_after h root p d (max ?m (d + int (height r)))"
        by simp
      with False Node.prems(5) height_pos[of l] show ?thesis by (simp add: max_def)
    qed
  qed
qed simp

lemma node_height_tree:
  assumes "is_tree h par p t" "distinct (addrs t)" "par = NULL \<or> h par \<noteq> None"
  shows "node_height h p = Some (int (height t))"
proof (cases t)
  case Leaf
  with assms show ?thesis by (simp add: node_height_def)
next
  case (Node l x r)
  have tr: "is_tree h par p (Node l x r)" using assms(1) Node by simp
  obtain n where n: "p = fst x" "p \<noteq> NULL" "h p = Some n" "n_parent n = par"
     "is_tree h p (root_addr l) l" "is_tree h p (root_addr r) r"
    using tr by (rule is_tree_children)
  have d: "distinct (addrs l)" "distinct (addrs r)" "p \<notin> set (addrs l)" "p \<notin> set (addrs r)"
    "distinct (addrs (Node l x r))"
    using assms(2) Node n(1) by auto
  have "\<exists>s. sibling h p = Some s"
    using n(2,3,4) assms(3) by (cases "par = NULL") (auto simp: sibling_def load_def)
  then obtain s where "sibling h p = Some s" ..
  then have top: "height_after h p p d m = Some m" for d m by (rule height_after_root)
  have right: "height_from h p (root_addr r) 2 m = Some (max m (1 + int (height r)))"
    if r: "r \<noteq> Leaf" and m: "2 \<le> m" for m
    using height_from_right[OF tr r d(5,4), of 1 m] height_from_tree[OF n(6) r d(2,4) m] top by simp
  have root: "root_addr r \<noteq> p" if "r \<noteq> Leaf" using d(4) root_addr_in[OF that] by auto
  show ?thesis
  proof (cases "l = Leaf")
    case True
    with first_child_tree[OF tr] right[of 2] height_loop_from[OF root, of h] root_addr_NULL[OF n(6)] n(2) height_pos[of r] Node
    show ?thesis by (cases "r = Leaf") (auto simp: node_height_def)
  next
    case False
    have rootl: "root_addr l \<noteq> p" using d(3) root_addr_in[OF False] by auto
    let ?m = "max 2 (1 + int (height l))"
    have l: "node_height h p = height_after h p (root_addr l) 2 ?m"
      using first_child_tree[OF tr] False root_addr_NULL[OF n(5)] n(2) height_loop_from[OF rootl, of h]
        height_from_tree[OF n(5) False d(1,3), of 2 2] by (simp add: node_height_def)
    show ?thesis
      using l height_after_left[OF tr False d(3,4), of 1 ?m] right[of ?m] top height_pos[of l] height_pos[of r] False Node
      by (cases "r = Leaf") auto
  qed
qed

end
