(* ===== verification/AvlRebalance.thy ===== *)
theory AvlRebalance
  imports AvlHeight
begin

text \<open>
  rebalance_node() and rebalance() of avltree.c compute rebal1 at a position and rebal_up along
  the chain of parents.
\<close>

lemma rebal_shapes:
  assumes "t \<noteq> Leaf"
  obtains (same) "rebal1 t = t"
      "\<And>l x r. t = Node l x r \<Longrightarrow> balance t = 2 \<Longrightarrow> balance r \<noteq> 1 \<and> balance r \<noteq> -1"
      "\<And>l x r. t = Node l x r \<Longrightarrow> balance t = -2 \<Longrightarrow> balance l \<noteq> 1 \<and> balance l \<noteq> -1"
    | (left) l x b y c where "t = Node l x (Node b y c)" "balance t = 2" "balance (Node b y c) = 1"
        "rebal1 t = Node (Node l x b) y c"
    | (right_left) l x b z c y d where "t = Node l x (Node (Node b z c) y d)" "balance t = 2"
        "balance (Node (Node b z c) y d) = -1" "rebal1 t = Node (Node l x b) z (Node c y d)"
    | (right) a y b x r where "t = Node (Node a y b) x r" "balance t = -2" "balance (Node a y b) = -1"
        "rebal1 t = Node a y (Node b x r)"
    | (left_right) a y b z c x r where "t = Node (Node a y (Node b z c)) x r" "balance t = -2"
        "balance (Node a y (Node b z c)) = 1" "rebal1 t = Node (Node a y b) z (Node c x r)"
proof -
  from assms obtain l x r where t: "t = Node l x r" by (cases t) auto
  consider (r1) "balance t = 2" "balance r = 1" | (r2) "balance t = 2" "balance r = -1"
    | (l1) "balance t = -2" "balance l = -1" | (l2) "balance t = -2" "balance l = 1"
    | (else) "balance t = 2 \<longrightarrow> balance r \<noteq> 1 \<and> balance r \<noteq> -1"
        "balance t = -2 \<longrightarrow> balance l \<noteq> 1 \<and> balance l \<noteq> -1"
    by blast
  then show thesis
  proof cases
    case r1
    then obtain b y c where "r = Node b y c" by (cases r) auto
    with t r1 show thesis by (intro left) (auto simp: rebal1.simps Let_def)
  next
    case r2
    then obtain e y d where r: "r = Node e y d" by (cases r) auto
    with r2 obtain b z c where "e = Node b z c" by (cases e) auto
    with t r2 r show thesis by (intro right_left) (auto simp: rebal1.simps Let_def)
  next
    case l1
    then obtain b y c where "l = Node b y c" by (cases l) auto
    with t l1 show thesis by (intro right) (auto simp: rebal1.simps Let_def)
  next
    case l2
    then obtain e y d where l: "l = Node e y d" by (cases l) auto
    with l2 obtain b z c where "d = Node b z c" by (cases d) auto
    with t l2 l show thesis by (intro left_right) (auto simp: rebal1.simps Let_def)
  next
    case else
    with t show thesis by (intro same) (auto simp: rebal1.simps Let_def)
  qed
qed

text \<open>The balance factors the code computes are those of the tree.\<close>

lemma code_balance:
  assumes "is_tree h par p (Node l x r)" "distinct (addrs (Node l x r))"
  obtains n where "load h p = Some n" "n_parent n = par" "n_left n = root_addr l" "n_right n = root_addr r"
    "node_height h (root_addr r) = Some (int (height r))" "node_height h (root_addr l) = Some (int (height l))"
proof -
  obtain n where n: "p = fst x" "p \<noteq> NULL" "h p = Some n" "n_parent n = par"
    "n_left n = root_addr l" "n_right n = root_addr r"
    "is_tree h p (root_addr l) l" "is_tree h p (root_addr r) r"
    using assms(1) by (rule is_tree_children)
  from assms(2) have d: "distinct (addrs l)" "distinct (addrs r)" by auto
  from n(3) have p: "p = NULL \<or> h p \<noteq> None" by simp
  show thesis
    using that n(2-6) node_height_tree[OF n(7) d(1) p] node_height_tree[OF n(8) d(2) p]
    by (simp add: heap_simps)
qed


lemma rebalance_node_run:
  assumes tr: "is_tree h par p (Node l x r)" and d: "distinct (addrs (Node l x r))"
  shows "rebalance_node h T p =
    (if balance (Node l x r) = 2 then
       (if balance r = 1 then rotate_left h T p
        else if balance r = -1 then do { (h, T) \<leftarrow> rotate_right h T (root_addr r); rotate_left h T p }
        else Some (h, T))
     else if balance (Node l x r) = -2 then
       (if balance l = -1 then rotate_right h T p
        else if balance l = 1 then do { (h, T) \<leftarrow> rotate_left h T (root_addr l); rotate_right h T p }
        else Some (h, T))
     else Some (h, T))"
proof -
  obtain n where n: "load h p = Some n" "n_left n = root_addr l" "n_right n = root_addr r"
    "node_height h (root_addr r) = Some (int (height r))" "node_height h (root_addr l) = Some (int (height l))"
    using tr d by (rule code_balance)
  have sub: "is_tree h p (root_addr l) l" "is_tree h p (root_addr r) r" "distinct (addrs l)" "distinct (addrs r)"
    using is_tree_children[OF tr] d by (blast, blast, auto)
  have rb: "\<exists>m. load h (root_addr r) = Some m \<and>
      node_height h (n_right m) \<bind> (\<lambda>hr. node_height h (n_left m) \<bind> (\<lambda>hl. f (hr - hl))) = f (balance r)"
    if "balance (Node l x r) = 2" for f :: "int \<Rightarrow> (('a, 'b) nodes \<times> avltree) option"
  proof -
    from that obtain l' y r' where r: "r = Node l' y r'" by (cases r) auto
    with code_balance[OF sub(2)[unfolded r] sub(4)[unfolded r]] show ?thesis by force
  qed
  have lb: "\<exists>m. load h (root_addr l) = Some m \<and>
      node_height h (n_right m) \<bind> (\<lambda>hr. node_height h (n_left m) \<bind> (\<lambda>hl. f (hr - hl))) = f (balance l)"
    if "balance (Node l x r) = -2" for f :: "int \<Rightarrow> (('a, 'b) nodes \<times> avltree) option"
  proof -
    from that obtain l' y r' where r: "l = Node l' y r'" by (cases l) auto
    with code_balance[OF sub(1)[unfolded r] sub(3)[unfolded r]] show ?thesis by force
  qed
  note run = rebalance_node_def Let_def n Option.bind.bind_lunit balance.simps
  consider (r) "balance (Node l x r) = 2" | (l) "balance (Node l x r) = -2"
    | (none) "balance (Node l x r) \<noteq> 2" "balance (Node l x r) \<noteq> -2" by blast
  then show ?thesis
  proof cases
    case r
    from r rb[OF r, of "\<lambda>b. if b = 1 then rotate_left h T p
        else if b = -1 then do { (h, T) \<leftarrow> rotate_right h T (root_addr r); rotate_left h T p }
        else Some (h, T)"]
    show ?thesis by (auto simp: run)
  next
    case l
    from l lb[OF l, of "\<lambda>b. if b = -1 then rotate_right h T p
        else if b = 1 then do { (h, T) \<leftarrow> rotate_left h T (root_addr l); rotate_right h T p }
        else Some (h, T)"]
    show ?thesis by (auto simp: run)
  next
    case none
    then show ?thesis by (simp add: run)
  qed
qed

lemma is_ctx_par_unique: "is_ctx h r cs p par \<Longrightarrow> is_ctx h' r' cs p' par' \<Longrightarrow> par' = par"
  by (cases "(h, r, cs, p, par)" rule: is_ctx.cases) auto

text \<open>The two double rotations.\<close>

lemma rotate_right_left_spec:
  assumes ctx: "is_ctx h (at_root T) cs p par"
    and tr: "is_tree h par p (Node l (xa, k, v) (Node (Node b (za, k'', v'') c) (ya, k', v') d))"
    and dist: "distinct (addrs (Node l (xa, k, v) (Node (Node b (za, k'', v'') c) (ya, k', v') d)) @ caddrs cs)"
  obtains h' T' where "do { (h, T) \<leftarrow> rotate_right h T ya; rotate_left h T p } = Some (h', T')"
    "is_ctx h' (at_root T') cs za par"
    "is_tree h' par za (Node (Node l (xa, k, v) b) (za, k'', v'') (Node c (ya, k', v') d))"
    "keeps (set (addrs (Node l (xa, k, v) (Node (Node b (za, k'', v'') c) (ya, k', v') d)) @ caddrs cs)) h T h' T'"
proof -
  let ?t = "Node l (xa, k, v) (Node (Node b (za, k'', v'') c) (ya, k', v') d)"
  let ?r = "Node (Node b (za, k'', v'') c) (ya, k', v') d"
  from tr have p: "p = xa" by simp
  have ctx1: "is_ctx h (at_root T) (InR l (xa, k, v) # cs) ya xa" and tr1: "is_tree h xa ya ?r"
    using tr ctx by auto
  have d1: "distinct (addrs ?r @ caddrs (InR l (xa, k, v) # cs))" using dist by auto
  obtain h1 T1 where 1: "rotate_right h T ya = Some (h1, T1)"
    "is_ctx h1 (at_root T1) (InR l (xa, k, v) # cs) za xa"
    "is_tree h1 xa za (Node b (za, k'', v'') (Node c (ya, k', v') d))"
    "keeps (set (addrs ?r @ caddrs (InR l (xa, k, v) # cs))) h T h1 T1"
    using ctx1 tr1 d1 by (rule rotate_right_spec)
  from 1(2,3) obtain par' where par': "is_ctx h1 (at_root T1) cs xa par'"
    "is_tree h1 par' xa (Node l (xa, k, v) (Node b (za, k'', v'') (Node c (ya, k', v') d)))" by auto
  with ctx have "par' = par" by (blast dest: is_ctx_par_unique)
  note 2 = par'[unfolded this]
  have d2: "distinct (addrs (Node l (xa, k, v) (Node b (za, k'', v'') (Node c (ya, k', v') d))) @ caddrs cs)"
    using dist by auto
  obtain h2 T2 where 3: "rotate_left h1 T1 xa = Some (h2, T2)" "is_ctx h2 (at_root T2) cs za par"
    "is_tree h2 par za (Node (Node l (xa, k, v) b) (za, k'', v'') (Node c (ya, k', v') d))"
    "keeps (set (addrs (Node l (xa, k, v) (Node b (za, k'', v'') (Node c (ya, k', v') d))) @ caddrs cs)) h1 T1 h2 T2"
    using 2 d2 by (rule rotate_left_spec)
  have "keeps (set (addrs ?t @ caddrs cs)) h T h1 T1" by (rule keeps_mono[OF 1(4)]) auto
  also have "keeps (set (addrs ?t @ caddrs cs)) h1 T1 h2 T2" by (rule keeps_mono[OF 3(4)]) auto
  finally show thesis using that 1(1) 3(1-3) p by simp
qed

lemma rotate_left_right_spec:
  assumes ctx: "is_ctx h (at_root T) cs p par"
    and tr: "is_tree h par p (Node (Node a (ya, k', v') (Node b (za, k'', v'') c)) (xa, k, v) r)"
    and dist: "distinct (addrs (Node (Node a (ya, k', v') (Node b (za, k'', v'') c)) (xa, k, v) r) @ caddrs cs)"
  obtains h' T' where "do { (h, T) \<leftarrow> rotate_left h T ya; rotate_right h T p } = Some (h', T')"
    "is_ctx h' (at_root T') cs za par"
    "is_tree h' par za (Node (Node a (ya, k', v') b) (za, k'', v'') (Node c (xa, k, v) r))"
    "keeps (set (addrs (Node (Node a (ya, k', v') (Node b (za, k'', v'') c)) (xa, k, v) r) @ caddrs cs)) h T h' T'"
proof -
  let ?t = "Node (Node a (ya, k', v') (Node b (za, k'', v'') c)) (xa, k, v) r"
  let ?l = "Node a (ya, k', v') (Node b (za, k'', v'') c)"
  from tr have p: "p = xa" by simp
  have ctx1: "is_ctx h (at_root T) (InL (xa, k, v) r # cs) ya xa" and tr1: "is_tree h xa ya ?l"
    using tr ctx by auto
  have d1: "distinct (addrs ?l @ caddrs (InL (xa, k, v) r # cs))" using dist by auto
  obtain h1 T1 where 1: "rotate_left h T ya = Some (h1, T1)"
    "is_ctx h1 (at_root T1) (InL (xa, k, v) r # cs) za xa"
    "is_tree h1 xa za (Node (Node a (ya, k', v') b) (za, k'', v'') c)"
    "keeps (set (addrs ?l @ caddrs (InL (xa, k, v) r # cs))) h T h1 T1"
    using ctx1 tr1 d1 by (rule rotate_left_spec)
  from 1(2,3) obtain par' where par': "is_ctx h1 (at_root T1) cs xa par'"
    "is_tree h1 par' xa (Node (Node (Node a (ya, k', v') b) (za, k'', v'') c) (xa, k, v) r)" by auto
  with ctx have "par' = par" by (blast dest: is_ctx_par_unique)
  note 2 = par'[unfolded this]
  have d2: "distinct (addrs (Node (Node (Node a (ya, k', v') b) (za, k'', v'') c) (xa, k, v) r) @ caddrs cs)"
    using dist by auto
  obtain h2 T2 where 3: "rotate_right h1 T1 xa = Some (h2, T2)" "is_ctx h2 (at_root T2) cs za par"
    "is_tree h2 par za (Node (Node a (ya, k', v') b) (za, k'', v'') (Node c (xa, k, v) r))"
    "keeps (set (addrs (Node (Node (Node a (ya, k', v') b) (za, k'', v'') c) (xa, k, v) r) @ caddrs cs)) h1 T1 h2 T2"
    using 2 d2 by (rule rotate_right_spec)
  have "keeps (set (addrs ?t @ caddrs cs)) h T h1 T1" by (rule keeps_mono[OF 1(4)]) auto
  also have "keeps (set (addrs ?t @ caddrs cs)) h1 T1 h2 T2" by (rule keeps_mono[OF 3(4)]) auto
  finally show thesis using that 1(1) 3(1-3) p by simp
qed

lemma rebalance_node_spec:
  assumes ctx: "is_ctx h (at_root T) cs p par" and tr: "is_tree h par p t" and "t \<noteq> Leaf"
    and dist: "distinct (addrs t @ caddrs cs)"
  obtains h' T' q where "rebalance_node h T p = Some (h', T')" "is_ctx h' (at_root T') cs q par"
    "is_tree h' par q (rebal1 t)" "keeps (set (addrs t @ caddrs cs)) h T h' T'"
proof -
  have dt: "distinct (addrs t)" using dist by simp
  show thesis using \<open>t \<noteq> Leaf\<close>
  proof (cases t rule: rebal_shapes)
    case same
    from \<open>t \<noteq> Leaf\<close> obtain l x r where t: "t = Node l x r" by (cases t) auto
    with dist have d: "distinct (addrs (Node l x r))" by (simp only: distinct_append)
    have "rebalance_node h T p = Some (h, T)"
      using same(2,3)[OF t] by (auto simp: rebalance_node_run[OF tr[unfolded t] d] t)
    with ctx tr same(1) that show ?thesis by simp
  next
    case (left l x b y c)
    obtain a k v where x: "x = (a, k, v)" by (cases x)
    obtain a' k' v' where y: "y = (a', k', v')" by (cases y)
    note tr' = tr[unfolded left(1) x y] and dist' = dist[unfolded left(1) x y] and dt' = dt[unfolded left(1) x y]
    have run: "rebalance_node h T p = rotate_left h T p"
      using left by (simp add: rebalance_node_run[OF tr' dt'] x y)
    show ?thesis
      by (rule rotate_left_spec[OF ctx tr' dist']) (rule that, simp_all add: run left(4)[unfolded left(1) x y] left(1) x y)
  next
    case (right l x b y c)
    obtain a k v where x: "x = (a, k, v)" by (cases x)
    obtain a' k' v' where y: "y = (a', k', v')" by (cases y)
    note tr' = tr[unfolded right(1) x y] and dist' = dist[unfolded right(1) x y] and dt' = dt[unfolded right(1) x y]
    have run: "rebalance_node h T p = rotate_right h T p"
      using right by (simp add: rebalance_node_run[OF tr' dt'] x y)
    show ?thesis
      by (rule rotate_right_spec[OF ctx tr' dist']) (rule that, simp_all add: run right(4)[unfolded right(1) x y] right(1) x y)
  next
    case (right_left l x b z c y d)
    obtain xa k v where x: "x = (xa, k, v)" by (cases x)
    obtain ya k' v' where y: "y = (ya, k', v')" by (cases y)
    obtain za k'' v'' where z: "z = (za, k'', v'')" by (cases z)
    note tr' = tr[unfolded right_left(1) x y z] and dist' = dist[unfolded right_left(1) x y z] and dt' = dt[unfolded right_left(1) x y z]
    have run: "rebalance_node h T p = do { (h, T) \<leftarrow> rotate_right h T ya; rotate_left h T p }"
      using right_left by (simp add: rebalance_node_run[OF tr' dt'] x y z)
    show ?thesis
      by (rule rotate_right_left_spec[OF ctx tr' dist']) (rule that, simp_all add: run right_left(4)[unfolded right_left(1) x y z] right_left(1) x y z)
  next
    case (left_right a y b z c x r)
    obtain xa k v where x: "x = (xa, k, v)" by (cases x)
    obtain ya k' v' where y: "y = (ya, k', v')" by (cases y)
    obtain za k'' v'' where z: "z = (za, k'', v'')" by (cases z)
    note tr' = tr[unfolded left_right(1) x y z] and dist' = dist[unfolded left_right(1) x y z] and dt' = dt[unfolded left_right(1) x y z]
    have run: "rebalance_node h T p = do { (h, T) \<leftarrow> rotate_left h T ya; rotate_right h T p }"
      using left_right by (simp add: rebalance_node_run[OF tr' dt'] x y z)
    show ?thesis
      by (rule rotate_left_right_spec[OF ctx tr' dist']) (rule that, simp_all add: run left_right(4)[unfolded left_right(1) x y z] left_right(1) x y z)
  qed
qed

text \<open>The loop of rebalance(), started at a position whose ancestors are cs.\<close>

lemma rebalance_loop_spec:
  assumes "is_ctx h (at_root T) cs p par" "is_tree h par p t" "distinct (addrs t @ caddrs cs)"
  obtains h' T' where "rebalance_loop h T par = Some (h', T')"
    "is_tree h' NULL (at_root T') (rebal_up cs t)" "keeps (set (addrs t @ caddrs cs)) h T h' T'"
  using assms
proof (induction cs arbitrary: h T p par t thesis)
  case Nil
  then have "rebalance_loop h T par = Some (h, T)" by (subst rebalance_loop.simps) simp
  with Nil show ?case by auto
next
  case (Cons c cs)
  let ?t = "plug1 c t"
  from Cons.prems(2,3) obtain n where n: "par \<noteq> NULL" "h par = Some n" and
    up: "is_ctx h (at_root T) cs par (n_parent n)" "is_tree h (n_parent n) par ?t"
    by (cases "(h, at_root T, c # cs, p, par)" rule: is_ctx.cases) auto
  have nl: "?t \<noteq> Leaf" by (cases c) auto
  have S: "set (addrs ?t @ caddrs cs) = set (addrs t @ caddrs (c # cs))" by (cases c) auto
  have d: "distinct (addrs ?t @ caddrs cs)" using Cons.prems(4) by (cases c) auto
  obtain h1 T1 q where 1: "rebalance_node h T par = Some (h1, T1)" "is_ctx h1 (at_root T1) cs q (n_parent n)"
    "is_tree h1 (n_parent n) q (rebal1 ?t)" "keeps (set (addrs ?t @ caddrs cs)) h T h1 T1"
    using up nl d by (rule rebalance_node_spec)
  have a: "addrs (rebal1 ?t) = addrs ?t" by (simp add: addrs_def)
  have d1: "distinct (addrs (rebal1 ?t) @ caddrs cs)" using d a by simp
  obtain h2 T2 where 2: "rebalance_loop h1 T1 (n_parent n) = Some (h2, T2)"
    "is_tree h2 NULL (at_root T2) (rebal_up cs (rebal1 ?t))" "keeps (set (addrs (rebal1 ?t) @ caddrs cs)) h1 T1 h2 T2"
    using Cons.IH[OF _ 1(2,3) d1] by blast
  have "rebalance_loop h T par = Some (h2, T2)"
    using n 1(1) 2(1) by (subst rebalance_loop.simps) (simp add: heap_simps)
  moreover have "keeps (set (addrs t @ caddrs (c # cs))) h T h2 T2"
    using 1(4) 2(3) by (auto simp only: a S intro: keeps_trans)
  ultimately show ?case using Cons.prems(1) 2(2) by simp
qed

end
