(* ===== verification/AvlInsert.thy ===== *)
theory AvlInsert
  imports AvlRebalance
begin

text \<open>
  The representation of a whole tree (avl_rep: the nodes form the tree, and the chain through
  next and prev visits each of them once), and the operations avltree_new(), avltree_lookup()
  and avltree_add_node() on it.
\<close>

section \<open>The chain through the nodes\<close>

abbreviation chain :: "('k, 'v) nodes \<Rightarrow> addr \<Rightarrow> addr list \<Rightarrow> addr \<Rightarrow> bool" where
  "chain h x ns l \<equiv> dseg n_prev n_next (\<lambda>_. ()) h NULL x (map (\<lambda>a. (a, ())) ns) l NULL"

lemma same_linksD:
  assumes "same_links h h'" "h a = Some n"
  obtains n' where "h' a = Some n'" "n_prev n' = n_prev n" "n_next n' = n_next n"
proof -
  have "map_option (\<lambda>n. (n_prev n, n_next n)) (h' a) = Some (n_prev n, n_next n)"
    using assms by (simp add: same_links_def)
  with that show thesis by auto
qed

lemma dseg_same_links:
  "same_links h h' \<Longrightarrow> dseg n_prev n_next (\<lambda>_. ()) h p x as l m \<Longrightarrow>
   dseg n_prev n_next (\<lambda>_. ()) h' p x as l m"
proof (induction as arbitrary: p x)
  case (Cons y as)
  obtain a u where y: "y = (a, u)" by (cases y)
  with Cons.prems(2) obtain n where n: "x = a" "a \<noteq> NULL" "h a = Some n" "n_prev n = p"
    "dseg n_prev n_next (\<lambda>_. ()) h a (n_next n) as l m" by auto
  obtain n' where "h' a = Some n'" "n_prev n' = n_prev n" "n_next n' = n_next n"
    by (rule same_linksD[OF Cons.prems(1) n(3)])
  with n Cons.IH[OF Cons.prems(1) n(5)] show ?case by (simp add: y)
qed simp

lemma dseg_next_upd:
  assumes "dseg n_prev n_next (\<lambda>_. ()) h p x as l m" "as \<noteq> []" "distinct (map fst as)" "h l = Some n"
  shows "dseg n_prev n_next (\<lambda>_. ()) (h(l \<mapsto> n\<lparr>n_next := y\<rparr>)) p x as l y"
proof -
  obtain bs where as: "as = bs @ [(l, ())]"
    using dseg_last[OF assms(1,2)] assms(2) by (cases as rule: rev_cases) auto
  with assms(3) have l: "l \<notin> fst ` set bs" by auto
  from assms(1,4) as obtain q z where "dseg n_prev n_next (\<lambda>_. ()) h p x bs q z" "z = l" "l \<noteq> NULL" "n_prev n = q"
    by auto
  with l show ?thesis by (auto simp: as intro!: dseg_frame)
qed

lemma is_tree_links [simp]:
  assumes "h a = Some n"
  shows "is_tree (h(a \<mapsto> n\<lparr>n_next := y\<rparr>)) par p t = is_tree h par p t"
    "is_tree (h(a \<mapsto> n\<lparr>n_prev := y\<rparr>)) par p t = is_tree h par p t"
  using assms by (induction h par p t rule: is_tree.induct) auto

lemma is_ctx_links [simp]:
  assumes "h a = Some n"
  shows "is_ctx (h(a \<mapsto> n\<lparr>n_next := y\<rparr>)) root cs p par = is_ctx h root cs p par"
    "is_ctx (h(a \<mapsto> n\<lparr>n_prev := y\<rparr>)) root cs p par = is_ctx h root cs p par"
  using assms by (induction h root cs p par rule: is_ctx.induct) auto

section \<open>Representation\<close>

definition avl_rep :: "('k, 'v) nodes \<Rightarrow> avltree \<Rightarrow> ('k, 'v) ltree \<Rightarrow> addr list \<Rightarrow> bool" where
  "avl_rep h T t ns \<longleftrightarrow> is_tree h NULL (at_root T) t \<and> distinct (addrs t) \<and>
     chain h (at_first T) ns (at_prev T) \<and> distinct ns \<and> set ns = set (addrs t)"

lemma avltree_new_rep: "avl_rep h avltree_new Leaf []"
  by (simp add: avl_rep_def avltree_new_def)

lemma avl_rep_alloc: "avl_rep h T t ns \<Longrightarrow> a \<in> set ns \<Longrightarrow> a \<noteq> NULL \<and> (\<exists>n. h a = Some n)"
  by (auto simp: avl_rep_def dest: is_tree_alloc)

lemma avl_rep_frame:
  assumes "avl_rep h T t ns" "\<And>y. y \<in> set ns \<Longrightarrow> h' y = h y"
  shows "avl_rep h' T t ns"
proof -
  have "dseg n_prev n_next (\<lambda>_. ()) h' p x as l m" 
    if "dseg n_prev n_next (\<lambda>_. ()) h p x as l m" "\<And>y. y \<in> fst ` set as \<Longrightarrow> h' y = h y"
    for p x and as :: "(addr \<times> unit) list" and l m
    using that by (induction as arbitrary: p x) auto
  note chain = this
  have ag: "\<forall>y \<in> set (addrs t). h' y = h y" using assms unfolding avl_rep_def by metis
  have "chain h' (at_first T) ns (at_prev T)"
    using assms unfolding avl_rep_def by (intro chain) auto
  with assms(1) show ?thesis unfolding avl_rep_def is_tree_agree[OF ag] by auto
qed

lemma new_node_spec:
  assumes "chain h (at_first T) ns (at_prev T)" "distinct ns" "fresh h new"
  obtains h' n where "new_node h T new = Some (h', T\<lparr>at_first := (if ns = [] then new else at_first T), at_prev := new\<rparr>)"
    "h' new = Some n" "n_left n = NULL" "n_right n = NULL" "n_parent n = NULL" "new \<notin> set ns"
    "chain h' (if ns = [] then new else at_first T) (ns @ [new]) new"
    "\<And>par p t. new \<notin> set (addrs t) \<Longrightarrow> is_tree h' par p t = is_tree h par p t"
    "\<And>root cs p par. new \<notin> set (caddrs cs) \<Longrightarrow> is_ctx h' root cs p par = is_ctx h root cs p par"
    "\<And>y. y \<notin> insert new (set ns) \<Longrightarrow> h' y = h y"
proof (cases "ns = []")
  case True
  with assms have "at_first T = NULL" "at_prev T = NULL" by auto
  with True assms(3) that show thesis by (auto simp: new_node_def fresh_def)
next
  case False
  let ?l = "at_prev T"
  let ?n = "\<lparr>n_key = None, n_val = None, n_left = NULL, n_right = NULL, n_parent = NULL, n_next = NULL, n_prev = NULL\<rparr>"
  have l: "?l \<in> set ns" using dseg_last[OF assms(1)] False by (auto simp: last_map)
  then obtain m where m: "?l \<noteq> NULL" "h ?l = Some m" using dseg_alloc[OF assms(1), of ?l] by force
  have new: "new \<notin> set ns" "new \<noteq> NULL" "h new = None"
    using assms(3) dseg_alloc[OF assms(1), of new] by (force simp: fresh_def)+
  have nl: "new \<noteq> ?l" using l new(1) by auto
  have first: "at_first T \<noteq> NULL" using dseg_null_first[OF assms(1)] False by auto
  let ?h1 = "h(?l \<mapsto> m\<lparr>n_next := new\<rparr>)"
  let ?h' = "?h1(new \<mapsto> ?n\<lparr>n_prev := ?l\<rparr>)"
  have "dseg n_prev n_next (\<lambda>_. ()) ?h1 NULL (at_first T) (map (\<lambda>a. (a, ())) ns) ?l new"
    using assms(1,2) m(2) False by (intro dseg_next_upd) (auto simp: comp_def)
  then have "dseg n_prev n_next (\<lambda>_. ()) ?h' NULL (at_first T) (map (\<lambda>a. (a, ())) ns) ?l new"
    using new(1) by (intro dseg_frame[where h = ?h1]) auto
  then have c: "chain ?h' (at_first T) (ns @ [new]) new" using new(2) by auto
  have run: "new_node h T new
      = Some (?h', T\<lparr>at_first := (if ns = [] then new else at_first T), at_prev := new\<rparr>)"
    using m new nl first False by (simp add: new_node_def heap_simps fun_upd_twist)
  have tree: "is_tree ?h' par p t = is_tree h par p t" if "new \<notin> set (addrs t)" for par p t
    using that m(2) by simp
  have ctx: "is_ctx ?h' root cs p par = is_ctx h root cs p par" if "new \<notin> set (caddrs cs)" for root cs p par
    using that m(2) by simp
  show thesis by (rule that[of ?h' "?n\<lparr>n_prev := ?l\<rparr>", OF run _ _ _ _ new(1) _ tree ctx]) (use c False l in auto)
qed

section \<open>Lookup\<close>

lemma lookup_loop_path:
  "is_tree h par p t \<Longrightarrow> lookup_loop cmp h k p = Some (root_addr (snd (path cmp k t cs)))"
proof (induction t arbitrary: par p cs)
  case Leaf
  then show ?case by (subst lookup_loop.simps) simp
next
  case (Node l x r)
  obtain a nk v where x: "x = (a, nk, v)" by (cases x)
  with Node.prems obtain n where n: "p = a" "a \<noteq> NULL" "h a = Some n" "n_key n = Some nk"
    "is_tree h a (n_left n) l" "is_tree h a (n_right n) r"
    by auto
  with Node.IH show ?case by (subst lookup_loop.simps) (simp add: x heap_simps)
qed

lemma path_ctx:
  "is_ctx h root cs p par \<Longrightarrow> is_tree h par p t \<Longrightarrow> path cmp k t cs = (ds, u) \<Longrightarrow>
   \<exists>q par'. is_ctx h root ds q par' \<and> is_tree h par' q u"
proof (induction t arbitrary: par p cs)
  case (Node l x r)
  obtain a nk v where x: "x = (a, nk, v)" by (cases x)
  with Node.prems(2) obtain n where n: "p = a" "a \<noteq> NULL" "h a = Some n" "n_key n = Some nk" "n_val n = Some v"
    "n_parent n = par" "is_tree h a (n_left n) l" "is_tree h a (n_right n) r"
    by auto
  have L: "is_ctx h root (InL (a, nk, v) r # cs) (n_left n) a" 
    and R: "is_ctx h root (InR l (a, nk, v) # cs) (n_right n) a"
    using Node.prems(1) n by auto
  show ?case
    using Node.prems Node.IH(1)[OF L n(7)] Node.IH(2)[OF R n(8)] by (auto simp: x split: if_splits)
qed auto

theorem avltree_lookup_rep:
  assumes rep: "avl_rep h T t ns" and cmp: "comparator cmp" and "bst cmp t"
  shows "avltree_lookup cmp h T k = Some (map_of (kvs t) k)"
proof -
  obtain ds u where pt: "path cmp k t [] = (ds, u)" by fastforce
  from rep have tr: "is_tree h NULL (at_root T) t" by (simp add: avl_rep_def)
  then have run: "lookup_loop cmp h k (at_root T) = Some (root_addr u)"
    using lookup_loop_path[of h NULL "at_root T" t cmp k "[]"] pt by simp
  have "is_ctx h (at_root T) [] (at_root T) NULL" by simp
  from path_ctx[OF this tr pt] obtain q par where u: "is_tree h par q u" by auto
  show ?thesis
  proof (cases u)
    case Leaf
    with pt comparator.path_Leaf_iff[OF cmp \<open>bst cmp t\<close>, of k "[]"] have "k \<notin> fst ` set (kvs t)" by simp
    then have "map_of (kvs t) k = None" by (simp add: map_of_eq_None_iff)
    with Leaf run show ?thesis by (simp add: avltree_lookup_def)
  next
    case (Node l x r)
    obtain a nk v where x: "x = (a, nk, v)" by (cases x)
    from u Node x obtain n where "a \<noteq> NULL" "h a = Some n" "n_val n = Some v" by auto
    with run Node x comparator.path_value(2)[OF cmp \<open>bst cmp t\<close> pt[unfolded Node x]]
    show ?thesis by (simp add: avltree_lookup_def heap_simps)
  qed
qed


section \<open>Insertion\<close>

text \<open>What add_loop() does at the node where the search ends, on the side lf = True or False.\<close>

definition add_at :: "bool \<Rightarrow> ('k, 'v) nodes \<Rightarrow> avltree \<Rightarrow> addr \<Rightarrow> addr \<Rightarrow> (('k, 'v) nodes \<times> avltree) option" where
  "add_at lf h tree new node = do {
     (h, tree) \<leftarrow> new_node h tree new;
     h \<leftarrow> update h node (if lf then n_left_update (\<lambda>_. new) else n_right_update (\<lambda>_. new));
     h \<leftarrow> update h new (n_parent_update (\<lambda>_. node));
     Some (h, tree) }"

lemma add_loop_path:
  assumes "is_tree h par p t" "t \<noteq> Leaf" "path cmp k t cs = (ds, u)"
  shows "add_loop cmp h T k new p =
    (if u \<noteq> Leaf then Some (Inl 1)
     else map_option Inr (case hd ds of InL x r \<Rightarrow> add_at True h T new (fst x) | InR l x \<Rightarrow> add_at False h T new (fst x)))"
  using assms
proof (induction t arbitrary: par p cs)
  case (Node l x r)
  obtain a nk v where x: "x = (a, nk, v)" by (cases x)
  with Node.prems(1) obtain n where n: "p = a" "a \<noteq> NULL" "h a = Some n" "n_key n = Some nk"
    "is_tree h a (n_left n) l" "is_tree h a (n_right n) r"
    by auto
  have bind: "Option.bind m (\<lambda>(h, t). Some (Inr (h, t))) = map_option Inr m" for m :: "(('a, 'b) nodes \<times> avltree) option"
    by (cases m) auto
  have L: "n_left n = NULL \<longleftrightarrow> l = Leaf" and R: "n_right n = NULL \<longleftrightarrow> r = Leaf"
    using n(5,6) is_tree_root root_addr_NULL by metis+
  show ?case
    using Node.prems(3) n L R Node.IH(1)[OF n(5)] Node.IH(2)[OF n(6)]
    by (subst add_loop.simps)
      (auto simp: x heap_simps add_at_def map_option_bind comp_def split: if_splits intro!: Option.bind_cong)
qed simp

lemma add_at_spec:
  assumes rep: "avl_rep h T (plug ds Leaf) ns" and ds: "ds \<noteq> []" and new: "fresh h new"
  obtains h' T' n par where
    "(case hd ds of InL x r \<Rightarrow> add_at True h T new (fst x) | InR l x \<Rightarrow> add_at False h T new (fst x)) = Some (h', T')"
    "is_ctx h' (at_root T') ds new par" "h' new = Some n" "n_left n = NULL" "n_right n = NULL" "n_parent n = par"
    "chain h' (at_first T') (ns @ [new]) (at_prev T')" "new \<notin> set ns"
    "\<And>y. y \<notin> insert new (set ns) \<Longrightarrow> h' y = h y"
proof -
  from rep obtain par where ctx: "is_ctx h (at_root T) ds NULL par" and dc: "distinct (caddrs ds)"
    and S: "set ns = set (caddrs ds)" and ch: "chain h (at_first T) ns (at_prev T)" "distinct ns"
    by (auto simp: avl_rep_def is_tree_plug distinct_plug set_addrs_plug)
  from new have new0: "new \<noteq> NULL" by (simp add: fresh_def)
  let ?T = "T\<lparr>at_first := (if ns = [] then new else at_first T), at_prev := new\<rparr>"
  obtain h1 n where 1: "new_node h T new = Some (h1, ?T)"
    "h1 new = Some n" "n_left n = NULL" "n_right n = NULL" "n_parent n = NULL" "new \<notin> set ns"
    "chain h1 (if ns = [] then new else at_first T) (ns @ [new]) new"
    "\<And>par p t. new \<notin> set (addrs t) \<Longrightarrow> is_tree h1 par p t = is_tree h par p t"
    "\<And>root cs p par. new \<notin> set (caddrs cs) \<Longrightarrow> is_ctx h1 root cs p par = is_ctx h root cs p par"
    "\<And>y. y \<notin> insert new (set ns) \<Longrightarrow> h1 y = h y"
    by (rule new_node_spec[OF ch new]) (rule that)
  have nc: "new \<notin> set (caddrs ds)" using 1(6) S by simp
  with 1(9) ctx have ctx1: "is_ctx h1 (at_root T) ds NULL par" by simp
  have par: "par \<noteq> NULL" "par \<in> set (caddrs ds)"
    using is_ctx_par[OF ctx] is_ctx_par_in[OF ctx] ds by auto
  then have pn: "par \<noteq> new" "par \<in> set ns" using nc S by auto
  obtain m where m: "h1 par = Some m" using is_ctx_alloc[OF ctx1 par(2)] by auto
  obtain m' where m': "is_ctx (h1(par \<mapsto> m')) (at_root T) ds new par"
    "n_prev m' = n_prev m" "n_next m' = n_next m"
    "(case hd ds of InL x r \<Rightarrow> add_at True h T new (fst x) | InR l x \<Rightarrow> add_at False h T new (fst x))
      = Some (h1(par \<mapsto> m', new \<mapsto> n\<lparr>n_parent := par\<rparr>), ?T)"
  proof (cases "(h1, at_root T, ds, NULL :: addr, par)" rule: is_ctx.cases)
    case 1
    with ds show ?thesis by simp
  next
    case (2 h' root a k v r cs)
    with ctx1 ds dc have c: "is_ctx (h1(par \<mapsto> m\<lparr>n_left := new\<rparr>)) (at_root T) ds new par" "par = a"
      using m by auto
    with 2 1(1,2) m par(1) pn(1) new0 show ?thesis
      by (intro that[of "m\<lparr>n_left := new\<rparr>"]) (simp_all add: add_at_def heap_simps)
  next
    case (3 h' root l a k v cs)
    with ctx1 ds dc have c: "is_ctx (h1(par \<mapsto> m\<lparr>n_right := new\<rparr>)) (at_root T) ds new par" "par = a"
      using m by auto
    with 3 1(1,2) m par(1) pn(1) new0 show ?thesis
      by (intro that[of "m\<lparr>n_right := new\<rparr>"]) (simp_all add: add_at_def heap_simps)
  qed
  let ?h' = "h1(par \<mapsto> m', new \<mapsto> n\<lparr>n_parent := par\<rparr>)"
  have "same_links h1 ?h'" using m m'(2,3) 1(2) pn(1) by (simp add: same_links_def)
  from dseg_same_links[OF this 1(7)] have chain: "chain ?h' (at_first ?T) (ns @ [new]) (at_prev ?T)" by simp
  show thesis
    by (rule that[of ?h' ?T par "n\<lparr>n_parent := par\<rparr>", OF m'(4) _ _ _ _ _ chain 1(6)])
      (use m'(1) nc 1(3,4,10) pn(2) in auto)
qed

lemma add_node_linked:
  assumes ctx: "is_ctx h (at_root T) ds new par" and n: "h new = Some n" "n_left n = NULL" "n_right n = NULL" "n_parent n = par"
    and ch: "chain h (at_first T) ns (at_prev T)" and d: "distinct (new # caddrs ds)" "new \<noteq> NULL"
  obtains h' T' where
    "do { h \<leftarrow> update h new (n_key_update (\<lambda>_. Some k));
          h \<leftarrow> update h new (n_val_update (\<lambda>_. Some v));
          rebalance h T new } = Some (h', T')"
    "is_tree h' NULL (at_root T') (rebal_up ds (Node Leaf (new, k, v) Leaf))"
    "chain h' (at_first T') ns (at_prev T')"
    "\<And>y. y \<notin> insert new (set (caddrs ds)) \<Longrightarrow> h' y = h y"
proof -
  let ?n = "n\<lparr>n_key := Some k, n_val := Some v\<rparr>"
  let ?h = "h(new \<mapsto> ?n)"
  have ctx1: "is_ctx ?h (at_root T) ds new par" using ctx d by simp
  have tree1: "is_tree ?h par new (Node Leaf (new, k, v) Leaf)" using n d(2) by simp
  have d1: "distinct (addrs (Node Leaf (new, k, v) Leaf) @ caddrs ds)" using d by simp
  obtain h' T' where 1: "rebalance_loop ?h T par = Some (h', T')"
    "is_tree h' NULL (at_root T') (rebal_up ds (Node Leaf (new, k, v) Leaf))"
    "keeps (set (addrs (Node Leaf (new, k, v) Leaf) @ caddrs ds)) ?h T h' T'"
    using ctx1 tree1 d1 by (rule rebalance_loop_spec)
  have "same_links h ?h" using n(1) by (simp add: same_links_def)
  also have "same_links ?h h'" using 1(3) by (simp add: keeps_def)
  finally have "chain h' (at_first T) ns (at_prev T)" using ch by (rule dseg_same_links)
  then have c: "chain h' (at_first T') ns (at_prev T')" using 1(3) by (simp add: keeps_def)
  show thesis
    by (rule that[OF _ 1(2) c]) (use n d(2) 1(1,3) in \<open>simp_all add: heap_simps rebalance_def keeps_def\<close>)
qed

lemma path_missing:
  assumes rep: "avl_rep h T t ns" and pt: "path cmp k t [] = (ds, Leaf)"
  shows "t = plug ds Leaf" "rebal_up ds (Node Leaf (new, k, v) Leaf) = ins cmp (new, k, v) t"
    "set ns = set (caddrs ds)" "distinct (caddrs ds)"
proof -
  from path_plug[OF pt] show t: "t = plug ds Leaf" by simp
  from rebal_up_path_ins[of cmp "(new, k, v)" t "[]" ds] pt
  show "rebal_up ds (Node Leaf (new, k, v) Leaf) = ins cmp (new, k, v) t" by simp
  from rep show "set ns = set (caddrs ds)" "distinct (caddrs ds)"
    by (auto simp: avl_rep_def t set_addrs_plug distinct_plug)
qed

lemma added_rep:
  assumes rep: "avl_rep h T t ns" and new: "fresh h new" and pt: "path cmp k t [] = (ds, Leaf)"
    and tr: "is_tree h' NULL (at_root T') (rebal_up ds (Node Leaf (new, k, v) Leaf))"
    and ch: "chain h' (at_first T') (ns @ [new]) (at_prev T')"
  shows "avl_rep h' T' (ins cmp (new, k, v) t) (ns @ [new])"
proof -
  note t = path_missing(1)[OF rep pt] and ins = path_missing(2)[OF rep pt, of new v]
  have "new \<noteq> NULL" "new \<notin> set ns" using new rep by (auto simp: fresh_def dest: avl_rep_alloc)
  moreover have "addrs (ins cmp (new, k, v) t) = map fst (before ds) @ new # map fst (after ds)"
    by (simp add: addrs_def inorder_plug flip: ins)
  moreover have "addrs t = map fst (before ds) @ map fst (after ds)"
    by (simp add: addrs_def t inorder_plug)
  ultimately show ?thesis using rep tr ch unfolding avl_rep_def ins by auto
qed

lemma add_first_node:
  assumes rep: "avl_rep h T Leaf ns" and new: "fresh h new"
  obtains h' T' where "avltree_add_node cmp h T k v new = Some (h', T', 0)"
    "is_tree h' NULL (at_root T') (Node Leaf (new, k, v) Leaf)" "chain h' (at_first T') (ns @ [new]) (at_prev T')"
    "\<And>y. y \<notin> insert new (set ns) \<Longrightarrow> h' y = h y"
proof -
  from rep have r: "at_root T = NULL" "ns = []" by (auto simp: avl_rep_def)
  from rep have "chain h (at_first T) ns (at_prev T)" "distinct ns" by (auto simp: avl_rep_def)
  then obtain h' n where 1: "new_node h T new = Some (h', T\<lparr>at_first := (if ns = [] then new else at_first T), at_prev := new\<rparr>)"
    "h' new = Some n" "n_left n = NULL" "n_right n = NULL" "n_parent n = NULL"
    "chain h' (if ns = [] then new else at_first T) (ns @ [new]) new"
    "\<And>y. y \<notin> insert new (set ns) \<Longrightarrow> h' y = h y"
    by (rule new_node_spec[OF _ _ new]) (rule that)
  have new0: "new \<noteq> NULL" using new by (simp add: fresh_def)
  let ?n = "n\<lparr>n_key := Some k, n_val := Some v\<rparr>"
  let ?T = "\<lparr>at_root = new, at_first = new, at_prev = new\<rparr>"
  have "same_links h' (h'(new \<mapsto> ?n))" using 1(2) by (simp add: same_links_def)
  from dseg_same_links[OF this 1(6)] have "chain (h'(new \<mapsto> ?n)) new (ns @ [new]) new" using r by simp
  moreover have "is_tree (h'(new \<mapsto> ?n)) NULL new (Node Leaf (new, k, v) Leaf)" using 1 new0 by simp
  moreover have "avltree_add_node cmp h T k v new = Some (h'(new \<mapsto> ?n), ?T, 0)"
    using 1 r new0 by (simp add: avltree_add_node_def heap_simps)
  ultimately show thesis using 1(7) by (intro that[of "h'(new \<mapsto> ?n)" ?T]) simp_all
qed

theorem avltree_add_node_rep:
  assumes rep: "avl_rep h T t ns" and new: "fresh h new" and miss: "snd (path cmp k t []) = Leaf"
  obtains h' T' where "avltree_add_node cmp h T k v new = Some (h', T', 0)"
    "avl_rep h' T' (ins cmp (new, k, v) t) (ns @ [new])"
    "\<And>y. y \<notin> insert new (set ns) \<Longrightarrow> h' y = h y"
proof -
  obtain ds where pt: "path cmp k t [] = (ds, Leaf)" using miss by (cases "path cmp k t []") auto
  note t = path_missing(1)[OF rep pt] and S = path_missing(3)[OF rep pt]
  note fin = added_rep[OF rep new pt, where v = v]
  have tr: "is_tree h NULL (at_root T) t" using rep by (simp add: avl_rep_def)
  have new0: "new \<noteq> NULL" "new \<notin> set ns" using new rep by (auto simp: fresh_def dest: avl_rep_alloc)
  then have dn: "distinct (new # caddrs ds)" using path_missing(4)[OF rep pt] S by simp
  show thesis
  proof (cases "ds = []")
    case True
    with rep t have "avl_rep h T Leaf ns" by simp
    then obtain h' T' where "avltree_add_node cmp h T k v new = Some (h', T', 0)"
      "is_tree h' NULL (at_root T') (Node Leaf (new, k, v) Leaf)" "chain h' (at_first T') (ns @ [new]) (at_prev T')"
      "\<And>y. y \<notin> insert new (set ns) \<Longrightarrow> h' y = h y"
      using new by (rule add_first_node[where cmp = cmp and k = k and v = v]) (rule that)
    with fin[of h' T'] True show thesis by (intro that[of h' T']) simp_all
  next
    case False
    then have nl: "t \<noteq> Leaf" by (simp add: t plug_Leaf)
    then have r: "at_root T \<noteq> NULL" using root_addr_NULL[OF tr] is_tree_root[OF tr] by simp
    from rep have rep': "avl_rep h T (plug ds Leaf) ns" by (simp add: t)
    obtain h1 T1 n par where 1:
      "(case hd ds of InL x r \<Rightarrow> add_at True h T new (fst x) | InR l x \<Rightarrow> add_at False h T new (fst x)) = Some (h1, T1)"
      "is_ctx h1 (at_root T1) ds new par" "h1 new = Some n" "n_left n = NULL" "n_right n = NULL" "n_parent n = par"
      "chain h1 (at_first T1) (ns @ [new]) (at_prev T1)"
      "\<And>y. y \<notin> insert new (set ns) \<Longrightarrow> h1 y = h y"
      by (rule add_at_spec[OF rep' False new]) (rule that)
    obtain h2 T2 where 2:
      "do { h \<leftarrow> update h1 new (n_key_update (\<lambda>_. Some k));
            h \<leftarrow> update h new (n_val_update (\<lambda>_. Some v));
            rebalance h T1 new } = Some (h2, T2)"
      "is_tree h2 NULL (at_root T2) (rebal_up ds (Node Leaf (new, k, v) Leaf))"
      "chain h2 (at_first T2) (ns @ [new]) (at_prev T2)"
      "\<And>y. y \<notin> insert new (set (caddrs ds)) \<Longrightarrow> h2 y = h1 y"
      by (rule add_node_linked[OF 1(2-7) dn new0(1)]) (rule that)
    have "add_loop cmp h T k new (at_root T) = Some (Inr (h1, T1))"
      using add_loop_path[OF tr nl pt] 1(1) by simp
    moreover have "Option.bind (update h1 new (n_key_update (\<lambda>_. Some k))) (\<lambda>h.
        Option.bind (update h new (n_val_update (\<lambda>_. Some v))) (\<lambda>h.
        Option.bind (rebalance h T1 new) (\<lambda>(h, T). Some (h, T, 0)))) = Some (h2, T2, 0::int)"
      using 2(1) by (auto simp: bind_eq_Some_conv)
    ultimately have "avltree_add_node cmp h T k v new = Some (h2, T2, 0)"
      using r by (simp add: avltree_add_node_def)
    then show thesis
      using fin[OF 2(2,3)] 1(8) 2(4) S by (intro that[of h2 T2]) auto
  qed
qed

theorem avltree_add_node_exists:
  assumes "avl_rep h T t ns" "snd (path cmp k t []) \<noteq> Leaf"
  shows "avltree_add_node cmp h T k v new = Some (h, T, 1)"
proof -
  obtain ds u where pt: "path cmp k t [] = (ds, u)" by fastforce
  with assms(2) have nl: "t \<noteq> Leaf" "u \<noteq> Leaf" by auto
  from assms(1) have tr: "is_tree h NULL (at_root T) t" by (simp add: avl_rep_def)
  with nl(1) have "at_root T \<noteq> NULL" using root_addr_NULL[OF tr] is_tree_root[OF tr] by simp
  with add_loop_path[OF tr nl(1) pt] nl(2) show ?thesis by (simp add: avltree_add_node_def)
qed

end
