(* ===== verification/AvlDelete.thy ===== *)
theory AvlDelete
  imports AvlInsert
begin

text \<open>
  avltree_delete_node() computes del of AvlSpec and frees exactly one node; avltree_free() frees
  every node exactly once.
\<close>

section \<open>Unlinking from the chain\<close>

lemma dseg_prev_upd:
  assumes "dseg n_prev n_next (\<lambda>_. ()) h p x as l m" "as \<noteq> []" "distinct (map fst as)" "h x = Some n"
  shows "dseg n_prev n_next (\<lambda>_. ()) (h(x \<mapsto> n\<lparr>n_prev := q\<rparr>)) q x as l m"
proof -
  from assms(1,2) obtain bs where as: "as = (x, ()) # bs" by (cases as) auto
  with assms(3) have "x \<notin> fst ` set bs" by auto
  with assms(1,4) as show ?thesis by (auto intro!: dseg_frame)
qed

text \<open>The two pointer updates around the removed node, in its predecessor and in its successor.\<close>

lemma unlink_from_prev:
  assumes seg: "dseg n_prev n_next (\<lambda>_. ()) h NULL f (map (\<lambda>a. (a, ())) as) l b" and d: "distinct as"
  obtains h1 where "(if l \<noteq> NULL then update h l (n_next_update (\<lambda>_. x)) else Some h) = Some h1"
    "dseg n_prev n_next (\<lambda>_. ()) h1 NULL (if as = [] then x else f) (map (\<lambda>a. (a, ())) as) l x"
    "\<And>y. y \<notin> set as \<Longrightarrow> h1 y = h y"
    "\<And>par p t. is_tree h1 par p t = is_tree h par p t"
    "\<And>root cs p par. is_ctx h1 root cs p par = is_ctx h root cs p par"
proof (cases "as = []")
  case True
  with dseg_null_last[OF seg] seg that[of h] show ?thesis by auto
next
  case False
  have l: "l \<noteq> NULL" "l \<in> set as" using dseg_null_last[OF seg] dseg_last_in[OF seg] False by (auto simp: image_image)
  obtain m where m: "h l = Some m" using dseg_alloc[OF seg, of l] l by (auto simp: image_image)
  have "dseg n_prev n_next (\<lambda>_. ()) (h(l \<mapsto> m\<lparr>n_next := x\<rparr>)) NULL f (map (\<lambda>a. (a, ())) as) l x"
    by (rule dseg_next_upd[OF seg _ _ m]) (use False d in \<open>auto simp: comp_def\<close>)
  then show ?thesis
    using m False l by (intro that[of "h(l \<mapsto> m\<lparr>n_next := x\<rparr>)"]) (auto simp: heap_simps)
qed

lemma unlink_from_next:
  assumes seg: "dseg n_prev n_next (\<lambda>_. ()) h b x (map (\<lambda>a. (a, ())) bs) p0 NULL" and d: "distinct bs"
  obtains h2 where "(if x \<noteq> NULL then update h x (n_prev_update (\<lambda>_. l)) else Some h) = Some h2"
    "dseg n_prev n_next (\<lambda>_. ()) h2 l x (map (\<lambda>a. (a, ())) bs) (if bs = [] then l else p0) NULL"
    "\<And>y. y \<notin> set bs \<Longrightarrow> h2 y = h y"
    "\<And>par p t. is_tree h2 par p t = is_tree h par p t"
    "\<And>root cs p par. is_ctx h2 root cs p par = is_ctx h root cs p par"
proof (cases "bs = []")
  case True
  with dseg_null_first[OF seg] seg that[of h] show ?thesis by auto
next
  case False
  have x: "x \<noteq> NULL" "x \<in> set bs" using dseg_null_first[OF seg] dseg_first_in[OF seg] False by (auto simp: image_image)
  obtain m where m: "h x = Some m" using dseg_alloc[OF seg, of x] x by (auto simp: image_image)
  have "dseg n_prev n_next (\<lambda>_. ()) (h(x \<mapsto> m\<lparr>n_prev := l\<rparr>)) l x (map (\<lambda>a. (a, ())) bs) p0 NULL"
    by (rule dseg_prev_upd[OF seg _ _ m]) (use False d in \<open>auto simp: comp_def\<close>)
  then show ?thesis
    using m False x by (intro that[of "h(x \<mapsto> m\<lparr>n_prev := l\<rparr>)"]) (auto simp: heap_simps)
qed

lemma dealloc_node_spec:
  assumes ch: "chain h (at_first T) ns (at_prev T)" and d: "distinct ns" and b: "b \<in> set ns"
  obtains h' T' where "dealloc_node h T b = Some (h', T')" "at_root T' = at_root T"
    "chain h' (at_first T') (remove1 b ns) (at_prev T')" "h' b = None"
    "\<And>par p t. b \<notin> set (addrs t) \<Longrightarrow> is_tree h' par p t = is_tree h par p t"
    "\<And>root cs p par. b \<notin> set (caddrs cs) \<Longrightarrow> is_ctx h' root cs p par = is_ctx h root cs p par"
    "\<And>y. y \<notin> set ns \<Longrightarrow> h' y = h y"
proof -
  obtain as bs where ns: "ns = as @ b # bs" using b by (auto dest: split_list)
  let ?m = "map (\<lambda>a. (a, ()))"
  have disj: "b \<notin> set as" "b \<notin> set bs" "set as \<inter> set bs = {}" "distinct as" "distinct bs" using d ns by auto
  from ch ns obtain n where n: "b \<noteq> NULL" "h b = Some n"
    "dseg n_prev n_next (\<lambda>_. ()) h NULL (at_first T) (?m as) (n_prev n) b"
    "dseg n_prev n_next (\<lambda>_. ()) h b (n_next n) (?m bs) (at_prev T) NULL" by auto
  let ?l = "n_prev n" and ?x = "n_next n"
  obtain h1 where h1: "(if ?l \<noteq> NULL then update h ?l (n_next_update (\<lambda>_. ?x)) else Some h) = Some h1"
    "dseg n_prev n_next (\<lambda>_. ()) h1 NULL (if as = [] then ?x else at_first T) (?m as) ?l ?x"
    "\<And>y. y \<notin> set as \<Longrightarrow> h1 y = h y"
    "\<And>par p t. is_tree h1 par p t = is_tree h par p t"
    "\<And>root cs p par. is_ctx h1 root cs p par = is_ctx h root cs p par"
    by (rule unlink_from_prev[OF n(3) disj(4), of ?x]) (rule that)
  have h1b: "h1 b = Some n" using h1(3) disj n(2) by simp
  have notin: "y \<notin> set as" if "y \<in> set bs" for y using that disj(3) by auto
  have notin': "y \<notin> set bs" if "y \<in> set as" for y using that disj(3) by auto
  have bs1: "dseg n_prev n_next (\<lambda>_. ()) h1 b ?x (?m bs) (at_prev T) NULL"
    by (rule dseg_agree[OF n(4)]) (use h1(3) notin in auto)
  obtain h2 where h2: "(if ?x \<noteq> NULL then update h1 ?x (n_prev_update (\<lambda>_. ?l)) else Some h1) = Some h2"
    "dseg n_prev n_next (\<lambda>_. ()) h2 ?l ?x (?m bs) (if bs = [] then ?l else at_prev T) NULL"
    "\<And>y. y \<notin> set bs \<Longrightarrow> h2 y = h1 y"
    "\<And>par p t. is_tree h2 par p t = is_tree h1 par p t"
    "\<And>root cs p par. is_ctx h2 root cs p par = is_ctx h1 root cs p par"
    by (rule unlink_from_next[OF bs1 disj(5), of ?l]) (rule that)
  have as2: "dseg n_prev n_next (\<lambda>_. ()) h2 NULL (if as = [] then ?x else at_first T) (?m as) ?l ?x"
    by (rule dseg_agree[OF h1(2)]) (use h2(3) notin' in \<open>auto simp: image_image\<close>)
  have h2b: "h2 b = Some n" using h2(3) disj h1b by simp
  let ?h = "h2(b := None)"
  let ?f = "if as = [] then ?x else at_first T" and ?p = "if bs = [] then ?l else at_prev T"
  let ?T = "T\<lparr>at_first := ?f, at_prev := ?p\<rparr>"
  have first: "b = at_first T \<longleftrightarrow> as = []"
    using n(3) dseg_first_in[OF n(3)] disj(1) by (cases "as = []") (auto simp: image_image)
  have last: "b = at_prev T \<longleftrightarrow> bs = []"
    using n(4) dseg_last_in[OF n(4)] disj(2) by (cases "bs = []") (auto simp: image_image)
  have "dealloc_node h T b = Some (?h, ?T)"
    using n(1,2) h1(1) h1b h2(1) h2b first last by (simp add: dealloc_node_def heap_simps)
  moreover have "chain ?h ?f (remove1 b ns) ?p"
  proof -
    have "remove1 b ns = as @ bs" using disj by (simp add: ns remove1_append)
    moreover have "dseg n_prev n_next (\<lambda>_. ()) ?h NULL (if as = [] then ?x else at_first T) (?m as) ?l ?x"
      "dseg n_prev n_next (\<lambda>_. ()) ?h ?l ?x (?m bs) (if bs = [] then ?l else at_prev T) NULL"
      using as2 h2(2) disj by (auto intro!: dseg_frame)
    ultimately show ?thesis
      by (simp only: map_append dseg_append) blast
  qed
  moreover have "?h y = h y" if "y \<notin> set ns" for y using that h2(3) h1(3) ns by auto
  moreover have "at_root ?T = at_root T" "at_first ?T = ?f" "at_prev ?T = ?p" by simp_all
  moreover have "is_tree ?h par p t = is_tree h par p t" if "b \<notin> set (addrs t)" for par p t
    using that by (simp add: h1(4) h2(4))
  moreover have "is_ctx ?h root cs p par = is_ctx h root cs p par" if "b \<notin> set (caddrs cs)" for root cs p par
    using that by (simp add: h1(5) h2(5))
  ultimately show thesis
    by (intro that[of ?h ?T]) (simp_all only: fun_upd_same)
qed


section \<open>Splicing out a node with at most one child\<close>

lemma zip_append:
  "(\<exists>p par. is_ctx h root cs p par \<and> is_tree h par p (plug fs t)) \<longleftrightarrow>
   (\<exists>p par. is_ctx h root (fs @ cs) p par \<and> is_tree h par p t)"
proof (induction fs t rule: plug.induct)
  case (2 c fs t)
  then show ?case by (cases c) auto
qed simp

abbreviation child_update :: "'a frame \<Rightarrow> addr \<Rightarrow> ('k, 'v) node \<Rightarrow> ('k, 'v) node" where
  "child_update c q \<equiv> (case c of InL _ _ \<Rightarrow> n_left_update (\<lambda>_. q) | InR _ _ \<Rightarrow> n_right_update (\<lambda>_. q))"

lemma splice:
  assumes ctx: "is_ctx h root (c # cs) b par" and tr: "is_tree h x q M"
    and d: "distinct (addrs M @ caddrs (c # cs))"
  obtains h1 h2 where "update h par (child_update c q) = Some h1"
    "(if q \<noteq> NULL then update h1 q (n_parent_update (\<lambda>_. par)) else Some h1) = Some h2"
    "is_ctx h2 root (c # cs) q par" "is_tree h2 par q M" "same_links h h2"
    "\<And>y. y \<notin> set (addrs M @ caddrs (c # cs)) \<Longrightarrow> h2 y = h y"
proof -
  have par: "par \<in> set (caddrs (c # cs))" using is_ctx_par_in[OF ctx] by simp
  then obtain n where n: "par \<noteq> NULL" "h par = Some n" using is_ctx_alloc[OF ctx] by blast
  let ?h1 = "h(par \<mapsto> child_update c q n)"
  have pm: "par \<notin> set (addrs M)" and dM: "distinct (addrs M)" using par d by auto
  have ctx1: "is_ctx ?h1 root (c # cs) q par"
    using ctx d n by (cases "(h, root, c # cs, b, par)" rule: is_ctx.cases) auto
  from tr pm have tr1: "is_tree ?h1 x q M" by simp
  obtain h2 where h2: "(if q \<noteq> NULL then update ?h1 q (n_parent_update (\<lambda>_. par)) else Some ?h1) = Some h2"
    "is_tree h2 par q M" "\<forall>y. y \<notin> set (addrs M) \<longrightarrow> h2 y = ?h1 y" "same_links ?h1 h2"
    by (rule reparent[OF tr1 dM, where x = par]) (rule that)
  have "is_ctx h2 root (c # cs) q par"
    using ctx1 h2(3) d by (subst is_ctx_agree[of _ _ ?h1]) auto
  moreover have "same_links h ?h1" using n by (simp add: same_links_def split: frame.split)
  then have "same_links h h2" using h2(4) by (rule same_links_trans)
  moreover have "h2 y = h y" if "y \<notin> set (addrs M @ caddrs (c # cs))" for y
    using that par h2(3) by auto
  ultimately show thesis using that[of ?h1 h2] n h2(1,2) by (simp add: heap_simps)
qed

section \<open>The replacement node\<close>

fun max_frames :: "'a tree \<Rightarrow> 'a frame list" where
  "max_frames (Node l x r) = (if r = Leaf then [] else max_frames r @ [InR l x])"
| "max_frames Leaf = []"

fun min_frames :: "'a tree \<Rightarrow> 'a frame list" where
  "min_frames (Node l x r) = (if l = Leaf then [] else min_frames l @ [InL x r])"
| "min_frames Leaf = []"

lemma split_max_plug:
  assumes "t \<noteq> Leaf" "split_max t = (t', m)"
  obtains L where "t = plug (max_frames t) (Node L m Leaf)" "t' = plug (max_frames t) L"
proof -
  have "\<exists>L. t = plug (max_frames t) (Node L m Leaf) \<and> t' = plug (max_frames t) L"
    using assms
    by (induction t arbitrary: t' rule: split_max.induct) (fastforce simp: plug_append split: prod.splits)+
  with that show thesis by blast
qed

lemma split_min_plug:
  assumes "t \<noteq> Leaf" "split_min t = (t', m)"
  obtains R where "t = plug (min_frames t) (Node Leaf m R)" "t' = plug (min_frames t) R"
proof -
  have "\<exists>R. t = plug (min_frames t) (Node Leaf m R) \<and> t' = plug (min_frames t) R"
    using assms
    by (induction t arbitrary: t' rule: split_min.induct) (fastforce simp: plug_append split: prod.splits)+
  with that show thesis by blast
qed

lemma max_frames_InR: "c \<in> set (max_frames t) \<Longrightarrow> \<exists>l x. c = InR l x"
  by (induction t) (auto split: if_splits)

lemma min_frames_InL: "c \<in> set (min_frames t) \<Longrightarrow> \<exists>x r. c = InL x r"
  by (induction t) (auto split: if_splits)

lemma rightmost_tree:
  "is_tree h par p t \<Longrightarrow> t \<noteq> Leaf \<Longrightarrow> rightmost h p = Some (fst (snd (split_max t)))"
proof (induction t arbitrary: par p rule: split_max.induct)
  case (1 l x)
  obtain a k v where "x = (a, k, v)" by (cases x)
  with 1 show ?case by (subst rightmost.simps) (auto simp: heap_simps)
next
  case (2 l x y z w)
  let ?r = "Node y z w"
  obtain n where n: "p \<noteq> NULL" "h p = Some n" "n_right n = root_addr ?r" "is_tree h p (root_addr ?r) ?r"
    using 2(2) by (rule is_tree_children)
  obtain m where "root_addr ?r \<noteq> NULL" using n(4) by (rule is_tree_node) simp
  with n 2(1)[OF n(4)] show ?case
    by (subst rightmost.simps) (simp add: heap_simps split: prod.split)
qed simp

lemma leftmost_tree:
  "is_tree h par p t \<Longrightarrow> t \<noteq> Leaf \<Longrightarrow> leftmost h p = Some (fst (snd (split_min t)))"
proof (induction t arbitrary: par p rule: split_min.induct)
  case (1 x r)
  obtain a k v where "x = (a, k, v)" by (cases x)
  with 1 show ?case by (subst leftmost.simps) (auto simp: heap_simps)
next
  case (2 y z w x r)
  let ?l = "Node y z w"
  obtain n where n: "p \<noteq> NULL" "h p = Some n" "n_left n = root_addr ?l" "is_tree h p (root_addr ?l) ?l"
    using 2(2) by (rule is_tree_children)
  obtain m where "root_addr ?l \<noteq> NULL" using n(4) by (rule is_tree_node) simp
  with n 2(1)[OF n(4)] show ?case
    by (subst leftmost.simps) (simp add: heap_simps split: prod.split)
qed simp

section \<open>Removing the node that was found\<close>

lemma caddrs_append [simp]: "caddrs (cs @ ds) = caddrs cs @ caddrs ds"
proof (induction cs)
  case (Cons c cs)
  then show ?case by (cases c) auto
qed simp

lemma dealloc_unlinked:
  assumes "is_ctx h1 (at_root T1) ds q par" "is_tree h1 par q u'" "same_links h h1"
    and T: "at_first T1 = at_first T" "at_prev T1 = at_prev T"
    and ch: "chain h (at_first T) ns (at_prev T)" "distinct ns"
    and b: "b \<in> set ns" "b \<notin> set (addrs u')" "b \<notin> set (caddrs ds)"
    and fr: "\<And>y. y \<notin> set ns \<Longrightarrow> h1 y = h y"
  obtains h' T' where "dealloc_node h1 T1 b = Some (h', T')"
    "is_ctx h' (at_root T') ds q par" "is_tree h' par q u'"
    "chain h' (at_first T') (remove1 b ns) (at_prev T')" "h' b = None" "\<And>y. y \<notin> set ns \<Longrightarrow> h' y = h y"
proof -
  have ch1: "chain h1 (at_first T1) ns (at_prev T1)" using dseg_same_links[OF assms(3) ch(1)] T by simp
  obtain h' T' where 1: "dealloc_node h1 T1 b = Some (h', T')" "at_root T' = at_root T1"
    "chain h' (at_first T') (remove1 b ns) (at_prev T')" "h' b = None"
    "\<And>par p t. b \<notin> set (addrs t) \<Longrightarrow> is_tree h' par p t = is_tree h1 par p t"
    "\<And>root cs p par. b \<notin> set (caddrs cs) \<Longrightarrow> is_ctx h' root cs p par = is_ctx h1 root cs p par"
    "\<And>y. y \<notin> set ns \<Longrightarrow> h' y = h1 y"
    by (rule dealloc_node_spec[OF ch1 ch(2) b(1)]) (rule that)
  show thesis using that[OF 1(1)] 1(2-7) assms(1,2) b fr by simp
qed

lemma ctx_plug1:
  assumes "is_ctx h root (c # cs) q par" "is_tree h par q u"
  obtains m where "par \<noteq> NULL" "h par = Some m" "is_ctx h root cs par (n_parent m)" "is_tree h (n_parent m) par (plug1 c u)"
  using assms by (cases "(h, root, c # cs, q, par)" rule: is_ctx.cases) auto

lemma ctx_frame: "is_ctx h root (c # cs) q par \<Longrightarrow> par = (case c of InL x r \<Rightarrow> fst x | InR l x \<Rightarrow> fst x)"
  by (cases "(h, root, c # cs, q, par)" rule: is_ctx.cases) auto

text \<open>
  The node X = b with one subtree M, at the end of the frames fs below the node of frame f, is taken
  out: its parent points to the root of M instead.
\<close>

lemma take_out:
  assumes ctx: "is_ctx h root (f # ds) q0 a" and tr: "is_tree h a q0 (plug fs X)"
    and d: "distinct (addrs X @ caddrs (fs @ f # ds))" and M: "addrs X = addrs M @ [b] \<or> addrs X = b # addrs M"
    and X: "\<And>q x. is_tree h x q X \<Longrightarrow> q = b \<and> (\<exists>m. h b = Some m \<and> n_parent m = x \<and> is_tree h b (child m) M \<and> P m)"
  obtains c cs m h1 h2 par where "fs @ f # ds = c # cs" "is_ctx h root (c # cs) b (n_parent m)" "h b = Some m" "P m"
    "update h (n_parent m) (child_update c (child m)) = Some h1"
    "(if child m \<noteq> NULL then update h1 (child m) (n_parent_update (\<lambda>_. n_parent m)) else Some h1) = Some h2"
    "is_ctx h2 root ds a par" "is_tree h2 par a (plug1 f (plug fs M))" "same_links h h2"
    "\<And>y. y \<notin> set (addrs X @ caddrs (fs @ f # ds)) \<Longrightarrow> h2 y = h y"
proof -
  let ?cs = "fs @ f # ds"
  obtain q x where z: "is_ctx h root ?cs q x" "is_tree h x q X"
    using zip_append[of h root "f # ds" fs X] ctx tr by auto
  from X[OF z(2)] obtain m where m: "q = b" "h b = Some m" "n_parent m = x" "is_tree h b (child m) M" "P m" by auto
  obtain c cs where c: "?cs = c # cs" by (cases fs) auto
  have "distinct (addrs M @ caddrs (c # cs))" using d M unfolding c by auto
  then obtain h1 h2 where s: "update h x (child_update c (child m)) = Some h1"
    "(if child m \<noteq> NULL then update h1 (child m) (n_parent_update (\<lambda>_. x)) else Some h1) = Some h2"
    "is_ctx h2 root ?cs (child m) x" "is_tree h2 x (child m) M" "same_links h h2"
    "\<And>y. y \<notin> set (addrs M @ caddrs ?cs) \<Longrightarrow> h2 y = h y"
    using splice[OF z(1)[unfolded c] m(4)] unfolding c by metis
  obtain q' par' where "is_ctx h2 root (f # ds) q' par'" "is_tree h2 par' q' (plug fs M)"
    using zip_append[of h2 root "f # ds" fs M] s(3,4) by auto
  note f = this
  obtain m' where up: "par' \<noteq> NULL" "h2 par' = Some m'" "is_ctx h2 root ds par' (n_parent m')"
    "is_tree h2 (n_parent m') par' (plug1 f (plug fs M))"
    using f by (rule ctx_plug1)
  have "par' = a" using ctx_frame[OF f(1)] ctx_frame[OF ctx] by simp
  moreover have "h2 y = h y" if "y \<notin> set (addrs X @ caddrs ?cs)" for y using that s(6) M by auto
  ultimately show thesis using that[OF c _ m(2,5), of h1 h2 "n_parent m'"] z(1) s up unfolding c m(1) m(3)[symmetric] by simp
qed

text \<open>The same nodes, seen from the node that takes over the key and the value.\<close>

lemma below_addrs:
  assumes "plug (fs @ f # ds) X = plug ds u" "addrs u = addrs u'" "distinct (addrs u' @ caddrs ds)"
  shows "distinct (addrs X @ caddrs (fs @ f # ds))"
    "set (addrs X @ caddrs (fs @ f # ds)) = set (addrs u' @ caddrs ds)"
  using assms distinct_plug[of "fs @ f # ds" X] distinct_plug[of ds u]
    set_addrs_plug[of "fs @ f # ds" X] set_addrs_plug[of ds u] by auto

lemma remove_left_spec:
  assumes ctx: "is_ctx h (at_root T) ds p par" and tr: "is_tree h par p (Node l (a, k, v) r)"
    and d: "distinct (addrs (Node l (a, k, v) r) @ caddrs ds)" and l: "l \<noteq> Leaf"
    and sm: "split_max l = (l', (b, k', v'))"
  obtains h1 where "remove_target h T p = dealloc_node h1 T b"
    "is_ctx h1 (at_root T) ds p par" "is_tree h1 par p (Node l' (a, k', v') r)" "same_links h h1"
    "\<And>y. y \<notin> set (addrs (Node l (a, k, v) r) @ caddrs ds) \<Longrightarrow> h1 y = h y"
proof -
  obtain fs L where fs: "max_frames l = fs" and L: "l = plug fs (Node L (b, k', v') Leaf)" "l' = plug fs L"
    using split_max_plug[OF l sm] by blast
  let ?f = "InL (a, k', v') r"
  let ?X = "Node L (b, k', v') Leaf"
  obtain n where n: "p = a" "a \<noteq> NULL" "h a = Some n" "n_parent n = par" "n_left n = root_addr l"
    "is_tree h a (root_addr l) l" "is_tree h a (n_right n) r"
    by (rule is_tree_children[OF tr]) simp
  let ?h0 = "h(a \<mapsto> n\<lparr>n_key := Some k', n_val := Some v'\<rparr>)"
  have nz: "root_addr l \<noteq> NULL" using n(6) l by (rule is_tree_node)
  have "plug (fs @ ?f # ds) ?X = plug ds (Node l (a, k', v') r)" using L(1) by (simp add: plug_append)
  then have ad: "distinct (addrs ?X @ caddrs (fs @ ?f # ds))"
    "set (addrs ?X @ caddrs (fs @ ?f # ds)) = set (addrs (Node l (a, k, v) r) @ caddrs ds)"
    by (rule below_addrs[OF _ _ d], simp)+
  have z: "is_ctx ?h0 (at_root T) (?f # ds) (root_addr l) a" "is_tree ?h0 a (root_addr l) (plug fs ?X)"
    using ctx n d by (auto simp flip: L(1))
  then obtain c cs rn h1 h2 par0 where s: "fs @ ?f # ds = c # cs" "is_ctx ?h0 (at_root T) (c # cs) b (n_parent rn)"
    "?h0 b = Some rn" "b \<noteq> NULL \<and> n_key rn = Some k' \<and> n_val rn = Some v'" "update ?h0 (n_parent rn) (child_update c (n_left rn)) = Some h1"
    "(if n_left rn \<noteq> NULL then update h1 (n_left rn) (n_parent_update (\<lambda>_. n_parent rn)) else Some h1) = Some h2"
    "is_ctx h2 (at_root T) ds a par0" "is_tree h2 par0 a (plug1 ?f (plug fs L))" "same_links ?h0 h2"
    "\<And>y. y \<notin> set (addrs ?X @ caddrs (fs @ ?f # ds)) \<Longrightarrow> h2 y = ?h0 y"
    using ad(1) by (rule take_out[where M = L and b = b and child = n_left
      and P = "\<lambda>m. b \<noteq> NULL \<and> n_key m = Some k' \<and> n_val m = Some v'"]) (auto simp: addrs_def intro: that)
  have "a \<noteq> b" using ad by auto
  with s(3,4) have rn: "h b = Some rn" "b \<noteq> NULL" "n_key rn = Some k'" "n_val rn = Some v'" by auto
  have side: "(if n_parent rn = a then update ?h0 (n_parent rn) (n_left_update (\<lambda>_. n_left rn))
      else update ?h0 (n_parent rn) (n_right_update (\<lambda>_. n_left rn))) = Some h1"
  proof (cases fs)
    case Nil
    with s(1,2,5) show ?thesis by auto
  next
    case (Cons c' fs')
    then obtain l0 x0 where c': "c' = InR l0 x0" using max_frames_InR[of c' l] fs by auto
    with Cons s(1,2) ad have "n_parent rn \<noteq> a" by (cases x0) auto
    with Cons c' s(1,5) show ?thesis by auto
  qed
  have "remove_target h T p = dealloc_node h2 T b"
  proof -
    have "load h a = Some n" "(root_addr l \<noteq> NULL) = True" "rightmost h (root_addr l) = Some b" "load h b = Some rn"
      "update h a (n_key_update (\<lambda>_. n_key rn)) = Some (h(a \<mapsto> n\<lparr>n_key := Some k'\<rparr>))"
      "update (h(a \<mapsto> n\<lparr>n_key := Some k'\<rparr>)) a (n_val_update (\<lambda>_. n_val rn)) = Some ?h0"
      using n(2,3) nz rightmost_tree[OF n(6) l] sm rn by (simp_all add: heap_simps)
    then show ?thesis
      by (simp only: remove_target_def n(1,5) side s(6) Option.bind.bind_lunit if_True)
  qed
  moreover have "par0 = par" using s(7) ctx n(1) by (blast dest: is_ctx_par_unique)
  moreover have "same_links h h2" using s(9) n(3) by (auto intro: same_links_trans simp: same_links_def)
  moreover have "h2 y = h y" if "y \<notin> set (addrs (Node l (a, k, v) r) @ caddrs ds)" for y
    using that s(10)[of y] ad by auto
  ultimately show thesis using that[of h2] s(7,8) n(1) L(2) by simp
qed

lemma remove_right_spec:
  assumes ctx: "is_ctx h (at_root T) ds p par" and tr: "is_tree h par p (Node Leaf (a, k, v) r)"
    and d: "distinct (addrs (Node Leaf (a, k, v) r) @ caddrs ds)" and r: "r \<noteq> Leaf"
    and sm: "split_min r = (r', (b, k', v'))"
  obtains h1 where "remove_target h T p = dealloc_node h1 T b"
    "is_ctx h1 (at_root T) ds p par" "is_tree h1 par p (Node Leaf (a, k', v') r')" "same_links h h1"
    "\<And>y. y \<notin> set (addrs (Node Leaf (a, k, v) r) @ caddrs ds) \<Longrightarrow> h1 y = h y"
proof -
  obtain fs R where fs: "min_frames r = fs" and R: "r = plug fs (Node Leaf (b, k', v') R)" "r' = plug fs R"
    using split_min_plug[OF r sm] by blast
  let ?f = "InR Leaf (a, k', v')"
  let ?X = "Node Leaf (b, k', v') R"
  obtain n where n: "p = a" "a \<noteq> NULL" "h a = Some n" "n_parent n = par" "n_right n = root_addr r"
    "is_tree h a (root_addr r) r" "n_left n = NULL"
    by (rule is_tree_children[OF tr]) simp
  let ?h0 = "h(a \<mapsto> n\<lparr>n_key := Some k', n_val := Some v'\<rparr>)"
  have nz: "root_addr r \<noteq> NULL" using n(6) r by (rule is_tree_node)
  have "plug (fs @ ?f # ds) ?X = plug ds (Node Leaf (a, k', v') r)" using R(1) by (simp add: plug_append)
  then have ad: "distinct (addrs ?X @ caddrs (fs @ ?f # ds))"
    "set (addrs ?X @ caddrs (fs @ ?f # ds)) = set (addrs (Node Leaf (a, k, v) r) @ caddrs ds)"
    by (rule below_addrs[OF _ _ d], simp)+
  have z: "is_ctx ?h0 (at_root T) (?f # ds) (root_addr r) a" "is_tree ?h0 a (root_addr r) (plug fs ?X)"
    using ctx n d by (auto simp flip: R(1))
  then obtain c cs rn h1 h2 par0 where s: "fs @ ?f # ds = c # cs" "is_ctx ?h0 (at_root T) (c # cs) b (n_parent rn)"
    "?h0 b = Some rn" "b \<noteq> NULL \<and> n_key rn = Some k' \<and> n_val rn = Some v'" "update ?h0 (n_parent rn) (child_update c (n_right rn)) = Some h1"
    "(if n_right rn \<noteq> NULL then update h1 (n_right rn) (n_parent_update (\<lambda>_. n_parent rn)) else Some h1) = Some h2"
    "is_ctx h2 (at_root T) ds a par0" "is_tree h2 par0 a (plug1 ?f (plug fs R))" "same_links ?h0 h2"
    "\<And>y. y \<notin> set (addrs ?X @ caddrs (fs @ ?f # ds)) \<Longrightarrow> h2 y = ?h0 y"
    using ad(1) by (rule take_out[where M = R and b = b and child = n_right
      and P = "\<lambda>m. b \<noteq> NULL \<and> n_key m = Some k' \<and> n_val m = Some v'"]) (auto simp: addrs_def intro: that)
  have "a \<noteq> b" using ad by auto
  with s(3,4) have rn: "h b = Some rn" "b \<noteq> NULL" "n_key rn = Some k'" "n_val rn = Some v'" by auto
  have side: "(if n_parent rn = a then update ?h0 (n_parent rn) (n_right_update (\<lambda>_. n_right rn))
      else update ?h0 (n_parent rn) (n_left_update (\<lambda>_. n_right rn))) = Some h1"
  proof (cases fs)
    case Nil
    with s(1,2,5) show ?thesis by auto
  next
    case (Cons c' fs')
    then obtain x0 r0 where c': "c' = InL x0 r0" using min_frames_InL[of c' r] fs by auto
    with Cons s(1,2) ad have "n_parent rn \<noteq> a" by (cases x0) auto
    with Cons c' s(1,5) show ?thesis by auto
  qed
  have "remove_target h T p = dealloc_node h2 T b"
  proof -
    have "load h a = Some n" "(root_addr r \<noteq> NULL) = True" "(NULL \<noteq> NULL) = False"
      "leftmost h (root_addr r) = Some b" "load h b = Some rn"
      "update h a (n_key_update (\<lambda>_. n_key rn)) = Some (h(a \<mapsto> n\<lparr>n_key := Some k'\<rparr>))"
      "update (h(a \<mapsto> n\<lparr>n_key := Some k'\<rparr>)) a (n_val_update (\<lambda>_. n_val rn)) = Some ?h0"
      using n(2,3) nz leftmost_tree[OF n(6) r] sm rn by (simp_all add: heap_simps)
    then show ?thesis
      by (simp only: remove_target_def n(1,5,7) side s(6) Option.bind.bind_lunit if_True if_False)
  qed
  moreover have "par0 = par" using s(7) ctx n(1) by (blast dest: is_ctx_par_unique)
  moreover have "same_links h h2" using s(9) n(3) by (auto intro: same_links_trans simp: same_links_def)
  moreover have "h2 y = h y" if "y \<notin> set (addrs (Node Leaf (a, k, v) r) @ caddrs ds)" for y
    using that s(10)[of y] ad by auto
  ultimately show thesis using that[of h2] s(7,8) n(1) R(2) by simp
qed

lemma remove_leaf_spec:
  assumes ctx: "is_ctx h (at_root T) ds p par" and tr: "is_tree h par p (Node Leaf (a, k, v) Leaf)"
    and d: "distinct (addrs (Node Leaf (a, k, v) Leaf) @ caddrs ds)"
  obtains h1 T1 where "remove_target h T p = dealloc_node h1 T1 a"
    "is_ctx h1 (at_root T1) ds NULL par" "same_links h h1" "at_first T1 = at_first T" "at_prev T1 = at_prev T"
    "\<And>y. y \<notin> set (addrs (Node Leaf (a, k, v) Leaf) @ caddrs ds) \<Longrightarrow> h1 y = h y"
proof -
  from tr obtain n where n: "p = a" "a \<noteq> NULL" "h a = Some n" "n_parent n = par" "n_left n = NULL" "n_right n = NULL"
    by auto
  show thesis
  proof (cases ds)
    case Nil
    with ctx n have "at_root T = a" "par = NULL" by auto
    with n Nil that[of h "T\<lparr>at_root := NULL\<rparr>"] show thesis
      by (simp add: remove_target_def heap_simps)
  next
    case (Cons c cs)
    have "is_tree h par NULL Leaf" "distinct (addrs (Leaf :: ('a, 'b) ltree) @ caddrs (c # cs))"
      using d Cons by auto
    then obtain h1 h2 where s: "update h par (child_update c NULL) = Some h1" "Some h1 = Some h2"
      "is_ctx h2 (at_root T) (c # cs) NULL par" "same_links h h2"
      "\<And>y. y \<notin> set (addrs (Leaf :: ('a, 'b) ltree) @ caddrs (c # cs)) \<Longrightarrow> h2 y = h y"
      using splice[OF ctx[unfolded Cons], of par NULL Leaf] by (metis (full_types))
    have root: "a \<noteq> at_root T" using is_ctx_root[OF ctx] Cons d by auto
    have "\<exists>m. load h par = Some m \<and>
      (if n_left m = a then update h par (n_left_update (\<lambda>_. NULL))
       else update h par (n_right_update (\<lambda>_. NULL))) = update h par (child_update c NULL)"
    proof (cases "(h, at_root T, ds, p, par)" rule: is_ctx.cases)
      case 1
      with Cons show ?thesis by simp
    next
      case (2 h' root b bk bv r cs')
      with ctx Cons n(1) show ?thesis by (auto simp: load_def)
    next
      case (3 h' root l b bk bv cs')
      with ctx obtain m where m: "par = b" "b \<noteq> NULL" "h b = Some m" "is_tree h b (n_left m) l" by auto
      have "n_left m \<noteq> a"
      proof (cases "l = Leaf")
        case True
        with m(4) n(2) show ?thesis by simp
      next
        case False
        then have "root_addr l \<in> set (caddrs ds)" using 3 root_addr_in[of l] by auto
        with d show ?thesis using is_tree_root[OF m(4)] by auto
      qed
      with 3 m Cons show ?thesis by (auto simp: load_def)
    qed
    then have "remove_target h T p = dealloc_node h1 T a"
      using n root s(1) by (auto simp: remove_target_def heap_simps)
    with s Cons that[of h1 T] d show thesis by auto
  qed
qed


lemma remove_target_spec:
  assumes ctx: "is_ctx h (at_root T) ds p par" and tr: "is_tree h par p (Node l (a, k, v) r)"
    and d: "distinct (addrs (Node l (a, k, v) r) @ caddrs ds)"
    and ch: "chain h (at_first T) ns (at_prev T)" "distinct ns"
    and S: "set ns = set (addrs (Node l (a, k, v) r) @ caddrs ds)"
  obtains h' T' q where "remove_target h T p = Some (h', T')" "is_ctx h' (at_root T') ds q par"
    "is_tree h' par q (fst (del_root (Node l (a, k, v) r)))"
    "chain h' (at_first T') (remove1 (snd (del_root (Node l (a, k, v) r))) ns) (at_prev T')"
    "h' (snd (del_root (Node l (a, k, v) r))) = None" "\<And>y. y \<notin> set ns \<Longrightarrow> h' y = h y"
proof -
  let ?u = "Node l (a, k, v) r"
  let ?b = "snd (del_root ?u)"
  have "distinct (addrs ?u)" using d by (simp only: distinct_append)
  note dr = del_root_addrs[OF this]
  then have b: "?b \<in> set ns" "?b \<notin> set (addrs (fst (del_root ?u)))" "?b \<notin> set (caddrs ds)"
    using S d by auto
  obtain h1 T1 q where 1: "remove_target h T p = dealloc_node h1 T1 ?b"
    "is_ctx h1 (at_root T1) ds q par" "is_tree h1 par q (fst (del_root ?u))" "same_links h h1"
    "at_first T1 = at_first T" "at_prev T1 = at_prev T" "\<And>y. y \<notin> set (addrs ?u @ caddrs ds) \<Longrightarrow> h1 y = h y"
  proof -
    consider (left) l' b k' v' where "l \<noteq> Leaf" "split_max l = (l', (b, k', v'))"
      | (right) r' b k' v' where "l = Leaf" "r \<noteq> Leaf" "split_min r = (r', (b, k', v'))"
      | (leaf) "l = Leaf" "r = Leaf"
      by (metis prod_cases3 surj_pair)
    then show thesis
    proof cases
      case left
      obtain h1 where "remove_target h T p = dealloc_node h1 T b" "is_ctx h1 (at_root T) ds p par"
        "is_tree h1 par p (Node l' (a, k', v') r)" "same_links h h1"
        "\<And>y. y \<notin> set (addrs ?u @ caddrs ds) \<Longrightarrow> h1 y = h y"
        by (rule remove_left_spec[OF ctx tr d left]) (rule that)
      with left show thesis by (intro that[of h1 T p]) (simp_all add: del_root_def)
    next
      case right
      note tr' = tr[unfolded right(1)] and d' = d[unfolded right(1)]
      obtain h1 where "remove_target h T p = dealloc_node h1 T b" "is_ctx h1 (at_root T) ds p par"
        "is_tree h1 par p (Node Leaf (a, k', v') r')" "same_links h h1"
        "\<And>y. y \<notin> set (addrs (Node Leaf (a, k, v) r) @ caddrs ds) \<Longrightarrow> h1 y = h y"
        by (rule remove_right_spec[OF ctx tr' d' right(2,3)]) (rule that)
      with right show thesis by (intro that[of h1 T p]) (simp_all add: del_root_def)
    next
      case leaf
      note tr' = tr[unfolded leaf] and d' = d[unfolded leaf]
      obtain h1 T1 where "remove_target h T p = dealloc_node h1 T1 a"
        "is_ctx h1 (at_root T1) ds NULL par" "same_links h h1" "at_first T1 = at_first T" "at_prev T1 = at_prev T"
        "\<And>y. y \<notin> set (addrs (Node Leaf (a, k, v) Leaf) @ caddrs ds) \<Longrightarrow> h1 y = h y"
        by (rule remove_leaf_spec[OF ctx tr' d']) (rule that)
      with leaf show thesis by (intro that[of h1 T1 NULL]) (simp_all add: del_root_def)
    qed
  qed
  from 1(7) S have fr: "\<And>y. y \<notin> set ns \<Longrightarrow> h1 y = h y" by simp
  show thesis
    by (rule dealloc_unlinked[OF 1(2-6) ch b fr]) (simp_all add: that 1(1))
qed

lemma deleted_nodes:
  assumes rep: "avl_rep h T t ns" and pt: "path cmp k t [] = (ds, u)" and u: "u \<noteq> Leaf"
  shows "distinct (addrs (fst (del_root u)) @ caddrs ds)" "snd (del_root u) \<in> set ns"
    "set (remove1 (snd (del_root u)) ns) = set (addrs (fst (del_root u)) @ caddrs ds)"
proof -
  from path_plug[OF pt] have t: "t = plug ds u" by simp
  have d: "distinct (addrs u @ caddrs ds)" "distinct ns" and S: "set ns = set (addrs u @ caddrs ds)"
    using rep distinct_plug[of ds u] set_addrs_plug[of ds u] by (auto simp: avl_rep_def t)
  obtain l a k v r where n: "u = Node l (a, k, v) r" using u by (cases u) auto
  have "distinct (addrs u)" using d(1) by (simp only: distinct_append)
  note dr = del_root_addrs[OF this[unfolded n], folded n]
  show "distinct (addrs (fst (del_root u)) @ caddrs ds)" using dr d by auto
  show "snd (del_root u) \<in> set ns" using dr S by simp
  show "set (remove1 (snd (del_root u)) ns) = set (addrs (fst (del_root u)) @ caddrs ds)"
    using dr S d by auto
qed

lemma deleted_rep:
  assumes rep: "avl_rep h T t ns" and pt: "path cmp k t [] = (ds, u)" and u: "u \<noteq> Leaf"
    and tr: "is_tree h' NULL (at_root T') (del cmp k t)"
    and ch: "chain h' (at_first T') (remove1 (snd (del_root u)) ns) (at_prev T')"
  shows "avl_rep h' T' (del cmp k t) (remove1 (snd (del_root u)) ns)"
proof -
  note dn = deleted_nodes[OF rep pt u]
  have "addrs (del cmp k t) = addrs (plug ds (fst (del_root u)))"
    using pt u by (simp add: addrs_def del_def split: list.split tree.split)
  moreover have "distinct ns" using rep by (simp add: avl_rep_def)
  ultimately show ?thesis
    using tr ch dn distinct_plug[of ds "fst (del_root u)"] set_addrs_plug[of ds "fst (del_root u)"]
    by (simp add: avl_rep_def del: set_remove1_eq)
qed

theorem avltree_delete_node_rep:
  assumes rep: "avl_rep h T t ns" and pt: "path cmp k t [] = (ds, Node l (a, nk, v) r)"
  obtains h' T' where "avltree_delete_node cmp h T k = Some (h', T', Some v)"
    "avl_rep h' T' (del cmp k t) (remove1 (snd (del_root (Node l (a, nk, v) r))) ns)"
    "h' (snd (del_root (Node l (a, nk, v) r))) = None" "snd (del_root (Node l (a, nk, v) r)) \<in> set ns"
    "\<And>y. y \<notin> set ns \<Longrightarrow> h' y = h y"
proof -
  note goal = that
  let ?u = "Node l (a, nk, v) r"
  let ?u' = "fst (del_root ?u)" and ?b = "snd (del_root ?u)"
  from path_plug[OF pt] have t: "t = plug ds ?u" by simp
  from rep have tr: "is_tree h NULL (at_root T) t" and ch: "chain h (at_first T) ns (at_prev T)" "distinct ns"
    by (auto simp: avl_rep_def)
  have d: "distinct (addrs ?u @ caddrs ds)" and S: "set ns = set (addrs ?u @ caddrs ds)"
    using rep distinct_plug[of ds ?u] set_addrs_plug[of ds ?u] by (auto simp: avl_rep_def t)
  have "is_ctx h (at_root T) [] (at_root T) NULL" by simp
  from path_ctx[OF this tr pt] obtain p par where z: "is_ctx h (at_root T) ds p par" "is_tree h par p ?u" by auto
  have look: "lookup_loop cmp h k (at_root T) = Some p"
    using lookup_loop_path[OF tr, of cmp k "[]"] pt is_tree_root[OF z(2)] by simp
  from z(2) obtain n where n: "p \<noteq> NULL" "h p = Some n" "n_parent n = par" "n_val n = Some v" by auto
  obtain h1 T1 q where 1: "remove_target h T p = Some (h1, T1)" "is_ctx h1 (at_root T1) ds q par"
    "is_tree h1 par q ?u'" "chain h1 (at_first T1) (remove1 ?b ns) (at_prev T1)" "h1 ?b = None"
    "\<And>y. y \<notin> set ns \<Longrightarrow> h1 y = h y"
    by (rule remove_target_spec[OF z d ch S]) (rule that)
  have nl: "?u \<noteq> Leaf" by simp
  note d' = deleted_nodes(1)[OF rep pt nl] and b = deleted_nodes(2)[OF rep pt nl]
    and S' = deleted_nodes(3)[OF rep pt nl]
  have del: "del cmp k t = (case ds of [] \<Rightarrow> ?u' | c # cs \<Rightarrow> rebal_up cs (plug1 c ?u'))"
    using pt by (simp add: del_def)
  have run: "avltree_delete_node cmp h T k
      = Option.bind (if par \<noteq> NULL then rebalance h1 T1 par else Some (h1, T1)) (\<lambda>(h, T). Some (h, T, Some v))"
    using look n 1(1) by (simp add: avltree_delete_node_def heap_simps)
  note rest = goal[OF _ deleted_rep[OF rep pt nl] _ b]
  show thesis
  proof (cases ds)
    case Nil
    with 1 z run del show thesis by (intro rest[of h1 T1]) auto
  next
    case (Cons c cs)
    with is_ctx_par[OF z(1)] have par: "par \<noteq> NULL" by auto
    obtain m where m: "h1 par = Some m" and
      up: "is_ctx h1 (at_root T1) cs par (n_parent m)" "is_tree h1 (n_parent m) par (plug1 c ?u')"
      using 1(2)[unfolded Cons] 1(3) by (rule ctx_plug1)
    have dc: "distinct (addrs (plug1 c ?u') @ caddrs cs)" 
      and sc: "set (addrs (plug1 c ?u') @ caddrs cs) = set (addrs ?u' @ caddrs ds)"
      using d' by (cases c; auto simp: Cons)+
    obtain h2 T2 where 2: "rebalance_loop h1 T1 (n_parent m) = Some (h2, T2)"
      "is_tree h2 NULL (at_root T2) (rebal_up cs (plug1 c ?u'))"
      "keeps (set (addrs (plug1 c ?u') @ caddrs cs)) h1 T1 h2 T2"
      by (rule rebalance_loop_spec[OF up dc]) (rule that)
    have kp: "keeps (set (remove1 ?b ns)) h1 T1 h2 T2" using 2(3) unfolding sc S' .
    have "avltree_delete_node cmp h T k = Some (h2, T2, Some v)"
      using run par m 2(1) by (simp add: rebalance_def heap_simps)
    moreover have "is_tree h2 NULL (at_root T2) (del cmp k t)" using 2(2) del Cons by simp
    moreover have "chain h2 (at_first T2) (remove1 ?b ns) (at_prev T2)"
      using kp dseg_same_links[OF _ 1(4)] by (simp add: keeps_def)
    moreover have "h2 ?b = None" using kp 1(5) ch(2) by (simp add: keeps_def)
    moreover have "h2 y = h y" if "y \<notin> set ns" for y
      using that kp 1(6) ch(2) by (simp add: keeps_def)
    ultimately show thesis by (rule rest)
  qed
qed

theorem avltree_delete_node_missing:
  assumes "avl_rep h T t ns" "snd (path cmp k t []) = Leaf"
  shows "avltree_delete_node cmp h T k = Some (h, T, None)"
  using lookup_loop_path[of h NULL "at_root T" t cmp k "[]"] assms
  by (simp add: avl_rep_def avltree_delete_node_def)

section \<open>Disposal\<close>

lemma avltree_free_loop_chain:
  "dseg n_prev n_next (\<lambda>_. ()) h p x (map (\<lambda>a. (a, ())) ns) l NULL \<Longrightarrow> distinct ns \<Longrightarrow>
   avltree_free_loop h x = Some (\<lambda>y. if y \<in> set ns then None else h y)"
proof (induction ns arbitrary: h p x)
  case Nil
  then show ?case by (subst avltree_free_loop.simps) simp
next
  case (Cons a ns)
  then obtain n where n: "x = a" "a \<noteq> NULL" "h a = Some n"
    "dseg n_prev n_next (\<lambda>_. ()) h a (n_next n) (map (\<lambda>a. (a, ())) ns) l NULL" by auto
  have dn: "distinct ns" using Cons.prems(2) by simp
  have "dseg n_prev n_next (\<lambda>_. ()) (h(a := None)) a (n_next n) (map (\<lambda>a. (a, ())) ns) l NULL"
    using n(4) Cons.prems(2) by (intro dseg_frame) auto
  from Cons.IH[OF this dn]
  have "avltree_free_loop (h(a := None)) (n_next n) = Some (\<lambda>y. if y \<in> set ns then None else (h(a := None)) y)" .
  also have "(\<lambda>y. if y \<in> set ns then None else (h(a := None)) y) = (\<lambda>y. if y \<in> set (a # ns) then None else h y)"
    by auto
  finally show ?case using n by (subst avltree_free_loop.simps) (simp add: heap_simps del: fun_upd_apply)
qed

theorem avltree_free_rep:
  "avl_rep h T t ns \<Longrightarrow> avltree_free h T = Some (\<lambda>y. if y \<in> set ns then None else h y)"
  unfolding avltree_free_def avl_rep_def by (elim conjE) (rule avltree_free_loop_chain)

end
