(* ===== verification/OrderedMap.thy ===== *)
theory OrderedMap
  imports LinkedList AvlDelete
begin

text \<open>
  The ordered map of src/src/util/ordered_map.c: a linked list that keeps the order and a tree
  that finds an entry by key, tied together by heap-allocated map items.  The operations are the
  C functions on three heaps (map items, list items, tree nodes); map_rep relates the heaps to
  the list of (key, value) pairs in order, and every operation is proved to act on that list.
\<close>

section \<open>Data\<close>

record ('k, 'v) ordered_map_item =
  omi_key :: 'k
  omi_value :: 'v
  omi_list_item :: addr

record ('k, 'v) store =
  items :: "('k, 'v) ordered_map_item heap"
  links :: "addr list_item heap"
  nodes :: "('k, addr) nodes"

record 'k ordered_map =
  om_cmpfunc :: "'k \<Rightarrow> 'k \<Rightarrow> int"
  om_tree :: avltree
  om_list :: linked_list

section \<open>Operations\<close>

text \<open>
  An operation that allocates takes the addresses of the new map item, list item and tree node.
  Map items are handed around as pointers; a lookup that fails is None, the null pointer of C.
\<close>

definition ordered_map_new :: "('k, 'v) store \<Rightarrow> ('k \<Rightarrow> 'k \<Rightarrow> int) \<Rightarrow> 'k ordered_map option" where
  "ordered_map_new s cmpfunc = do {
     list \<leftarrow> linked_list_new (links s);
     Some \<lparr>om_cmpfunc = cmpfunc, om_tree = avltree_new, om_list = list\<rparr> }"

definition tree_add :: "('k, 'v) store \<Rightarrow> 'k ordered_map \<Rightarrow> 'k \<Rightarrow> addr \<Rightarrow> addr \<Rightarrow>
    (('k, 'v) store \<times> 'k ordered_map \<times> int) option" where
  "tree_add s om key omi node = do {
     (h, tree, err) \<leftarrow> avltree_add_node (om_cmpfunc om) (nodes s) (om_tree om) key omi node;
     c_assert (err = 0);
     Some (s\<lparr>nodes := h\<rparr>, om\<lparr>om_tree := tree\<rparr>, err) }"

definition ordered_map_add_item_tail ::
  "('k, 'v) store \<Rightarrow> 'k ordered_map \<Rightarrow> 'k \<Rightarrow> 'v \<Rightarrow> addr \<Rightarrow> addr \<Rightarrow> addr \<Rightarrow>
   (('k, 'v) store \<times> 'k ordered_map \<times> int) option" where
  "ordered_map_add_item_tail s om key val omi li node = do {
     found \<leftarrow> avltree_lookup (om_cmpfunc om) (nodes s) (om_tree om) key;
     (if found \<noteq> None then Some (s, om, -1)
      else do {
        (h, list, li) \<leftarrow> linked_list_add_item_tail (links s) (om_list om) omi li;
        let s = s\<lparr>links := h, items := (items s)(omi \<mapsto>
                  \<lparr>omi_key = key, omi_value = val, omi_list_item = li\<rparr>)\<rparr>;
        tree_add s (om\<lparr>om_list := list\<rparr>) key omi node }) }"

definition ordered_map_add_item_head ::
  "('k, 'v) store \<Rightarrow> 'k ordered_map \<Rightarrow> 'k \<Rightarrow> 'v \<Rightarrow> addr \<Rightarrow> addr \<Rightarrow> addr \<Rightarrow>
   (('k, 'v) store \<times> 'k ordered_map \<times> int) option" where
  "ordered_map_add_item_head s om key val omi li node = do {
     found \<leftarrow> avltree_lookup (om_cmpfunc om) (nodes s) (om_tree om) key;
     (if found \<noteq> None then Some (s, om, -1)
      else do {
        (h, list, li) \<leftarrow> linked_list_add_item_head (links s) (om_list om) omi li;
        let s = s\<lparr>links := h, items := (items s)(omi \<mapsto>
                  \<lparr>omi_key = key, omi_value = val, omi_list_item = li\<rparr>)\<rparr>;
        tree_add s (om\<lparr>om_list := list\<rparr>) key omi node }) }"

text \<open>The part the three remove functions share, once the item and its list item are known.\<close>

definition unlink_item :: "('k, 'v) store \<Rightarrow> 'k ordered_map \<Rightarrow> 'k \<Rightarrow> addr \<Rightarrow> addr \<Rightarrow>
    (('k, 'v) store \<times> 'k ordered_map) option" where
  "unlink_item s om key omi li = do {
     (hn, tree, _) \<leftarrow> avltree_delete_node (om_cmpfunc om) (nodes s) (om_tree om) key;
     (hl, list, _) \<leftarrow> linked_list_remove_item (links s) (om_list om) li;
     hi \<leftarrow> dealloc (items s) omi;
     Some (\<lparr>items = hi, links = hl, nodes = hn\<rparr>, om\<lparr>om_tree := tree, om_list := list\<rparr>) }"

definition ordered_map_remove_item ::
  "('k, 'v) store \<Rightarrow> 'k ordered_map \<Rightarrow> 'k \<Rightarrow> (('k, 'v) store \<times> 'k ordered_map \<times> 'v option) option" where
  "ordered_map_remove_item s om key = do {
     found \<leftarrow> avltree_lookup (om_cmpfunc om) (nodes s) (om_tree om) key;
     (case found of
        None \<Rightarrow> Some (s, om, None)
      | Some omi \<Rightarrow> do {
          it \<leftarrow> load (items s) omi;
          (s, om) \<leftarrow> unlink_item s om key omi (omi_list_item it);
          Some (s, om, Some (omi_value it)) }) }"

definition ordered_map_remove_head ::
  "('k, 'v) store \<Rightarrow> 'k ordered_map \<Rightarrow> (('k, 'v) store \<times> 'k ordered_map \<times> 'v option) option" where
  "ordered_map_remove_head s om =
     (if ll_count (om_list om) = 0 then Some (s, om, None)
      else do {
        let li = ll_head (om_list om);
        l \<leftarrow> load (links s) li;
        let omi = li_data l;
        it \<leftarrow> load (items s) omi;
        c_assert (omi_list_item it = li);
        (s, om) \<leftarrow> unlink_item s om (omi_key it) omi li;
        Some (s, om, Some (omi_value it)) })"

definition ordered_map_remove_tail ::
  "('k, 'v) store \<Rightarrow> 'k ordered_map \<Rightarrow> (('k, 'v) store \<times> 'k ordered_map \<times> 'v option) option" where
  "ordered_map_remove_tail s om =
     (if ll_count (om_list om) = 0 then Some (s, om, None)
      else do {
        let li = ll_tail (om_list om);
        l \<leftarrow> load (links s) li;
        let omi = li_data l;
        it \<leftarrow> load (items s) omi;
        c_assert (omi_list_item it = li);
        (s, om) \<leftarrow> unlink_item s om (omi_key it) omi li;
        Some (s, om, Some (omi_value it)) })"

definition ordered_map_size :: "'k ordered_map \<Rightarrow> int" where
  "ordered_map_size om = ll_count (om_list om)"

definition ordered_map_lookup :: "('k, 'v) store \<Rightarrow> 'k ordered_map \<Rightarrow> 'k \<Rightarrow> 'v option option" where
  "ordered_map_lookup s om key = do {
     found \<leftarrow> avltree_lookup (om_cmpfunc om) (nodes s) (om_tree om) key;
     (case found of
        None \<Rightarrow> Some None
      | Some omi \<Rightarrow> do { it \<leftarrow> load (items s) omi; Some (Some (omi_value it)) }) }"

definition ordered_map_make_item_head ::
  "('k, 'v) store \<Rightarrow> 'k ordered_map \<Rightarrow> 'k \<Rightarrow> (('k, 'v) store \<times> 'k ordered_map \<times> int) option" where
  "ordered_map_make_item_head s om key = do {
     found \<leftarrow> avltree_lookup (om_cmpfunc om) (nodes s) (om_tree om) key;
     (case found of
        None \<Rightarrow> Some (s, om, -1)
      | Some omi \<Rightarrow> do {
          it \<leftarrow> load (items s) omi;
          (h, list) \<leftarrow> linked_list_make_item_head (links s) (om_list om) (omi_list_item it);
          Some (s\<lparr>links := h\<rparr>, om\<lparr>om_list := list\<rparr>, 0) }) }"

partial_function (option) ordered_map_free_loop ::
  "('k, 'v) store \<Rightarrow> 'k ordered_map \<Rightarrow> (('k, 'v) store \<times> 'k ordered_map) option" where
  "ordered_map_free_loop s om =
     (if ordered_map_size om > 0 then do {
        r \<leftarrow> ordered_map_remove_tail s om;
        ordered_map_free_loop (fst r) (fst (snd r)) }
      else Some (s, om))"

definition ordered_map_free :: "('k, 'v) store \<Rightarrow> 'k ordered_map \<Rightarrow> ('k, 'v) store option" where
  "ordered_map_free s om = do {
     (s, om) \<leftarrow> ordered_map_free_loop s om;
     linked_list_free (links s) (om_list om);
     h \<leftarrow> avltree_free (nodes s) (om_tree om);
     Some (s\<lparr>nodes := h\<rparr>) }"

text \<open>The null pointer as argument starts an iteration; the null pointer as result ends it.\<close>

definition ordered_map_iterate :: "('k, 'v) store \<Rightarrow> 'k ordered_map \<Rightarrow> addr \<Rightarrow> addr option" where
  "ordered_map_iterate s om omi =
     (if omi = NULL then
        (let li = ll_head (om_list om)
         in if li \<noteq> NULL then do { l \<leftarrow> load (links s) li; Some (li_data l) } else Some NULL)
      else do {
        it \<leftarrow> load (items s) omi;
        c \<leftarrow> load (links s) (omi_list_item it);
        (let li = li_next c
         in if li \<noteq> NULL then do { l \<leftarrow> load (links s) li; Some (li_data l) } else Some NULL) })"

section \<open>Representation\<close>

text \<open>An entry is (address of the list item, address of the map item, key, value).\<close>

type_synonym ('k, 'v) entry = "addr \<times> addr \<times> 'k \<times> 'v"

abbreviation cell_of :: "('k, 'v) entry \<Rightarrow> addr \<times> addr" where
  "cell_of e \<equiv> (fst e, fst (snd e))"

abbreviation key_item :: "('k, 'v) entry \<Rightarrow> 'k \<times> addr" where
  "key_item e \<equiv> (fst (snd (snd e)), fst (snd e))"

abbreviation key_value :: "('k, 'v) entry \<Rightarrow> 'k \<times> 'v" where
  "key_value e \<equiv> snd (snd e)"

abbreviation item_of :: "('k, 'v) entry \<Rightarrow> ('k, 'v) ordered_map_item" where
  "item_of e \<equiv> \<lparr>omi_key = fst (snd (snd e)), omi_value = snd (snd (snd e)), omi_list_item = fst e\<rparr>"

definition items_rep :: "('k, 'v) ordered_map_item heap \<Rightarrow> ('k, 'v) entry list \<Rightarrow> bool" where
  "items_rep h es \<longleftrightarrow> (\<forall>e \<in> set es. fst (snd e) \<noteq> NULL \<and> h (fst (snd e)) = Some (item_of e)) \<and>
     distinct (map (fst \<circ> snd) es)"

definition tree_rep :: "('k, addr) nodes \<Rightarrow> 'k ordered_map \<Rightarrow> ('k, 'v) entry list \<Rightarrow> addr list \<Rightarrow> bool" where
  "tree_rep h om es ns \<longleftrightarrow> (\<exists>t. avl_rep h (om_tree om) t ns \<and> bst (om_cmpfunc om) t \<and>
     map_of (kvs t) = map_of (map key_item es))"

definition map_rep :: "('k, 'v) store \<Rightarrow> 'k ordered_map \<Rightarrow> ('k, 'v) entry list \<Rightarrow> addr list \<Rightarrow> bool" where
  "map_rep s om es ns \<longleftrightarrow> comparator (om_cmpfunc om) \<and> distinct (map (fst \<circ> snd \<circ> snd) es) \<and>
     items_rep (items s) es \<and> dlist_rep (links s) (om_list om) (map cell_of es) \<and>
     tree_rep (nodes s) om es ns"

text \<open>Three addresses that malloc() may return.\<close>

definition fresh3 :: "('k, 'v) store \<Rightarrow> addr \<Rightarrow> addr \<Rightarrow> addr \<Rightarrow> bool" where
  "fresh3 s omi li node \<longleftrightarrow> fresh (items s) omi \<and> fresh (links s) li \<and> fresh (nodes s) node"

section \<open>The entries\<close>

abbreviation key_of :: "('k, 'v) entry \<Rightarrow> 'k" where
  "key_of e \<equiv> fst (snd (snd e))"

abbreviation keys :: "('k, 'v) entry list \<Rightarrow> 'k list" where
  "keys es \<equiv> map (fst \<circ> snd \<circ> snd) es"

lemma key_item_None: "k \<notin> set (keys es) \<Longrightarrow> map_of (map key_item es) k = None"
  by (induction es) auto

lemma key_item_Some: "distinct (keys es) \<Longrightarrow> e \<in> set es \<Longrightarrow> map_of (map key_item es) (key_of e) = Some (fst (snd e))"
  by (induction es) force+

lemma key_value_Some: "distinct (keys es) \<Longrightarrow> e \<in> set es \<Longrightarrow> map_of (map key_value es) (key_of e) = Some (snd (snd (snd e)))"
  by (induction es) force+

lemma key_value_None: "k \<notin> set (keys es) \<Longrightarrow> map_of (map key_value es) k = None"
  by (induction es) auto

lemma keys_cases:
  obtains "k \<notin> set (keys es)" | e where "e \<in> set es" "key_of e = k"
proof (cases "k \<in> set (keys es)")
  case True
  then obtain e where "e \<in> set es" "k = key_of e" by (auto simp only: set_map image_iff comp_apply)
  with that(2) show thesis by simp
qed (rule that(1))

lemma key_item_snoc:
  "k \<notin> set (keys es) \<Longrightarrow> map_of (map key_item (es @ [(l, m, k, v)])) = (map_of (map key_item es))(k \<mapsto> m)"
  by (auto simp: map_add_def fun_eq_iff key_item_None split: option.split)

lemma key_item_remove:
  assumes "distinct (keys (ys @ e # zs))"
  shows "map_of (map key_item (ys @ zs)) = (map_of (map key_item (ys @ e # zs)))(key_of e := None)"
proof -
  from assms have "key_of e \<notin> set (keys ys)" "key_of e \<notin> set (keys zs)" by auto
  then show ?thesis by (auto simp: fun_eq_iff map_add_def key_item_None split: option.split)
qed

lemma items_rep_frame: "items_rep h es \<Longrightarrow> a \<notin> fst ` snd ` set es \<Longrightarrow> items_rep (h(a := c)) es"
  by (auto simp: items_rep_def image_iff)

section \<open>The tree\<close>

lemma tree_rep_lookup:
  "tree_rep h om es ns \<Longrightarrow> comparator (om_cmpfunc om) \<Longrightarrow>
   avltree_lookup (om_cmpfunc om) h (om_tree om) k = Some (map_of (map key_item es) k)"
  by (auto simp: tree_rep_def avltree_lookup_rep)

lemma tree_rep_cong:
  "tree_rep h om es ns \<Longrightarrow> om_tree om' = om_tree om \<Longrightarrow> om_cmpfunc om' = om_cmpfunc om \<Longrightarrow>
   map_of (map key_item es') = map_of (map key_item es) \<Longrightarrow> tree_rep h om' es' ns"
  by (simp add: tree_rep_def)

lemma tree_add_rep:
  assumes tr: "tree_rep (nodes s) om es ns" and cmp: "comparator (om_cmpfunc om)"
    and k: "k \<notin> set (keys es)" and new: "fresh (nodes s) node"
    and es': "map_of (map key_item es') = (map_of (map key_item es))(k \<mapsto> omi)"
  obtains h tree where "tree_add s om k omi node = Some (s\<lparr>nodes := h\<rparr>, om\<lparr>om_tree := tree\<rparr>, 0)"
    "tree_rep h (om\<lparr>om_tree := tree\<rparr>) es' (ns @ [node])"
    "\<And>y. y \<notin> insert node (set ns) \<Longrightarrow> h y = nodes s y"
proof -
  let ?cmp = "om_cmpfunc om"
  from tr obtain t where t: "avl_rep (nodes s) (om_tree om) t ns" "bst ?cmp t" "map_of (kvs t) = map_of (map key_item es)"
    by (auto simp: tree_rep_def)
  have kt: "k \<notin> fst ` set (kvs t)" using key_item_None[OF k] t(3) by (simp add: map_of_eq_None_iff[symmetric])
  then have "snd (path ?cmp k t []) = Leaf" using comparator.path_Leaf_iff[OF cmp t(2)] by simp
  then obtain h tree where 1: "avltree_add_node ?cmp (nodes s) (om_tree om) k omi node = Some (h, tree, 0)"
    "avl_rep h tree (ins ?cmp (node, k, omi) t) (ns @ [node])" "\<And>y. y \<notin> insert node (set ns) \<Longrightarrow> h y = nodes s y"
    by (rule avltree_add_node_rep[OF t(1) new]) (rule that)
  have "bst ?cmp (ins ?cmp (node, k, omi) t)"
    using comparator.ins_bst[OF cmp t(2), of "(node, k, omi)"] kt by simp
  moreover have "map_of (kvs (ins ?cmp (node, k, omi) t)) = map_of (map key_item es')"
    using comparator.map_of_ins[OF cmp t(2) kt] t(3) es' by simp
  ultimately have "tree_rep h (om\<lparr>om_tree := tree\<rparr>) es' (ns @ [node])"
    using 1(2) by (auto simp: tree_rep_def)
  then show thesis by (intro that[of h tree]) (use 1(1,3) in \<open>simp_all add: tree_add_def\<close>)
qed

lemma tree_delete_rep:
  assumes tr: "tree_rep h om es ns" and cmp: "comparator (om_cmpfunc om)"
    and e: "es = ys @ e # zs" and d: "distinct (keys es)"
  obtains h' tree b m where
    "avltree_delete_node (om_cmpfunc om) h (om_tree om) (key_of e) = Some (h', tree, m)"
    "b \<in> set ns" "h' b = None" "tree_rep h' (om\<lparr>om_tree := tree\<rparr>) (ys @ zs) (remove1 b ns)"
    "\<And>y. y \<notin> set ns \<Longrightarrow> h' y = h y"
proof -
  let ?cmp = "om_cmpfunc om" and ?k = "key_of e"
  from tr obtain t where t: "avl_rep h (om_tree om) t ns" "bst ?cmp t" "map_of (kvs t) = map_of (map key_item es)"
    by (auto simp: tree_rep_def)
  have "map_of (kvs t) ?k \<noteq> None" using key_item_Some[OF d, of e] e t(3) by simp
  then have "?k \<in> fst ` set (kvs t)" by (simp add: map_of_eq_None_iff)
  then have "snd (path ?cmp ?k t []) \<noteq> Leaf" using comparator.path_Leaf_iff[OF cmp t(2)] by simp
  then obtain ds l a nk v r where "path ?cmp ?k t [] = (ds, Node l (a, nk, v) r)"
    by (metis prod_cases3 surj_pair tree.exhaust snd_conv)
  then obtain h' tree b where 1: "avltree_delete_node ?cmp h (om_tree om) ?k = Some (h', tree, Some v)"
    "avl_rep h' tree (del ?cmp ?k t) (remove1 b ns)" "h' b = None" "b \<in> set ns" "\<And>y. y \<notin> set ns \<Longrightarrow> h' y = h y"
    by (rule avltree_delete_node_rep[OF t(1)]) (rule that)
  have "map_of (kvs (del ?cmp ?k t)) = map_of (map key_item (ys @ zs))"
    using comparator.map_of_del[OF cmp t(2)] t(3) key_item_remove[of ys e zs] d e by simp
  moreover have "bst ?cmp (del ?cmp ?k t)" by (rule comparator.del_bst[OF cmp t(2)])
  ultimately have "tree_rep h' (om\<lparr>om_tree := tree\<rparr>) (ys @ zs) (remove1 b ns)"
    using 1(2) by (auto simp: tree_rep_def)
  with 1 that show thesis by blast
qed

section \<open>Operations on the map\<close>

theorem ordered_map_new_rep:
  assumes "comparator cmpfunc"
  obtains om where "ordered_map_new s cmpfunc = Some om" "map_rep s om [] []"
proof
  let ?om = "\<lparr>om_cmpfunc = cmpfunc, om_tree = avltree_new, om_list = \<lparr>ll_head = NULL, ll_tail = NULL, ll_count = 0\<rparr>\<rparr>"
  have "linked_list_new (links s) = Some \<lparr>ll_head = NULL, ll_tail = NULL, ll_count = 0\<rparr>"
    by (simp add: linked_list_new_rep)
  then show "ordered_map_new s cmpfunc = Some ?om" by (simp add: ordered_map_new_def)
  have "tree_rep (nodes s) ?om [] []"
    using avltree_new_rep by (auto simp: tree_rep_def intro!: exI[of _ Leaf])
  then show "map_rep s ?om [] []" using assms by (simp add: map_rep_def items_rep_def)
qed

theorem ordered_map_size_rep: "map_rep s om es ns \<Longrightarrow> ordered_map_size om = int (length es)"
  by (simp add: map_rep_def ordered_map_size_def dlist_rep_def)

lemma find_item:
  assumes "map_rep s om es ns" "e \<in> set es"
  shows "avltree_lookup (om_cmpfunc om) (nodes s) (om_tree om) (key_of e) = Some (Some (fst (snd e)))"
    "load (items s) (fst (snd e)) = Some (item_of e)"
  using assms tree_rep_lookup[of "nodes s" om es ns "key_of e"] key_item_Some[of es e]
  by (auto simp: map_rep_def items_rep_def heap_simps)

lemma find_none:
  assumes "map_rep s om es ns" "k \<notin> set (keys es)"
  shows "avltree_lookup (om_cmpfunc om) (nodes s) (om_tree om) k = Some None"
  using assms tree_rep_lookup[of "nodes s" om es ns k] key_item_None[OF assms(2)]
  by (simp add: map_rep_def)

theorem ordered_map_lookup_rep:
  assumes rep: "map_rep s om es ns"
  shows "ordered_map_lookup s om k = Some (map_of (map key_value es) k)"
proof (cases rule: keys_cases[of k es])
  case 1
  with rep show ?thesis by (simp add: ordered_map_lookup_def find_none key_value_None)
next
  case (2 e)
  with find_item[OF rep 2(1)] key_value_Some[of es e] rep show ?thesis
    by (auto simp: ordered_map_lookup_def map_rep_def)
qed


text \<open>The map gave up the entries that are in es and not in es', and nothing else changed.\<close>

definition released :: "('k, 'v) entry list \<Rightarrow> addr list \<Rightarrow> ('k, 'v) entry list \<Rightarrow> addr list \<Rightarrow>
    ('k, 'v) store \<Rightarrow> ('k, 'v) store \<Rightarrow> bool" where
  "released es ns es' ns' s s' \<longleftrightarrow>
     shrunk (fst ` snd ` set es) (fst ` snd ` set es') (items s) (items s') \<and>
     shrunk (fst ` set es) (fst ` set es') (links s) (links s') \<and>
     shrunk (set ns) (set ns') (nodes s) (nodes s')"

lemma released_refl [simp]: "released es ns es ns s s"
  by (simp add: released_def)

lemma released_trans:
  "released es ns es' ns' s s' \<Longrightarrow> released es' ns' es'' ns'' s' s'' \<Longrightarrow> released es ns es'' ns'' s s''"
  unfolding released_def by (blast intro: shrunk_trans)

lemma fst_cell_of: "fst ` set (map cell_of ys @ (fst e, fst (snd e)) # map cell_of zs) = fst ` set (ys @ e # zs)"
  by (simp add: image_Un image_image)

lemma unlink_item_rep:
  assumes rep: "map_rep s om (ys @ e # zs) ns"
  obtains s' om' ns' where "unlink_item s om (key_of e) (fst (snd e)) (fst e) = Some (s', om')"
    "map_rep s' om' (ys @ zs) ns'" "released (ys @ e # zs) ns (ys @ zs) ns' s s'"
    "om_cmpfunc om' = om_cmpfunc om"
proof -
  let ?es = "ys @ e # zs"
  from rep have cmp: "comparator (om_cmpfunc om)" and d: "distinct (keys ?es)" and it: "items_rep (items s) ?es"
    and dl: "dlist_rep (links s) (om_list om) (map cell_of ys @ (fst e, fst (snd e)) # map cell_of zs)"
    and tr: "tree_rep (nodes s) om ?es ns"
    by (simp_all add: map_rep_def)
  obtain hn tree b m where 1: "avltree_delete_node (om_cmpfunc om) (nodes s) (om_tree om) (key_of e) = Some (hn, tree, m)"
    "b \<in> set ns" "hn b = None" "tree_rep hn (om\<lparr>om_tree := tree\<rparr>) (ys @ zs) (remove1 b ns)"
    "\<And>y. y \<notin> set ns \<Longrightarrow> hn y = nodes s y"
    by (rule tree_delete_rep[OF tr cmp refl d]) (rule that)
  obtain hl list where 2: "linked_list_remove_item (links s) (om_list om) (fst e) = Some (hl, list, fst (snd e))"
    "dlist_rep hl list (map cell_of ys @ map cell_of zs)" "hl (fst e) = None"
    "\<And>y. y \<notin> fst ` set (map cell_of ys @ (fst e, fst (snd e)) # map cell_of zs) \<Longrightarrow> hl y = links s y"
    by (rule linked_list_remove_item_rep[OF dl]) (rule that)
  let ?a = "fst (snd e)"
  let ?s = "\<lparr>items = (items s)(?a := None), links = hl, nodes = hn\<rparr>"
  let ?om = "om\<lparr>om_tree := tree, om_list := list\<rparr>"
  from it have a: "?a \<noteq> NULL" "items s ?a = Some (item_of e)" "?a \<notin> fst ` snd ` set (ys @ zs)"
    by (auto simp: items_rep_def image_iff)
  have "unlink_item s om (key_of e) ?a (fst e) = Some (?s, ?om)"
    using 1(1) 2(1) a by (simp add: unlink_item_def heap_simps)
  moreover have "map_rep ?s ?om (ys @ zs) (remove1 b ns)"
  proof -
    have "items_rep (items s) (ys @ zs)" using it by (auto simp: items_rep_def)
    then have "items_rep ((items s)(?a := None)) (ys @ zs)" using a(3) by (rule items_rep_frame)
    moreover have "tree_rep hn ?om (ys @ zs) (remove1 b ns)" by (rule tree_rep_cong[OF 1(4)]) simp_all
    ultimately show ?thesis using cmp d 2(2) by (simp add: map_rep_def)
  qed
  moreover have "released ?es ns (ys @ zs) (remove1 b ns) s ?s"
  proof -
    from tr have "distinct ns" by (auto simp: tree_rep_def avl_rep_def)
    then have "shrunk (set ns) (set (remove1 b ns)) (nodes s) hn"
      using 1(3,5) by (auto simp: shrunk_def)
    moreover have "shrunk (fst ` set ?es) (fst ` set (ys @ zs)) (links s) hl"
      using 2(3,4) unfolding fst_cell_of shrunk_def by auto
    moreover have "shrunk (fst ` snd ` set ?es) (fst ` snd ` set (ys @ zs)) (items s) ((items s)(?a := None))"
      by (auto simp: shrunk_def)
    ultimately show ?thesis by (simp add: released_def)
  qed
  ultimately show thesis by (rule that) simp
qed

theorem ordered_map_remove_item_rep:
  assumes rep: "map_rep s om (ys @ (l, m, k, v) # zs) ns"
  obtains s' om' ns' where "ordered_map_remove_item s om k = Some (s', om', Some v)"
    "map_rep s' om' (ys @ zs) ns'" "released (ys @ (l, m, k, v) # zs) ns (ys @ zs) ns' s s'"
    "om_cmpfunc om' = om_cmpfunc om"
proof -
  let ?e = "(l, m, k, v)"
  obtain s' om' ns' where u: "unlink_item s om (key_of ?e) (fst (snd ?e)) (fst ?e) = Some (s', om')"
    "map_rep s' om' (ys @ zs) ns'" "released (ys @ ?e # zs) ns (ys @ zs) ns' s s'"
    "om_cmpfunc om' = om_cmpfunc om"
    by (rule unlink_item_rep[OF rep]) (rule that)
  with find_item[OF rep, of ?e] that show thesis by (simp add: ordered_map_remove_item_def)
qed

theorem ordered_map_remove_item_missing:
  "map_rep s om es ns \<Longrightarrow> k \<notin> set (keys es) \<Longrightarrow> ordered_map_remove_item s om k = Some (s, om, None)"
  by (simp add: ordered_map_remove_item_def find_none)

theorem ordered_map_remove_head_rep:
  assumes rep: "map_rep s om ((l, m, k, v) # es) ns"
  obtains s' om' ns' where "ordered_map_remove_head s om = Some (s', om', Some v)"
    "map_rep s' om' es ns'" "released ((l, m, k, v) # es) ns es ns' s s'" "om_cmpfunc om' = om_cmpfunc om"
proof -
  let ?e = "(l, m, k, v)"
  have rep': "map_rep s om ([] @ ?e # es) ns" using rep by simp
  obtain s' om' ns' where u: "unlink_item s om (key_of ?e) (fst (snd ?e)) (fst ?e) = Some (s', om')"
    "map_rep s' om' ([] @ es) ns'" "released ([] @ ?e # es) ns ([] @ es) ns' s s'" "om_cmpfunc om' = om_cmpfunc om"
    by (rule unlink_item_rep[OF rep']) (rule that)
  from rep obtain c where "ll_count (om_list om) \<noteq> 0" "ll_head (om_list om) = l" "load (links s) l = Some c" "li_data c = m"
    by (auto simp: map_rep_def dlist_rep_def heap_simps)
  with u find_item(2)[OF rep, of ?e] that show thesis by (simp add: ordered_map_remove_head_def)
qed

theorem ordered_map_remove_tail_rep:
  assumes rep: "map_rep s om (es @ [(l, m, k, v)]) ns"
  obtains s' om' ns' where "ordered_map_remove_tail s om = Some (s', om', Some v)"
    "map_rep s' om' es ns'" "released (es @ [(l, m, k, v)]) ns es ns' s s'" "om_cmpfunc om' = om_cmpfunc om"
proof -
  let ?e = "(l, m, k, v)"
  obtain s' om' ns' where u: "unlink_item s om (key_of ?e) (fst (snd ?e)) (fst ?e) = Some (s', om')"
    "map_rep s' om' (es @ []) ns'" "released (es @ [?e]) ns (es @ []) ns' s s'" "om_cmpfunc om' = om_cmpfunc om"
    by (rule unlink_item_rep[OF rep]) (rule that)
  from rep obtain c where "ll_count (om_list om) \<noteq> 0" "ll_tail (om_list om) = l" "load (links s) l = Some c" "li_data c = m"
    by (auto simp: map_rep_def dlist_rep_def heap_simps)
  with u find_item(2)[OF rep, of ?e] that show thesis by (simp add: ordered_map_remove_tail_def)
qed

theorem ordered_map_remove_empty:
  assumes "map_rep s om [] ns"
  shows "ordered_map_remove_head s om = Some (s, om, None)" "ordered_map_remove_tail s om = Some (s, om, None)"
  using assms by (simp_all add: map_rep_def dlist_rep_def ordered_map_remove_head_def ordered_map_remove_tail_def)


text \<open>The map gained the entry e; only its own cells changed.\<close>

definition acquired :: "('k, 'v) entry \<Rightarrow> ('k, 'v) entry list \<Rightarrow> addr \<Rightarrow> addr list \<Rightarrow> ('k, 'v) store \<Rightarrow> ('k, 'v) store \<Rightarrow> bool" where
  "acquired e es n ns s s' \<longleftrightarrow>
     (\<forall>a. a \<notin> insert (fst (snd e)) (fst ` snd ` set es) \<longrightarrow> items s' a = items s a) \<and>
     (\<forall>a. a \<notin> insert (fst e) (fst ` set es) \<longrightarrow> links s' a = links s a) \<and>
     (\<forall>a. a \<notin> insert n (set ns) \<longrightarrow> nodes s' a = nodes s a)"

lemma cell_of_image: "fst ` set (map cell_of es) = fst ` set es"
  by (simp add: image_image)

theorem ordered_map_add_item_head_rep:
  assumes rep: "map_rep s om es ns" and k: "k \<notin> set (keys es)" and new: "fresh3 s m l n"
  obtains s' om' where "ordered_map_add_item_head s om k v m l n = Some (s', om', 0)"
    "map_rep s' om' ((l, m, k, v) # es) (ns @ [n])" "acquired (l, m, k, v) es n ns s s'"
    "om_cmpfunc om' = om_cmpfunc om"
proof -
  let ?e = "(l, m, k, v)"
  from rep have cmp: "comparator (om_cmpfunc om)" and d: "distinct (keys es)" and it: "items_rep (items s) es"
    and dl: "dlist_rep (links s) (om_list om) (map cell_of es)" and tr: "tree_rep (nodes s) om es ns"
    by (simp_all add: map_rep_def)
  from new have m: "m \<noteq> NULL" "items s m = None" and l: "fresh (links s) l" and n: "fresh (nodes s) n"
    by (auto simp: fresh3_def fresh_def)
  obtain h list where 1: "linked_list_add_item_head (links s) (om_list om) m l = Some (h, list, l)"
    "dlist_rep h list ((l, m) # map cell_of es)" "\<And>b. b \<notin> insert l (fst ` set (map cell_of es)) \<Longrightarrow> h b = links s b"
    by (rule linked_list_add_item_head_rep[OF dl l]) (rule that)
  let ?s = "s\<lparr>links := h, items := (items s)(m \<mapsto> item_of ?e)\<rparr>" and ?om = "om\<lparr>om_list := list\<rparr>"
  have tr1: "tree_rep (nodes ?s) ?om es ns" using tree_rep_cong[OF tr, of ?om es] by simp
  have "map_of (map key_item (?e # es)) = (map_of (map key_item es))(k \<mapsto> m)" by simp
  then obtain hn tree where 2: "tree_add ?s ?om k m n = Some (?s\<lparr>nodes := hn\<rparr>, ?om\<lparr>om_tree := tree\<rparr>, 0)"
    "tree_rep hn (?om\<lparr>om_tree := tree\<rparr>) (?e # es) (ns @ [n])" "\<And>y. y \<notin> insert n (set ns) \<Longrightarrow> hn y = nodes ?s y"
    using tree_add_rep[OF tr1 _ k, of n "?e # es" m] cmp n by auto
  have mi: "m \<notin> fst ` snd ` set es" using it m(2) by (auto simp: items_rep_def)
  have "ordered_map_add_item_head s om k v m l n = Some (?s\<lparr>nodes := hn\<rparr>, ?om\<lparr>om_tree := tree\<rparr>, 0)"
    using find_none[OF rep k] 1(1) 2(1) by (simp add: ordered_map_add_item_head_def)
  moreover have "items_rep ((items s)(m \<mapsto> item_of ?e)) (?e # es)"
    using items_rep_frame[OF it mi, of "Some (item_of ?e)"] m(1) mi by (auto simp: items_rep_def image_iff)
  then have "map_rep (?s\<lparr>nodes := hn\<rparr>) (?om\<lparr>om_tree := tree\<rparr>) (?e # es) (ns @ [n])"
    using cmp d k 1(2) 2(2) by (simp add: map_rep_def)
  moreover have "acquired ?e es n ns s (?s\<lparr>nodes := hn\<rparr>)"
    using 1(3) 2(3) unfolding cell_of_image by (simp add: acquired_def)
  ultimately show thesis by (rule that) simp
qed

theorem ordered_map_add_item_tail_rep:
  assumes rep: "map_rep s om es ns" and k: "k \<notin> set (keys es)" and new: "fresh3 s m l n"
  obtains s' om' where "ordered_map_add_item_tail s om k v m l n = Some (s', om', 0)"
    "map_rep s' om' (es @ [(l, m, k, v)]) (ns @ [n])" "acquired (l, m, k, v) es n ns s s'"
    "om_cmpfunc om' = om_cmpfunc om"
proof -
  let ?e = "(l, m, k, v)"
  from rep have cmp: "comparator (om_cmpfunc om)" and d: "distinct (keys es)" and it: "items_rep (items s) es"
    and dl: "dlist_rep (links s) (om_list om) (map cell_of es)" and tr: "tree_rep (nodes s) om es ns"
    by (simp_all add: map_rep_def)
  from new have m: "m \<noteq> NULL" "items s m = None" and l: "fresh (links s) l" and n: "fresh (nodes s) n"
    by (auto simp: fresh3_def fresh_def)
  obtain h list where 1: "linked_list_add_item_tail (links s) (om_list om) m l = Some (h, list, l)"
    "dlist_rep h list (map cell_of es @ [(l, m)])" "\<And>b. b \<notin> insert l (fst ` set (map cell_of es)) \<Longrightarrow> h b = links s b"
    by (rule linked_list_add_item_tail_rep[OF dl l]) (rule that)
  let ?s = "s\<lparr>links := h, items := (items s)(m \<mapsto> item_of ?e)\<rparr>" and ?om = "om\<lparr>om_list := list\<rparr>"
  have tr1: "tree_rep (nodes ?s) ?om es ns" using tree_rep_cong[OF tr, of ?om es] by simp
  obtain hn tree where 2: "tree_add ?s ?om k m n = Some (?s\<lparr>nodes := hn\<rparr>, ?om\<lparr>om_tree := tree\<rparr>, 0)"
    "tree_rep hn (?om\<lparr>om_tree := tree\<rparr>) (es @ [?e]) (ns @ [n])" "\<And>y. y \<notin> insert n (set ns) \<Longrightarrow> hn y = nodes ?s y"
    using tree_add_rep[OF tr1 _ k, of n "es @ [?e]" m] key_item_snoc[OF k, of l m v] cmp n by auto
  have mi: "m \<notin> fst ` snd ` set es" using it m(2) by (auto simp: items_rep_def)
  have "ordered_map_add_item_tail s om k v m l n = Some (?s\<lparr>nodes := hn\<rparr>, ?om\<lparr>om_tree := tree\<rparr>, 0)"
    using find_none[OF rep k] 1(1) 2(1) by (simp add: ordered_map_add_item_tail_def)
  moreover have "items_rep ((items s)(m \<mapsto> item_of ?e)) (es @ [?e])"
    using items_rep_frame[OF it mi, of "Some (item_of ?e)"] m(1) mi by (auto simp: items_rep_def image_iff)
  then have "map_rep (?s\<lparr>nodes := hn\<rparr>) (?om\<lparr>om_tree := tree\<rparr>) (es @ [?e]) (ns @ [n])"
    using cmp d k 1(2) 2(2) by (simp add: map_rep_def)
  moreover have "acquired ?e es n ns s (?s\<lparr>nodes := hn\<rparr>)"
    using 1(3) 2(3) unfolding cell_of_image by (simp add: acquired_def)
  ultimately show thesis by (rule that) simp
qed

theorem ordered_map_add_item_exists:
  assumes "map_rep s om es ns" "k \<in> set (keys es)"
  shows "ordered_map_add_item_head s om k v m l n = Some (s, om, -1)"
    "ordered_map_add_item_tail s om k v m l n = Some (s, om, -1)"
proof -
  from assms(2) obtain e where "e \<in> set es" "key_of e = k" by auto
  with find_item(1)[OF assms(1), of e]
  show "ordered_map_add_item_head s om k v m l n = Some (s, om, -1)"
    "ordered_map_add_item_tail s om k v m l n = Some (s, om, -1)"
    by (auto simp: ordered_map_add_item_head_def ordered_map_add_item_tail_def)
qed

theorem ordered_map_make_item_head_rep:
  assumes rep: "map_rep s om (ys @ (l, m, k, v) # zs) ns"
  obtains s' om' where "ordered_map_make_item_head s om k = Some (s', om', 0)"
    "map_rep s' om' ((l, m, k, v) # ys @ zs) ns" "items s' = items s" "nodes s' = nodes s"
    "\<And>a. a \<notin> fst ` set (ys @ (l, m, k, v) # zs) \<Longrightarrow> links s' a = links s a" "om_cmpfunc om' = om_cmpfunc om"
proof -
  let ?e = "(l, m, k, v)" and ?es = "ys @ (l, m, k, v) # zs"
  from rep have cmp: "comparator (om_cmpfunc om)" and d: "distinct (keys ?es)" and it: "items_rep (items s) ?es"
    and dl: "dlist_rep (links s) (om_list om) (map cell_of ys @ (l, m) # map cell_of zs)"
    and tr: "tree_rep (nodes s) om ?es ns"
    by (simp_all add: map_rep_def)
  obtain h list where 1: "linked_list_make_item_head (links s) (om_list om) l = Some (h, list)"
    "dlist_rep h list ((l, m) # map cell_of ys @ map cell_of zs)"
    "\<And>b. b \<notin> fst ` set (map cell_of ys @ (l, m) # map cell_of zs) \<Longrightarrow> h b = links s b"
    by (rule linked_list_make_item_head_rep[OF dl]) (rule that)
  let ?s = "s\<lparr>links := h\<rparr>" and ?om = "om\<lparr>om_list := list\<rparr>"
  have "ordered_map_make_item_head s om k = Some (?s, ?om, 0)"
    using find_item[OF rep, of ?e] 1(1) by (simp add: ordered_map_make_item_head_def)
  moreover have "map_of (map key_item (?e # ys @ zs)) = map_of (map key_item ?es)"
  proof (rule map_of_inject_set[THEN iffD2])
    show "distinct (map fst (map key_item (?e # ys @ zs)))" "distinct (map fst (map key_item ?es))"
      using d by (auto simp: comp_def)
  qed auto
  then have "tree_rep (nodes s) ?om (?e # ys @ zs) ns" by (intro tree_rep_cong[OF tr]) simp_all
  then have "map_rep ?s ?om (?e # ys @ zs) ns"
    using cmp d it 1(2) by (auto simp: map_rep_def items_rep_def)
  moreover have "h a = links s a" if "a \<notin> fst ` set ?es" for a
    using 1(3)[of a] that by (simp add: image_Un image_image)
  ultimately show thesis by (intro that[of ?s ?om]) simp_all
qed

theorem ordered_map_make_item_head_missing:
  "map_rep s om es ns \<Longrightarrow> k \<notin> set (keys es) \<Longrightarrow> ordered_map_make_item_head s om k = Some (s, om, -1)"
  by (simp add: ordered_map_make_item_head_def find_none)

section \<open>Disposal and iteration\<close>

lemma ordered_map_free_loop_rep:
  "map_rep s om es ns \<Longrightarrow> \<exists>s' om' ns'. ordered_map_free_loop s om = Some (s', om') \<and> map_rep s' om' [] ns' \<and>
     released es ns [] ns' s s'"
proof (induction es arbitrary: s om ns rule: rev_induct)
  case Nil
  with ordered_map_size_rep[OF Nil] show ?case
    by (subst ordered_map_free_loop.simps) (auto intro!: exI[of _ ns])
next
  case (snoc e es)
  obtain l m k v where e: "e = (l, m, k, v)" by (metis prod_cases4)
  obtain s1 om1 ns1 where 1: "ordered_map_remove_tail s om = Some (s1, om1, Some v)"
    "map_rep s1 om1 es ns1" "released (es @ [e]) ns es ns1 s s1"
    using snoc.prems unfolding e by (rule ordered_map_remove_tail_rep) (rule that[unfolded e])
  from snoc.IH[OF 1(2)] obtain s2 om2 ns2 where 2: "ordered_map_free_loop s1 om1 = Some (s2, om2)"
    "map_rep s2 om2 [] ns2" "released es ns1 [] ns2 s1 s2" by auto
  have "ordered_map_free_loop s om = Some (s2, om2)"
    using ordered_map_size_rep[OF snoc.prems] 1(1) 2(1) by (subst ordered_map_free_loop.simps) simp
  with 2 released_trans[OF 1(3) 2(3)] show ?case by blast
qed

theorem ordered_map_free_rep:
  assumes rep: "map_rep s om es ns"
  obtains s' where "ordered_map_free s om = Some s'" "released es ns [] [] s s'"
proof -
  from ordered_map_free_loop_rep[OF rep] obtain s1 om1 ns1 where 1: "ordered_map_free_loop s om = Some (s1, om1)"
    "map_rep s1 om1 [] ns1" "released es ns [] ns1 s s1" by auto
  then have "linked_list_free (links s1) (om_list om1) = Some ()"
    by (auto simp: map_rep_def intro: linked_list_free_rep)
  moreover from 1(2) obtain t where "avl_rep (nodes s1) (om_tree om1) t ns1"
    by (auto simp: map_rep_def tree_rep_def)
  from avltree_free_rep[OF this]
  have "avltree_free (nodes s1) (om_tree om1) = Some (\<lambda>y. if y \<in> set ns1 then None else nodes s1 y)" .
  ultimately have "ordered_map_free s om = Some (s1\<lparr>nodes := \<lambda>y. if y \<in> set ns1 then None else nodes s1 y\<rparr>)"
    using 1(1) by (simp add: ordered_map_free_def)
  moreover have "released es ns [] [] s (s1\<lparr>nodes := \<lambda>y. if y \<in> set ns1 then None else nodes s1 y\<rparr>)"
  proof -
    have "shrunk (set ns1) (set []) (nodes s1) (\<lambda>y. if y \<in> set ns1 then None else nodes s1 y)"
      by (simp add: shrunk_def)
    with 1(3) show ?thesis by (auto simp: released_def intro: shrunk_trans)
  qed
  ultimately show thesis by (rule that)
qed

theorem ordered_map_iterate_rep:
  assumes rep: "map_rep s om es ns"
  shows "ordered_map_iterate s om NULL = Some (if es = [] then NULL else fst (snd (hd es)))"
    and "es = ys @ e # zs \<Longrightarrow>
      ordered_map_iterate s om (fst (snd e)) = Some (if zs = [] then NULL else fst (snd (hd zs)))"
proof -
  from rep have dl: "dlist_rep (links s) (om_list om) (map cell_of es)" by (simp add: map_rep_def)
  show "ordered_map_iterate s om NULL = Some (if es = [] then NULL else fst (snd (hd es)))"
    using dl by (cases es) (auto simp: ordered_map_iterate_def dlist_rep_def heap_simps)
  show "ordered_map_iterate s om (fst (snd e)) = Some (if zs = [] then NULL else fst (snd (hd zs)))"
    if es: "es = ys @ e # zs"
  proof -
    have nz: "fst (snd e) \<noteq> NULL" using rep es by (auto simp: map_rep_def items_rep_def)
    have ld: "load (items s) (fst (snd e)) = Some (item_of e)" using find_item(2)[OF rep] es by simp
    from dl es obtain c x l where c: "fst e \<noteq> NULL" "links s (fst e) = Some c"
      "lseg (links s) (fst e) (li_next c) (map cell_of zs) l NULL"
      by (auto simp: dlist_rep_def)
    then show ?thesis
      using nz ld by (cases zs) (auto simp: ordered_map_iterate_def heap_simps)
  qed
qed

end
