(* ===== verification/LruCache.thy ===== *)
theory LruCache
  imports Prelude "HOL-Library.Sublist" "HOL-Library.Multiset"
begin

text \<open>
  The contract between the ordered map and its two clients.  The caches see an ordered map as the
  list of its (key, value) pairs, head first: this theory has the map operations on that list
  (OrderedMap proves that the pointer code acts like this on its contents), the eviction loop
  the two caches share, and the locale lru_cache with what a least-recently-used cache promises.
\<close>

section \<open>The ordered map as a list\<close>

type_synonym ('k, 'v) omap = "('k \<times> 'v) list"

definition om_lookup :: "('k, 'v) omap \<Rightarrow> 'k \<Rightarrow> 'v option" where
  "om_lookup m k = map_of m k"

definition om_add_head :: "('k, 'v) omap \<Rightarrow> 'k \<Rightarrow> 'v \<Rightarrow> ('k, 'v) omap" where
  "om_add_head m k v = (if k \<in> set (map fst m) then m else (k, v) # m)"

definition om_remove_tail :: "('k, 'v) omap \<Rightarrow> (('k, 'v) omap \<times> 'v) option" where
  "om_remove_tail m = (if m = [] then None else Some (butlast m, snd (last m)))"

definition om_make_head :: "('k, 'v) omap \<Rightarrow> 'k \<Rightarrow> ('k, 'v) omap" where
  "om_make_head m k = (case map_of m k of None \<Rightarrow> m | Some v \<Rightarrow> (k, v) # filter (\<lambda>p. fst p \<noteq> k) m)"

text \<open>The stored value is changed through the pointer that a lookup returned.\<close>

fun om_set :: "('k, 'v) omap \<Rightarrow> 'k \<Rightarrow> 'v \<Rightarrow> ('k, 'v) omap" where
  "om_set [] k v = []"
| "om_set ((k', v') # m) k v = (if k' = k then (k, v) # m else (k', v') # om_set m k v)"

text \<open>
  The loop that makes room for a new entry: it removes entries from the tail until the size is
  below the limit, and returns the values it removed in the order of their removal.  None: the
  tail of an empty map is dereferenced.
\<close>

function evict :: "int \<Rightarrow> ('k, 'v) omap \<Rightarrow> (('k, 'v) omap \<times> 'v list) option" where
  "evict limit m =
     (if int (length m) \<ge> limit then
        (case om_remove_tail m of
           None \<Rightarrow> None
         | Some (m', v) \<Rightarrow> map_option (\<lambda>(m'', vs). (m'', v # vs)) (evict limit m'))
      else Some (m, []))"
  by pat_completeness auto

termination
  by (relation "measure (\<lambda>(_, m). length m)") (auto simp: om_remove_tail_def split: if_splits)

declare evict.simps [simp del]

lemma om_lookup_None: "om_lookup m k = None \<longleftrightarrow> k \<notin> set (map fst m)"
  by (simp add: om_lookup_def map_of_eq_None_iff)

lemma om_lookup_Some: "k \<in> set (map fst m) \<Longrightarrow> \<exists>v. om_lookup m k = Some v"
  using om_lookup_None[of m k] by (cases "om_lookup m k") auto

lemma om_set_keys [simp]: "map fst (om_set m k v) = map fst m"
  by (induction m k v rule: om_set.induct) auto

lemma map_of_om_set: "map_of (om_set m k v) = (if k \<in> set (map fst m) then (map_of m)(k \<mapsto> v) else map_of m)"
  by (induction m k v rule: om_set.induct) auto

lemma om_make_head_keys:
  "k \<in> set (map fst m) \<Longrightarrow> map fst (om_make_head m k) = k # removeAll k (map fst m)"
  by (auto simp: om_make_head_def filter_map comp_def removeAll_filter_not_eq split: option.split
      dest: map_of_eq_None_iff[THEN iffD1]) (metis (no_types, lifting) filter_cong)+

lemma om_make_head_lookup [simp]: "map_of (om_make_head m k) = map_of m"
  by (auto simp: om_make_head_def map_of_filter_key fun_eq_iff split: option.split)

lemma om_make_head_set: "distinct (map fst m) \<Longrightarrow> set (om_make_head m k) = set m"
  by (auto simp: om_make_head_def split: option.split dest: map_of_SomeD) (metis eq_key_imp_eq_value map_of_SomeD)

lemma om_make_head_mset:
  assumes "distinct (map fst m)"
  shows "mset (om_make_head m k) = mset m"
proof (cases "k \<in> set (map fst m)")
  case True
  have "distinct (map fst (om_make_head m k))"
    using om_make_head_keys[OF True] assms by (simp add: distinct_removeAll)
  then show ?thesis
    using assms om_make_head_set[OF assms, of k]
    by (intro set_eq_iff_mset_eq_distinct[THEN iffD1]) (auto dest: distinct_map[THEN iffD1])
next
  case False
  then have "map_of m k = None" by (simp add: map_of_eq_None_iff)
  then show ?thesis by (simp add: om_make_head_def)
qed

theorem evict_spec:
  assumes "limit \<ge> 1"
  shows "evict limit m = Some (take (nat (limit - 1)) m, rev (map snd (drop (nat (limit - 1)) m)))"
proof (induction m rule: rev_induct)
  case Nil
  with assms show ?case by (subst evict.simps) simp
next
  case (snoc x m)
  show ?case
  proof (cases "int (length (m @ [x])) \<ge> limit")
    case True
    then have "nat (limit - 1) \<le> length m" using assms by simp
    with True snoc show ?thesis by (subst evict.simps) (simp add: om_remove_tail_def)
  next
    case False
    then have "nat (limit - 1) \<ge> length (m @ [x])" by simp
    with False show ?thesis by (subst evict.simps) simp
  qed
qed


section \<open>Recency\<close>

text \<open>One use of k in a cache of at most n keys, and the keys of a history by last use (latest first).\<close>

definition lru_step :: "nat \<Rightarrow> 'k \<Rightarrow> 'k list \<Rightarrow> 'k list" where
  "lru_step n k ks = (if k \<in> set ks then k # removeAll k ks else k # take (n - 1) ks)"

fun recent :: "'k list \<Rightarrow> 'k list" where
  "recent [] = []"
| "recent (k # h) = k # removeAll k (recent h)"

lemma distinct_recent [simp]: "distinct (recent h)"
  by (induction h) (auto simp: distinct_removeAll)

lemma take_removeAll_in:
  "distinct ks \<Longrightarrow> k \<in> set (take n ks) \<Longrightarrow> take (n - 1) (removeAll k ks) = removeAll k (take n ks)"
proof (induction ks arbitrary: n)
  case (Cons x ks)
  then show ?case
  proof (cases n)
    case (Suc m)
    with Cons show ?thesis
    proof (cases "x = k")
      case True
      with Cons.prems(1) have "k \<notin> set (take m ks)" by (auto dest: in_set_takeD)
      with True Suc Cons.prems(1) show ?thesis by (simp add: removeAll_id)
    next
      case False
      with Suc Cons have "k \<in> set (take m ks)" by simp
      moreover from this have "m \<noteq> 0" by (cases m) auto
      moreover have "take (m - 1) (removeAll k ks) = removeAll k (take m ks)"
        using Cons.IH[of m] Cons.prems(1) calculation(1) by simp
      ultimately show ?thesis using Suc False by (cases m) auto
    qed
  qed simp
qed simp

lemma lru_step_recent:
  assumes "n \<ge> 1"
  shows "lru_step n k (take n (recent h)) = take n (recent (k # h))"
proof (cases "k \<in> set (take n (recent h))")
  case True
  then show ?thesis
    using take_removeAll_in[OF distinct_recent True] assms by (cases n) (auto simp: lru_step_def)
next
  case False
  have "take (n - 1) (removeAll k (recent h)) = take (n - 1) (recent h)"
  proof -
    have "removeAll k (take n (recent h) @ drop n (recent h)) = take n (recent h) @ removeAll k (drop n (recent h))"
      using removeAll_id[OF False] by (simp only: removeAll_append)
    then have "take (n - 1) (removeAll k (recent h)) = take (n - 1) (take n (recent h) @ removeAll k (drop n (recent h)))"
      by simp
    also have "\<dots> = take (n - 1) (recent h)"
      by (cases "length (recent h) \<ge> n") (auto simp: min_def)
    finally show ?thesis .
  qed
  with False assms show ?thesis by (cases n) (auto simp: lru_step_def min_def)
qed

lemma lru_step_distinct: "distinct ks \<Longrightarrow> distinct (lru_step n k ks)"
  by (auto simp: lru_step_def distinct_removeAll dest: in_set_takeD)

lemma lru_step_length: "n \<ge> 1 \<Longrightarrow> distinct ks \<Longrightarrow> length ks \<le> n \<Longrightarrow> length (lru_step n k ks) \<le> n"
  by (auto simp: lru_step_def distinct_remove1_removeAll[symmetric] length_remove1)

lemma lru_step_prefix:
  assumes "prefix xs ys" "length ys \<le> n"
  shows "prefix (lru_step n k xs) (lru_step n k ys)"
proof -
  obtain zs where ys: "ys = xs @ zs" using assms(1) by (auto simp: prefix_def)
  consider "k \<in> set xs" | "k \<notin> set xs" "k \<in> set ys" | "k \<notin> set ys" "k \<notin> set xs" using ys by auto
  then show ?thesis
  proof cases
    case 2
    with ys have "length xs < length ys" by (cases zs) auto
    with assms(2) have "take (n - 1) xs = xs" by simp
    with 2 ys show ?thesis by (simp add: lru_step_def removeAll_id)
  qed (simp_all add: ys lru_step_def)
qed

section \<open>The contract of a least-recently-used cache\<close>

text \<open>
  names: the keys, latest use first; cap: the capacity; inv: the caches the client builds;
  access k: a request for k; ok k: the resource behind k can be opened, should it not be cached.
\<close>

locale lru_cache =
  fixes names :: "'c \<Rightarrow> 'k list"
    and cap :: "'c \<Rightarrow> int"
    and inv :: "'c \<Rightarrow> bool"
    and access :: "'k \<Rightarrow> 'c \<Rightarrow> 'c"
    and ok :: "'k \<Rightarrow> bool"
  assumes inv_cap: "inv c \<Longrightarrow> 1 \<le> cap c"
    and inv_distinct: "inv c \<Longrightarrow> distinct (names c)"
    and inv_length: "inv c \<Longrightarrow> length (names c) \<le> nat (cap c)"
    and access_hit: "inv c \<Longrightarrow> k \<in> set (names c) \<Longrightarrow> names (access k c) = k # removeAll k (names c)"
    and access_miss: "inv c \<Longrightarrow> k \<notin> set (names c) \<Longrightarrow> ok k \<Longrightarrow>
      names (access k c) = k # take (nat (cap c - 1)) (names c)"
    and access_fail: "inv c \<Longrightarrow> k \<notin> set (names c) \<Longrightarrow> \<not> ok k \<Longrightarrow> names (access k c) = names c"
    and access_cap: "inv c \<Longrightarrow> cap (access k c) = cap c"
    and access_inv: "inv c \<Longrightarrow> inv (access k c)"
begin

lemma access_step:
  "inv c \<Longrightarrow> k \<in> set (names c) \<or> ok k \<Longrightarrow> names (access k c) = lru_step (nat (cap c)) k (names c)"
  using access_hit[of c k] access_miss[of c k] inv_cap[of c] by (auto simp: lru_step_def nat_diff_distrib)

lemma fold_inv: "inv c \<Longrightarrow> inv (fold access ks c)"
  by (induction ks arbitrary: c) (auto intro: access_inv)

lemma fold_cap: "inv c \<Longrightarrow> cap (fold access ks c) = cap c"
  by (induction ks arbitrary: c) (auto simp: access_cap access_inv)

lemma most_recent:
  assumes "inv c" "names c = []" "\<forall>k \<in> set ks. ok k"
  shows "names (fold access ks c) = take (nat (cap c)) (recent (rev ks))"
  using assms(3)
proof (induction ks rule: rev_induct)
  case Nil
  then show ?case using assms by simp
next
  case (snoc k ks)
  have "names (access k (fold access ks c)) = lru_step (nat (cap c)) k (take (nat (cap c)) (recent (rev ks)))"
    using access_step[of "fold access ks c" k] fold_cap[OF assms(1)] fold_inv[OF assms(1)] snoc by simp
  then show ?case using lru_step_recent[of "nat (cap c)" k "rev ks"] inv_cap[OF assms(1)] by simp
qed

end

text \<open>
  Two caches that see the same requests: the second one (the shadow) can always open, and is
  accessed when the first one holds or could open the key.  As long as the first one forgets
  only its oldest entries, its contents stay a prefix of those of the shadow.
\<close>

locale shadowed = real: lru_cache names cap inv access ok + shadow: lru_cache names' cap' inv' access' "\<lambda>_. True"
  for names :: "'c \<Rightarrow> 'k list" and cap inv access ok
    and names' :: "'s \<Rightarrow> 'k list" and cap' inv' access'
begin

definition shadows :: "'c \<Rightarrow> 's \<Rightarrow> bool" where
  "shadows c s \<longleftrightarrow> inv c \<and> inv' s \<and> cap c = cap' s \<and> prefix (names c) (names' s)"

lemma shadows_access:
  assumes "shadows c s"
  shows "shadows (access k c) (if k \<in> set (names c) \<or> ok k then access' k s else s)"
proof (cases "k \<in> set (names c) \<or> ok k")
  case True
  from assms have c: "inv c" "inv' s" "cap c = cap' s" "prefix (names c) (names' s)"
    by (auto simp: shadows_def)
  then have "prefix (names (access k c)) (names' (access' k s))"
    using real.access_step[OF c(1) True] shadow.access_step[OF c(2)] shadow.inv_length[OF c(2)]
      lru_step_prefix[OF c(4), of "nat (cap' s)" k]
    by simp
  with True c show ?thesis
    by (simp add: shadows_def real.access_inv shadow.access_inv real.access_cap shadow.access_cap)
next
  case False
  with assms show ?thesis
    by (simp add: shadows_def real.access_fail real.access_cap real.access_inv)
qed

lemma shadows_exact:
  assumes "shadows c s" "names c = names' s"
  shows "names (access k c) = names' (if k \<in> set (names c) \<or> ok k then access' k s else s)"
  using assms real.access_step[of c k] shadow.access_step[of s k] real.access_fail[of c k]
  by (auto simp: shadows_def)

lemma shadows_no_miss: "shadows c s \<Longrightarrow> k \<in> set (names c) \<Longrightarrow> k \<in> set (names' s)"
  by (auto simp: shadows_def dest: set_mono_prefix)

end

end
