(* ===== verification/MapProperties.thy ===== *)
theory MapProperties
  imports OrderedMap LruCache
begin

text \<open>
  The pointer code of the ordered map against the list of its pairs: over any history of calls
  the two give the same results, no call touches memory it does not own, and freeing the map
  returns every cell.  The list operations are those the two caches are written with.
\<close>

section \<open>Histories\<close>

datatype ('k, 'v) om_op =
    AddHead 'k 'v
  | AddTail 'k 'v
  | Remove 'k
  | RemoveHead
  | RemoveTail
  | Lookup 'k
  | MakeHead 'k
  | Size

text \<open>The value a call returns: an error code or count, or a pointer that may be null.\<close>

datatype 'v om_result = Code int | Value "'v option"

text \<open>alloc gives the addresses that malloc() returns for a map item, a list item and a tree node.\<close>

type_synonym ('k, 'v) allocator = "('k, 'v) store \<Rightarrow> addr \<times> addr \<times> addr"

fun om_exec :: "('k, 'v) allocator \<Rightarrow> ('k, 'v) om_op \<Rightarrow> ('k, 'v) store \<Rightarrow> 'k ordered_map \<Rightarrow>
    (('k, 'v) store \<times> 'k ordered_map \<times> 'v om_result) option" where
  "om_exec alloc (AddHead k v) s om = (case alloc s of (m, l, n) \<Rightarrow>
     do { (s, om, err) \<leftarrow> ordered_map_add_item_head s om k v m l n; Some (s, om, Code err) })"
| "om_exec alloc (AddTail k v) s om = (case alloc s of (m, l, n) \<Rightarrow>
     do { (s, om, err) \<leftarrow> ordered_map_add_item_tail s om k v m l n; Some (s, om, Code err) })"
| "om_exec alloc (Remove k) s om = do { (s, om, v) \<leftarrow> ordered_map_remove_item s om k; Some (s, om, Value v) }"
| "om_exec alloc RemoveHead s om = do { (s, om, v) \<leftarrow> ordered_map_remove_head s om; Some (s, om, Value v) }"
| "om_exec alloc RemoveTail s om = do { (s, om, v) \<leftarrow> ordered_map_remove_tail s om; Some (s, om, Value v) }"
| "om_exec alloc (Lookup k) s om = do { v \<leftarrow> ordered_map_lookup s om k; Some (s, om, Value v) }"
| "om_exec alloc (MakeHead k) s om = do { (s, om, err) \<leftarrow> ordered_map_make_item_head s om k; Some (s, om, Code err) }"
| "om_exec alloc Size s om = Some (s, om, Code (ordered_map_size om))"

fun om_execs :: "('k, 'v) allocator \<Rightarrow> ('k, 'v) om_op list \<Rightarrow> ('k, 'v) store \<Rightarrow> 'k ordered_map \<Rightarrow>
    (('k, 'v) store \<times> 'k ordered_map \<times> 'v om_result list) option" where
  "om_execs alloc [] s om = Some (s, om, [])"
| "om_execs alloc (op # ops) s om = do {
     (s, om, r) \<leftarrow> om_exec alloc op s om;
     (s, om, rs) \<leftarrow> om_execs alloc ops s om;
     Some (s, om, r # rs) }"

text \<open>The same calls on the list.\<close>

definition om_delete :: "('k, 'v) omap \<Rightarrow> 'k \<Rightarrow> ('k, 'v) omap" where
  "om_delete m k = filter (\<lambda>p. fst p \<noteq> k) m"

fun om_spec :: "('k, 'v) om_op \<Rightarrow> ('k, 'v) omap \<Rightarrow> ('k, 'v) omap \<times> 'v om_result" where
  "om_spec (AddHead k v) m = (om_add_head m k v, Code (if om_lookup m k = None then 0 else -1))"
| "om_spec (AddTail k v) m = (if om_lookup m k = None then m @ [(k, v)] else m, Code (if om_lookup m k = None then 0 else -1))"
| "om_spec (Remove k) m = (om_delete m k, Value (om_lookup m k))"
| "om_spec RemoveHead m = (tl m, Value (if m = [] then None else Some (snd (hd m))))"
| "om_spec RemoveTail m = (case om_remove_tail m of None \<Rightarrow> (m, Value None) | Some (m', v) \<Rightarrow> (m', Value (Some v)))"
| "om_spec (Lookup k) m = (m, Value (om_lookup m k))"
| "om_spec (MakeHead k) m = (om_make_head m k, Code (if om_lookup m k = None then -1 else 0))"
| "om_spec Size m = (m, Code (int (length m)))"

fun om_specs :: "('k, 'v) om_op list \<Rightarrow> ('k, 'v) omap \<Rightarrow> ('k, 'v) omap \<times> 'v om_result list" where
  "om_specs [] m = (m, [])"
| "om_specs (op # ops) m =
     (let (m, r) = om_spec op m; (m, rs) = om_specs ops m in (m, r # rs))"

section \<open>Ownership\<close>

text \<open>The map is the only owner of memory: every allocated cell is a cell of the map.\<close>

definition owns :: "('k, 'v) store \<Rightarrow> ('k, 'v) entry list \<Rightarrow> addr list \<Rightarrow> bool" where
  "owns s es ns \<longleftrightarrow> dom (items s) \<subseteq> fst ` snd ` set es \<and> dom (links s) \<subseteq> fst ` set es \<and> dom (nodes s) \<subseteq> set ns"

definition om_rep :: "('k, 'v) store \<Rightarrow> 'k ordered_map \<Rightarrow> ('k, 'v) omap \<Rightarrow> bool" where
  "om_rep s om m \<longleftrightarrow> (\<exists>es ns. map_rep s om es ns \<and> owns s es ns \<and> m = map key_value es)"

text \<open>malloc() returns addresses that are not null and not in use.\<close>

definition malloc_ok :: "('k, 'v) allocator \<Rightarrow> bool" where
  "malloc_ok alloc \<longleftrightarrow> (\<forall>s. finite (dom (items s)) \<and> finite (dom (links s)) \<and> finite (dom (nodes s)) \<longrightarrow>
     (case alloc s of (m, l, n) \<Rightarrow> fresh3 s m l n))"

lemma shrunk_dom: "shrunk A B h h' \<Longrightarrow> dom h \<subseteq> A \<Longrightarrow> dom h' \<subseteq> B"
  unfolding shrunk_def by (auto simp: dom_def) (metis (mono_tags, lifting) mem_Collect_eq option.distinct(1) subsetD)

lemma owns_released: "owns s es ns \<Longrightarrow> released es ns es' ns' s s' \<Longrightarrow> owns s' es' ns'"
  unfolding owns_def released_def by (meson shrunk_dom)

lemma grown_dom: "\<forall>a. a \<notin> A \<longrightarrow> h' a = h a \<Longrightarrow> dom h \<subseteq> A \<Longrightarrow> dom h' \<subseteq> A"
  by (auto simp: dom_def) (metis (mono_tags, lifting) mem_Collect_eq subsetD)

lemma owns_acquired:
  assumes "owns s es ns" "acquired e es n ns s s'" "set es' = insert e (set es)"
  shows "owns s' es' (ns @ [n])"
proof -
  have "fst ` snd ` set es' = insert (fst (snd e)) (fst ` snd ` set es)" "fst ` set es' = insert (fst e) (fst ` set es)"
    using assms(3) by auto
  moreover have o: "dom (items s) \<subseteq> insert (fst (snd e)) (fst ` snd ` set es)" "dom (links s) \<subseteq> insert (fst e) (fst ` set es)"
    "dom (nodes s) \<subseteq> insert n (set ns)"
    using assms(1) by (simp_all add: owns_def subset_insertI2)
  moreover have "dom (items s') \<subseteq> insert (fst (snd e)) (fst ` snd ` set es)" "dom (links s') \<subseteq> insert (fst e) (fst ` set es)"
    "dom (nodes s') \<subseteq> insert n (set ns)"
    using grown_dom[OF _ o(1), of "items s'"] grown_dom[OF _ o(2), of "links s'"] grown_dom[OF _ o(3), of "nodes s'"]
      assms(2) unfolding acquired_def by blast+
  ultimately show ?thesis by (simp add: owns_def)
qed

lemma owns_finite: "owns s es ns \<Longrightarrow> finite (dom (items s)) \<and> finite (dom (links s)) \<and> finite (dom (nodes s))"
  unfolding owns_def by (meson List.finite_set finite_imageI finite_subset)

section \<open>One call\<close>

abbreviation pairs :: "('k, 'v) entry list \<Rightarrow> ('k, 'v) omap" where
  "pairs es \<equiv> map key_value es"

lemma pairs_keys: "map fst (pairs es) = keys es"
  by simp

lemma pairs_None: "om_lookup (pairs es) k = None \<longleftrightarrow> k \<notin> set (keys es)"
  by (simp only: om_lookup_None pairs_keys)

lemma entry_split:
  assumes "om_lookup (pairs es) k \<noteq> None"
  obtains ys l m v zs where "es = ys @ (l, m, k, v) # zs"
proof -
  have "k \<in> set (keys es)" using assms pairs_None[of es k] by simp
  then obtain e where "e \<in> set es" "key_of e = k" by auto
  then obtain ys zs where "es = ys @ e # zs" by (meson split_list)
  with \<open>key_of e = k\<close> that show thesis by (cases e) auto
qed

lemma pairs_split:
  assumes "distinct (keys (ys @ (l, m, k, v) # zs))"
  shows "om_lookup (pairs (ys @ (l, m, k, v) # zs)) k = Some v"
    "filter (\<lambda>p. fst p \<noteq> k) (pairs (ys @ (l, m, k, v) # zs)) = pairs (ys @ zs)"
proof -
  from assms have n: "k \<notin> set (keys ys)" "k \<notin> set (keys zs)" by auto
  then show "om_lookup (pairs (ys @ (l, m, k, v) # zs)) k = Some v"
    by (simp add: om_lookup_def map_add_def key_value_None)
  have "\<forall>p \<in> set (pairs ys). fst p \<noteq> k" "\<forall>p \<in> set (pairs zs). fst p \<noteq> k" using n by force+
  then show "filter (\<lambda>p. fst p \<noteq> k) (pairs (ys @ (l, m, k, v) # zs)) = pairs (ys @ zs)"
    by (simp only: map_append list.map filter_append filter_True filter.simps) simp
qed

lemma om_rep_add_head:
  assumes rep: "om_rep s om m" and al: "fresh3 s a l n"
  shows "\<exists>s' om'. ordered_map_add_item_head s om k v a l n = Some (s', om', if om_lookup m k = None then 0 else -1) \<and>
    om_rep s' om' (om_add_head m k v)"
proof -
  from rep obtain es ns where r: "map_rep s om es ns" "owns s es ns" "m = pairs es" by (auto simp: om_rep_def)
  show ?thesis
  proof (cases "k \<in> set (keys es)")
    case True
    then have "om_lookup m k \<noteq> None" "k \<in> set (map fst m)" using r(3) pairs_None[of es k] by auto
    with ordered_map_add_item_exists(1)[OF r(1) True] rep show ?thesis by (auto simp: om_add_head_def)
  next
    case False
    obtain s' om' where 1: "ordered_map_add_item_head s om k v a l n = Some (s', om', 0)"
      "map_rep s' om' ((l, a, k, v) # es) (ns @ [n])" "acquired (l, a, k, v) es n ns s s'"
      by (rule ordered_map_add_item_head_rep[OF r(1) False al]) (rule that)
    have "owns s' ((l, a, k, v) # es) (ns @ [n])" by (rule owns_acquired[OF r(2) 1(3)]) simp
    with 1(2) have "om_rep s' om' ((k, v) # m)" by (force simp: om_rep_def r(3))
    with 1(1) False show ?thesis by (auto simp: om_add_head_def r(3) pairs_None simp del: set_map) (auto)
  qed
qed


lemma om_rep_add_tail:
  assumes rep: "om_rep s om m" and al: "fresh3 s a l n"
  shows "\<exists>s' om'. ordered_map_add_item_tail s om k v a l n = Some (s', om', if om_lookup m k = None then 0 else -1) \<and>
    om_rep s' om' (if om_lookup m k = None then m @ [(k, v)] else m)"
proof -
  from rep obtain es ns where r: "map_rep s om es ns" "owns s es ns" "m = pairs es" by (auto simp: om_rep_def)
  show ?thesis
  proof (cases "k \<in> set (keys es)")
    case True
    then have "om_lookup m k \<noteq> None" using r(3) pairs_None[of es k] by auto
    with ordered_map_add_item_exists(2)[OF r(1) True] rep show ?thesis by auto
  next
    case False
    then have l: "om_lookup m k = None" using r(3) pairs_None[of es k] by simp
    obtain s' om' where 1: "ordered_map_add_item_tail s om k v a l n = Some (s', om', 0)"
      "map_rep s' om' (es @ [(l, a, k, v)]) (ns @ [n])" "acquired (l, a, k, v) es n ns s s'"
      by (rule ordered_map_add_item_tail_rep[OF r(1) False al]) (rule that)
    have "owns s' (es @ [(l, a, k, v)]) (ns @ [n])" by (rule owns_acquired[OF r(2) 1(3)]) simp
    with 1(2) have "om_rep s' om' (m @ [(k, v)])" unfolding om_rep_def r(3)
      by (intro exI[of _ "es @ [(l, a, k, v)]"] exI[of _ "ns @ [n]"]) simp
    with 1(1) l show ?thesis by simp
  qed
qed

lemma om_repI: "map_rep s om es ns \<Longrightarrow> owns s es ns \<Longrightarrow> om_rep s om (pairs es)"
  by (auto simp: om_rep_def)

lemma om_rep_remove:
  assumes rep: "om_rep s om m"
  shows "\<exists>s' om'. ordered_map_remove_item s om k = Some (s', om', om_lookup m k) \<and> om_rep s' om' (om_delete m k)"
proof -
  from rep obtain es ns where r: "map_rep s om es ns" "owns s es ns" "m = pairs es" by (auto simp: om_rep_def)
  have d: "distinct (keys es)" using r(1) by (simp add: map_rep_def)
  show ?thesis
  proof (cases "om_lookup m k")
    case None
    then have k: "k \<notin> set (keys es)" using r(3) pairs_None[of es k] by simp
    have "\<forall>p \<in> set m. fst p \<noteq> k" using None unfolding om_lookup_None by force
    then have "om_delete m k = m" by (simp add: om_delete_def)
    with ordered_map_remove_item_missing[OF r(1) k] rep None show ?thesis by auto
  next
    case (Some w)
    then obtain ys l a v zs where es: "es = ys @ (l, a, k, v) # zs" using entry_split[of es k] r(3) by (metis option.distinct(1))
    obtain s' om' ns' where 1: "ordered_map_remove_item s om k = Some (s', om', Some v)" "map_rep s' om' (ys @ zs) ns'"
      "released (ys @ (l, a, k, v) # zs) ns (ys @ zs) ns' s s'"
      by (rule ordered_map_remove_item_rep[OF r(1)[unfolded es]]) (rule that)
    from om_repI[OF 1(2) owns_released[OF r(2)[unfolded es] 1(3)]] pairs_split[of ys l a k v zs] d 1(1)
    show ?thesis by (simp add: om_delete_def r(3) es)
  qed
qed

lemma om_rep_remove_head:
  assumes rep: "om_rep s om m"
  shows "\<exists>s' om'. ordered_map_remove_head s om = Some (s', om', if m = [] then None else Some (snd (hd m))) \<and> om_rep s' om' (tl m)"
proof -
  from rep obtain es ns where r: "map_rep s om es ns" "owns s es ns" "m = pairs es" by (auto simp: om_rep_def)
  show ?thesis
  proof (cases es)
    case Nil
    with ordered_map_remove_empty(1)[of s om ns] r rep show ?thesis by auto
  next
    case (Cons e es')
    obtain l a k v where e: "e = (l, a, k, v)" by (cases e)
    obtain s' om' ns' where 1: "ordered_map_remove_head s om = Some (s', om', Some v)" "map_rep s' om' es' ns'"
      "released ((l, a, k, v) # es') ns es' ns' s s'"
      by (rule ordered_map_remove_head_rep[OF r(1)[unfolded Cons e]]) (rule that)
    from om_repI[OF 1(2) owns_released[OF r(2)[unfolded Cons e] 1(3)]] 1(1) show ?thesis by (simp add: r(3) Cons e)
  qed
qed

lemma om_rep_remove_tail:
  assumes rep: "om_rep s om m"
  shows "\<exists>s' om'. ordered_map_remove_tail s om = Some (s', om', map_option snd (om_remove_tail m)) \<and>
    om_rep s' om' (butlast m)"
proof -
  from rep obtain es ns where r: "map_rep s om es ns" "owns s es ns" "m = pairs es" by (auto simp: om_rep_def)
  show ?thesis
  proof (cases es rule: rev_cases)
    case Nil
    with ordered_map_remove_empty(2)[of s om ns] r rep show ?thesis by (auto simp: om_remove_tail_def)
  next
    case (snoc es' e)
    obtain l a k v where e: "e = (l, a, k, v)" by (cases e)
    obtain s' om' ns' where 1: "ordered_map_remove_tail s om = Some (s', om', Some v)" "map_rep s' om' es' ns'"
      "released (es' @ [(l, a, k, v)]) ns es' ns' s s'"
      by (rule ordered_map_remove_tail_rep[OF r(1)[unfolded snoc e]]) (rule that)
    from om_repI[OF 1(2) owns_released[OF r(2)[unfolded snoc e] 1(3)]] 1(1) show ?thesis by (simp add: r(3) snoc e om_remove_tail_def)
  qed
qed

lemma om_rep_make_head:
  assumes rep: "om_rep s om m"
  shows "\<exists>s' om'. ordered_map_make_item_head s om k = Some (s', om', if om_lookup m k = None then -1 else 0) \<and>
    om_rep s' om' (om_make_head m k)"
proof -
  from rep obtain es ns where r: "map_rep s om es ns" "owns s es ns" "m = pairs es" by (auto simp: om_rep_def)
  have d: "distinct (keys es)" using r(1) by (simp add: map_rep_def)
  show ?thesis
  proof (cases "om_lookup m k")
    case None
    then have k: "k \<notin> set (keys es)" using r(3) pairs_None[of es k] by simp
    have "om_make_head m k = m" using None by (simp add: om_make_head_def om_lookup_def)
    with ordered_map_make_item_head_missing[OF r(1) k] rep None show ?thesis by auto
  next
    case (Some w)
    then obtain ys l a v zs where es: "es = ys @ (l, a, k, v) # zs" using entry_split[of es k] r(3) by (metis option.distinct(1))
    obtain s' om' where 1: "ordered_map_make_item_head s om k = Some (s', om', 0)"
      "map_rep s' om' ((l, a, k, v) # ys @ zs) ns" "items s' = items s" "nodes s' = nodes s"
      "\<And>b. b \<notin> fst ` set (ys @ (l, a, k, v) # zs) \<Longrightarrow> links s' b = links s b"
      by (rule ordered_map_make_item_head_rep[OF r(1)[unfolded es]]) (rule that)
    have "dom (links s') \<subseteq> fst ` set es"
      using grown_dom[of "fst ` set es" "links s'" "links s"] 1(5) r(2) by (simp add: owns_def es)
    then have "owns s' ((l, a, k, v) # ys @ zs) ns" using r(2) 1(3,4) by (simp add: owns_def es)
    from om_repI[OF 1(2) this] pairs_split[of ys l a k v zs] d 1(1)
    show ?thesis by (simp add: om_make_head_def om_lookup_def r(3) es)
  qed
qed

lemma om_rep_lookup: "om_rep s om m \<Longrightarrow> ordered_map_lookup s om k = Some (om_lookup m k)"
  by (auto simp: om_rep_def om_lookup_def ordered_map_lookup_rep)

lemma om_rep_size: "om_rep s om m \<Longrightarrow> ordered_map_size om = int (length m)"
  by (auto simp: om_rep_def ordered_map_size_rep)

lemma om_rep_free:
  assumes rep: "om_rep s om m"
  shows "ordered_map_free s om = Some \<lparr>items = Map.empty, links = Map.empty, nodes = Map.empty\<rparr>"
proof -
  from rep obtain es ns where r: "map_rep s om es ns" "owns s es ns" by (auto simp: om_rep_def)
  obtain s' where 1: "ordered_map_free s om = Some s'" "released es ns [] [] s s'"
    by (rule ordered_map_free_rep[OF r(1)]) (rule that)
  from owns_released[OF r(2) 1(2)] have "items s' = Map.empty" "links s' = Map.empty" "nodes s' = Map.empty"
    by (simp_all add: owns_def)
  then show ?thesis using 1(1) by (cases s') simp
qed


section \<open>All calls\<close>

lemma om_rep_malloc:
  assumes "om_rep s om m" "malloc_ok alloc"
  obtains a l n where "alloc s = (a, l, n)" "fresh3 s a l n"
  using assms owns_finite unfolding om_rep_def malloc_ok_def by (cases "alloc s") fastforce

lemma om_exec_refines:
  assumes rep: "om_rep s om m" and al: "malloc_ok alloc"
  shows "\<exists>s' om'. om_exec alloc op s om = Some (s', om', snd (om_spec op m)) \<and> om_rep s' om' (fst (om_spec op m))"
proof (cases op)
  case (AddHead k v)
  obtain a l n where "alloc s = (a, l, n)" "fresh3 s a l n" by (rule om_rep_malloc[OF assms])
  with om_rep_add_head[OF rep, of a l n k v] AddHead show ?thesis by auto
next
  case (AddTail k v)
  obtain a l n where "alloc s = (a, l, n)" "fresh3 s a l n" by (rule om_rep_malloc[OF assms])
  with om_rep_add_tail[OF rep, of a l n k v] AddTail show ?thesis by auto
next
  case (Remove k)
  with om_rep_remove[OF rep, of k] show ?thesis by auto
next
  case RemoveHead
  with om_rep_remove_head[OF rep] show ?thesis by auto
next
  case RemoveTail
  with om_rep_remove_tail[OF rep] show ?thesis by (auto simp: om_remove_tail_def split: if_splits)
next
  case (Lookup k)
  with om_rep_lookup[OF rep, of k] rep show ?thesis by auto
next
  case (MakeHead k)
  with om_rep_make_head[OF rep, of k] show ?thesis by auto
next
  case Size
  with om_rep_size[OF rep] rep show ?thesis by auto
qed

lemma om_execs_refines:
  assumes "malloc_ok alloc"
  shows "om_rep s om m \<Longrightarrow> \<exists>s' om'. om_execs alloc ops s om = Some (s', om', snd (om_specs ops m)) \<and> om_rep s' om' (fst (om_specs ops m))"
proof (induction ops arbitrary: s om m)
  case (Cons op ops)
  obtain s1 om1 where 1: "om_exec alloc op s om = Some (s1, om1, snd (om_spec op m))" "om_rep s1 om1 (fst (om_spec op m))"
    using om_exec_refines[OF Cons.prems assms] by blast
  from Cons.IH[OF 1(2)] 1(1) show ?case by (auto simp: Let_def case_prod_beta)
qed simp

definition empty_store :: "('k, 'v) store" where
  "empty_store = \<lparr>items = Map.empty, links = Map.empty, nodes = Map.empty\<rparr>"

lemma om_rep_new:
  fixes s :: "('k, 'v) store"
  assumes "comparator cmp" "s = empty_store"
  obtains om where "ordered_map_new s cmp = Some om" "om_rep s om []"
proof -
  obtain om where 1: "ordered_map_new s cmp = Some om" "map_rep s om [] []"
    by (rule ordered_map_new_rep[OF assms(1)])
  moreover have "owns s [] []" by (simp add: owns_def assms(2) empty_store_def)
  ultimately show thesis by (intro that) (auto simp: om_rep_def)
qed

section \<open>Properties\<close>

text \<open>
  C6. The ordered map is the list of its pairs: over any history of its operations on a new map, the
  linked list, the tree and the map items together return what the same operations on a plain
  list return (error codes, values, null pointers, sizes), no operation dereferences or frees a
  cell that is not allocated, no assertion fails, and the final ordered_map_free() leaves no cell.
\<close>

theorem ordered_map_refines_list:
  fixes alloc :: "('k, 'v) allocator"
  assumes "comparator cmp" "malloc_ok alloc"
  shows "\<exists>om s' om'. ordered_map_new (empty_store :: ('k, 'v) store) cmp = Some om \<and>
    om_execs alloc ops empty_store om = Some (s', om', snd (om_specs ops [])) \<and>
    ordered_map_free s' om' = Some empty_store"
proof -
  obtain om where om: "ordered_map_new (empty_store :: ('k, 'v) store) cmp = Some om" "om_rep (empty_store :: ('k, 'v) store) om []"
    by (rule om_rep_new[OF assms(1) refl])
  with om_execs_refines[OF assms(2) om(2), of ops] om_rep_free show ?thesis unfolding empty_store_def by blast
qed

text \<open>A concrete malloc(): one more than the largest address in use.\<close>

definition next_alloc :: "('k, 'v) allocator" where
  "next_alloc s = (let a = Suc (Max (insert 0 (dom (items s) \<union> dom (links s) \<union> dom (nodes s)))) in (a, a, a))"

lemma next_alloc_ok: "malloc_ok (next_alloc :: ('k, 'v) allocator)"
proof -
  have "fresh3 s a a a" if f: "finite (dom (items s))" "finite (dom (links s))" "finite (dom (nodes s))"
    and a: "a = Suc (Max (insert 0 (dom (items s) \<union> dom (links s) \<union> dom (nodes s))))" for s :: "('k, 'v) store" and a
  proof -
    have "b < a" if "b \<in> dom (items s) \<union> dom (links s) \<union> dom (nodes s)" for b
      unfolding a using f that by (intro le_imp_less_Suc Max_ge) auto
    then have "a \<notin> dom (items s) \<union> dom (links s) \<union> dom (nodes s)" by blast
    then show ?thesis by (auto simp: fresh3_def fresh_def a dom_def)
  qed
  then show ?thesis by (simp add: malloc_ok_def next_alloc_def Let_def)
qed

theorem ordered_map_refines_list_witness:
  "\<exists>om s' om'. ordered_map_new (empty_store :: (string, int) store) strcmp = Some om \<and>
    om_execs next_alloc [AddHead ''b'' 1, AddHead ''a'' 2, AddHead ''b'' 3, MakeHead ''b'', RemoveTail, Lookup ''a'', Size] empty_store om =
      Some (s', om', [Code 0, Code 0, Code (-1), Code 0, Value (Some (2::int)), Value None, Code 1]) \<and>
    ordered_map_free s' om' = Some empty_store"
proof -
  let ?ops = "[AddHead ''b'' 1, AddHead ''a'' 2, AddHead ''b'' 3, MakeHead ''b'', RemoveTail, Lookup ''a'', Size] :: (string, int) om_op list"
  have "snd (om_specs ?ops []) = [Code 0, Code 0, Code (-1), Code 0, Value (Some 2), Value None, Code 1]"
    by (simp add: om_add_head_def om_lookup_def om_make_head_def om_remove_tail_def)
  with ordered_map_refines_list[OF cstring.comparator_axioms next_alloc_ok, of ?ops] show ?thesis by (simp only:)
qed

end
