(* ===== verification/AvlProperties.thy ===== *)
theory AvlProperties
  imports AvlDelete Comparator
begin

text \<open>
  The tree of src/src/util/avltree.c over histories of calls: it is a map from keys to values, it
  leaks nothing, additions keep it balanced and its height logarithmic, and a deletion does not.
\<close>

section \<open>Histories\<close>

datatype ('k, 'v) avl_op = Add 'k 'v | Delete 'k | Find 'k

datatype 'v avl_result = Added int | Found "'v option"

fun avl_exec :: "(('k, 'v) nodes \<Rightarrow> addr) \<Rightarrow> ('k \<Rightarrow> 'k \<Rightarrow> int) \<Rightarrow> ('k, 'v) avl_op \<Rightarrow> ('k, 'v) nodes \<Rightarrow> avltree \<Rightarrow>
    (('k, 'v) nodes \<times> avltree \<times> 'v avl_result) option" where
  "avl_exec alloc cmp (Add k v) h T = do { (h, T, err) \<leftarrow> avltree_add_node cmp h T k v (alloc h); Some (h, T, Added err) }"
| "avl_exec alloc cmp (Delete k) h T = do { (h, T, v) \<leftarrow> avltree_delete_node cmp h T k; Some (h, T, Found v) }"
| "avl_exec alloc cmp (Find k) h T = do { v \<leftarrow> avltree_lookup cmp h T k; Some (h, T, Found v) }"

fun avl_execs :: "(('k, 'v) nodes \<Rightarrow> addr) \<Rightarrow> ('k \<Rightarrow> 'k \<Rightarrow> int) \<Rightarrow> ('k, 'v) avl_op list \<Rightarrow> ('k, 'v) nodes \<Rightarrow> avltree \<Rightarrow>
    (('k, 'v) nodes \<times> avltree \<times> 'v avl_result list) option" where
  "avl_execs alloc cmp [] h T = Some (h, T, [])"
| "avl_execs alloc cmp (op # ops) h T = do {
     (h, T, r) \<leftarrow> avl_exec alloc cmp op h T;
     (h, T, rs) \<leftarrow> avl_execs alloc cmp ops h T;
     Some (h, T, r # rs) }"

text \<open>The same calls on a map.\<close>

fun avl_spec :: "('k, 'v) avl_op \<Rightarrow> ('k \<rightharpoonup> 'v) \<Rightarrow> ('k \<rightharpoonup> 'v) \<times> 'v avl_result" where
  "avl_spec (Add k v) m = (if m k = None then (m(k \<mapsto> v), Added 0) else (m, Added 1))"
| "avl_spec (Delete k) m = (m(k := None), Found (m k))"
| "avl_spec (Find k) m = (m, Found (m k))"

fun avl_specs :: "('k, 'v) avl_op list \<Rightarrow> ('k \<rightharpoonup> 'v) \<Rightarrow> ('k \<rightharpoonup> 'v) \<times> 'v avl_result list" where
  "avl_specs [] m = (m, [])"
| "avl_specs (op # ops) m =
     (case avl_spec op m of (m, r) \<Rightarrow> (case avl_specs ops m of (m, rs) \<Rightarrow> (m, r # rs)))"

fun is_delete :: "('k, 'v) avl_op \<Rightarrow> bool" where
  "is_delete (Delete _) = True"
| "is_delete _ = False"

section \<open>One call\<close>

definition node_malloc_ok :: "(('k, 'v) nodes \<Rightarrow> addr) \<Rightarrow> bool" where
  "node_malloc_ok alloc \<longleftrightarrow> (\<forall>h. finite (dom h) \<longrightarrow> fresh h (alloc h))"

text \<open>The tree t is stored in the heap, and the heap holds nothing else.\<close>

definition avl_state :: "('k \<Rightarrow> 'k \<Rightarrow> int) \<Rightarrow> ('k, 'v) nodes \<Rightarrow> avltree \<Rightarrow> ('k, 'v) ltree \<Rightarrow> bool" where
  "avl_state cmp h T t \<longleftrightarrow> (\<exists>ns. avl_rep h T t ns \<and> dom h = set ns) \<and> bst cmp t"

fun avl_tree_spec :: "('k \<Rightarrow> 'k \<Rightarrow> int) \<Rightarrow> addr \<Rightarrow> ('k, 'v) avl_op \<Rightarrow> ('k, 'v) ltree \<Rightarrow> ('k, 'v) ltree" where
  "avl_tree_spec cmp a (Add k v) t = (if map_of (kvs t) k = None then ins cmp (a, k, v) t else t)"
| "avl_tree_spec cmp a (Delete k) t = del cmp k t"
| "avl_tree_spec cmp a (Find k) t = t"

lemma kvs_None: "map_of (kvs t) k = None \<longleftrightarrow> k \<notin> fst ` set (kvs t)"
  by (simp add: map_of_eq_None_iff)

lemma avl_state_finite: "avl_state cmp h T t \<Longrightarrow> finite (dom h)"
  by (auto simp: avl_state_def)

lemma avl_exec_add:
  assumes st: "avl_state cmp h T t" and cmp: "comparator cmp" and a: "fresh h a"
  shows "\<exists>h' T'. avltree_add_node cmp h T k v a = Some (h', T', if map_of (kvs t) k = None then 0 else 1) \<and>
    avl_state cmp h' T' (avl_tree_spec cmp a (Add k v) t)"
proof -
  from st obtain ns where rep: "avl_rep h T t ns" "dom h = set ns" and b: "bst cmp t" by (auto simp: avl_state_def)
  show ?thesis
  proof (cases "map_of (kvs t) k")
    case None
    then have k: "k \<notin> fst ` set (kvs t)" by (simp add: kvs_None)
    then have "snd (path cmp k t []) = Leaf" using comparator.path_Leaf_iff[OF cmp b] by blast
    then obtain h' T' where 1: "avltree_add_node cmp h T k v a = Some (h', T', 0)"
      "avl_rep h' T' (ins cmp (a, k, v) t) (ns @ [a])" "\<And>y. y \<notin> insert a (set ns) \<Longrightarrow> h' y = h y"
      using avltree_add_node_rep[OF rep(1) a] by metis
    have "dom h' = set (ns @ [a])"
      using 1(3) rep(2) avl_rep_alloc[OF 1(2)] by (fastforce simp: dom_def)
    with 1 None comparator.ins_bst[OF cmp b, of "(a, k, v)"] k show ?thesis by (auto simp: avl_state_def)
  next
    case (Some w)
    then have "\<not> k \<notin> fst ` set (kvs t)" using kvs_None[of t k] by simp
    then have "snd (path cmp k t []) \<noteq> Leaf" using comparator.path_Leaf_iff[OF cmp b] by blast
    with avltree_add_node_exists[OF rep(1) this] Some st show ?thesis by auto
  qed
qed

lemma avl_exec_delete:
  assumes st: "avl_state cmp h T t" and cmp: "comparator cmp"
  shows "\<exists>h' T'. avltree_delete_node cmp h T k = Some (h', T', map_of (kvs t) k) \<and> avl_state cmp h' T' (del cmp k t)"
proof -
  from st obtain ns where rep: "avl_rep h T t ns" "dom h = set ns" and b: "bst cmp t" by (auto simp: avl_state_def)
  obtain ds u where pt: "path cmp k t [] = (ds, u)" by fastforce
  show ?thesis
  proof (cases u)
    case Leaf
    with pt have l: "snd (path cmp k t []) = Leaf" by simp
    then have "map_of (kvs t) k = None" using comparator.path_Leaf_iff[OF cmp b] by (simp add: kvs_None)
    with avltree_delete_node_missing[OF rep(1) l] st pt Leaf show ?thesis by (simp add: del_def)
  next
    case (Node l x r)
    obtain a nk v where x: "x = (a, nk, v)" by (cases x)
    note p = pt[unfolded Node x]
    let ?b = "snd (del_root (Node l (a, nk, v) r))"
    obtain h' T' where 1: "avltree_delete_node cmp h T k = Some (h', T', Some v)"
      "avl_rep h' T' (del cmp k t) (remove1 ?b ns)" "h' ?b = None" "\<And>y. y \<notin> set ns \<Longrightarrow> h' y = h y"
      by (rule avltree_delete_node_rep[OF rep(1) p]) (rule that)
    have d: "distinct ns" using rep(1) by (simp add: avl_rep_def)
    have "dom h' = set (remove1 ?b ns)"
    proof
      show "dom h' \<subseteq> set (remove1 ?b ns)"
      proof
        fix y assume y: "y \<in> dom h'"
        then have "y \<noteq> ?b" using 1(3) by auto
        moreover have "y \<in> set ns" using y 1(4)[of y] rep(2) by (cases "y \<in> set ns") (auto simp: dom_def)
        ultimately show "y \<in> set (remove1 ?b ns)" by simp
      qed
      show "set (remove1 ?b ns) \<subseteq> dom h'" using avl_rep_alloc[OF 1(2)] by blast
    qed
    with 1(1,2) comparator.path_value(2)[OF cmp b p] comparator.del_bst[OF cmp b] show ?thesis
      by (auto simp: avl_state_def)
  qed
qed

lemma avl_exec_refines:
  assumes st: "avl_state cmp h T t" and cmp: "comparator cmp" and al: "node_malloc_ok alloc"
  shows "\<exists>h' T'. avl_exec alloc cmp op h T = Some (h', T', snd (avl_spec op (map_of (kvs t)))) \<and>
    avl_state cmp h' T' (avl_tree_spec cmp (alloc h) op t) \<and>
    map_of (kvs (avl_tree_spec cmp (alloc h) op t)) = fst (avl_spec op (map_of (kvs t)))"
proof (cases op)
  case (Add k v)
  have b: "bst cmp t" using st by (simp add: avl_state_def)
  have "fresh h (alloc h)" using al avl_state_finite[OF st] by (simp add: node_malloc_ok_def)
  from avl_exec_add[OF st cmp this, of k v] comparator.map_of_ins[OF cmp b, of k "alloc h" v] Add kvs_None[of t k]
  show ?thesis by (cases "map_of (kvs t) k") auto
next
  case (Delete k)
  have b: "bst cmp t" using st by (simp add: avl_state_def)
  from avl_exec_delete[OF st cmp, of k] comparator.map_of_del[OF cmp b, of k] Delete show ?thesis by auto
next
  case (Find k)
  from st obtain ns where "avl_rep h T t ns" "bst cmp t" by (auto simp: avl_state_def)
  from avltree_lookup_rep[OF this(1) cmp this(2), of k] Find st show ?thesis by simp
qed

lemma avl_execs_refines:
  assumes cmp: "comparator cmp" and al: "node_malloc_ok alloc"
  shows "avl_state cmp h T t \<Longrightarrow> \<exists>h' T' t'. avl_execs alloc cmp ops h T = Some (h', T', snd (avl_specs ops (map_of (kvs t)))) \<and>
    avl_state cmp h' T' t' \<and> map_of (kvs t') = fst (avl_specs ops (map_of (kvs t))) \<and>
    (avl t \<longrightarrow> (\<forall>op \<in> set ops. \<not> is_delete op) \<longrightarrow> avl t')"
proof (induction ops arbitrary: h T t)
  case (Cons op ops)
  let ?t = "avl_tree_spec cmp (alloc h) op t"
  obtain h1 T1 where 1: "avl_exec alloc cmp op h T = Some (h1, T1, snd (avl_spec op (map_of (kvs t))))"
    "avl_state cmp h1 T1 ?t" "map_of (kvs ?t) = fst (avl_spec op (map_of (kvs t)))"
    using avl_exec_refines[OF Cons.prems cmp al, of op] by blast
  have "avl t \<Longrightarrow> \<not> is_delete op \<Longrightarrow> avl ?t"
    using ins_grows[of t cmp] by (cases op) (auto simp: grows_def)
  moreover obtain h' T' t' where "avl_execs alloc cmp ops h1 T1 = Some (h', T', snd (avl_specs ops (map_of (kvs ?t))))"
    "avl_state cmp h' T' t'" "map_of (kvs t') = fst (avl_specs ops (map_of (kvs ?t)))"
    "avl ?t \<longrightarrow> (\<forall>op \<in> set ops. \<not> is_delete op) \<longrightarrow> avl t'"
    using Cons.IH[OF 1(2)] by blast
  ultimately show ?case using 1(1,3)
    by (intro exI[of _ h'] exI[of _ T'] exI[of _ t']) (auto simp: case_prod_beta)
qed auto

text \<open>The trees of a history, for the addresses that malloc() returned.\<close>

lemma avl_execs_trees:
  assumes cmp: "comparator cmp" and al: "node_malloc_ok alloc"
  shows "avl_state cmp h T t \<Longrightarrow> \<exists>as h' T' rs. length as = length ops \<and> avl_execs alloc cmp ops h T = Some (h', T', rs) \<and>
    avl_state cmp h' T' (fold (\<lambda>(a, op). avl_tree_spec cmp a op) (zip as ops) t)"
proof (induction ops arbitrary: h T t)
  case (Cons op ops)
  obtain h1 T1 r where 1: "avl_exec alloc cmp op h T = Some (h1, T1, r)" "avl_state cmp h1 T1 (avl_tree_spec cmp (alloc h) op t)"
    using avl_exec_refines[OF Cons.prems cmp al, of op] by blast
  obtain as h' T' rs where "length as = length ops" "avl_execs alloc cmp ops h1 T1 = Some (h', T', rs)"
    "avl_state cmp h' T' (fold (\<lambda>(a, op). avl_tree_spec cmp a op) (zip as ops) (avl_tree_spec cmp (alloc h) op t))"
    using Cons.IH[OF 1(2)] by blast
  with 1(1) show ?case by (intro exI[of _ "alloc h # as"] exI[of _ h'] exI[of _ T'] exI[of _ "r # rs"]) simp
qed auto

lemma avl_state_new: "avl_state cmp Map.empty avltree_new Leaf"
  using avltree_new_rep by (auto simp: avl_state_def intro!: exI[of _ "[]"])

lemma avl_state_free: "avl_state cmp h T t \<Longrightarrow> avltree_free h T = Some Map.empty"
  using avltree_free_rep by (fastforce simp: avl_state_def dom_def)

lemma avl_height: "avl t \<Longrightarrow> 2 ^ (height t div 2) \<le> size t + 1"
proof (induction t)
  case (Node l x r)
  show ?case
  proof (cases "height (Node l x r) \<ge> 2")
    case True
    let ?n = "(height (Node l x r) - 2) div 2"
    have h: "height (Node l x r) - 2 \<le> height l" "height (Node l x r) - 2 \<le> height r" using Node.prems by auto
    have "2 ^ ?n \<le> size s + 1" if "2 ^ (height s div 2) \<le> size s + 1" "height (Node l x r) - 2 \<le> height s" for s :: "'a tree"
    proof -
      have "(2::nat) ^ ?n \<le> 2 ^ (height s div 2)" using that(2) by (intro power_increasing div_le_mono) simp_all
      with that(1) show ?thesis by linarith
    qed
    from this[OF _ h(1)] this[OF _ h(2)] Node have "2 * 2 ^ ?n \<le> size (Node l x r) + 1" by simp
    moreover have "height (Node l x r) div 2 = Suc ?n" using True by linarith
    ultimately show ?thesis by (simp only: power_Suc)
  next
    case False
    then have "height (Node l x r) div 2 = 0" by simp
    then show ?thesis by (simp only: power_0)
  qed
qed simp


section \<open>Properties\<close>

text \<open>
  C7. The tree is a map: over any history of additions, deletions and lookups on a new tree, the
  calls return what the same calls on a map return, no call touches unallocated memory, every
  loop ends, and the final avltree_free() leaves no node.
\<close>

theorem avltree_refines_map:
  assumes "comparator cmp" "node_malloc_ok alloc"
  shows "\<exists>h T. avl_execs alloc cmp ops Map.empty avltree_new = Some (h, T, snd (avl_specs ops Map.empty)) \<and>
    avltree_free h T = Some Map.empty"
  using avl_execs_refines[OF assms avl_state_new[of cmp], of ops] avl_state_free by fastforce

definition next_node :: "('k, 'v) nodes \<Rightarrow> addr" where
  "next_node h = Suc (Max (insert 0 (dom h)))"

lemma next_node_ok: "node_malloc_ok (next_node :: ('k, 'v) nodes \<Rightarrow> addr)"
proof -
  have "h (Suc (Max (insert 0 (dom h)))) = None" if "finite (dom h)" for h :: "('k, 'v) nodes"
  proof (rule ccontr)
    assume "h (Suc (Max (insert 0 (dom h)))) \<noteq> None"
    then have "Suc (Max (insert 0 (dom h))) \<le> Max (insert 0 (dom h))" using that by (intro Max_ge) auto
    then show False by simp
  qed
  then show ?thesis by (simp add: node_malloc_ok_def fresh_def next_node_def)
qed

theorem avltree_refines_map_witness:
  "\<exists>h T. avl_execs next_node strcmp [Add ''b'' 1, Add ''a'' 2, Add ''b'' 3, Delete ''a'', Find ''b''] Map.empty avltree_new =
     Some (h, T, [Added 0, Added 0, Added 1, Found (Some 2), Found (Some (1::int))]) \<and>
    avltree_free h T = Some Map.empty"
proof -
  let ?ops = "[Add ''b'' 1, Add ''a'' 2, Add ''b'' 3, Delete ''a'', Find ''b''] :: (string, int) avl_op list"
  have "snd (avl_specs ?ops Map.empty) = [Added 0, Added 0, Added 1, Found (Some 2), Found (Some 1)]" by simp
  with avltree_refines_map[OF cstring.comparator_axioms next_node_ok, of ?ops] show ?thesis by (simp only:)
qed

text \<open>
  C19. Additions keep the tree balanced: after any number of additions and lookups, the stored tree
  satisfies the AVL condition at every node, it is a search tree, and a search visits at most
  2 log2 (n + 1) + 1 nodes (2 to the power of half its height is at most n + 1).
\<close>

theorem additions_keep_balance:
  assumes "comparator cmp" "node_malloc_ok alloc" "\<forall>op \<in> set ops. \<not> is_delete op"
  shows "\<exists>h T rs t ns. avl_execs alloc cmp ops Map.empty avltree_new = Some (h, T, rs) \<and> avl_rep h T t ns \<and>
    avl t \<and> bst cmp t \<and> 2 ^ (height t div 2) \<le> size t + 1"
proof -
  obtain h T t where "avl_execs alloc cmp ops Map.empty avltree_new = Some (h, T, snd (avl_specs ops (map_of (kvs Leaf))))"
    "avl_state cmp h T t" "avl t"
    using avl_execs_refines[OF assms(1,2) avl_state_new[of cmp], of ops] assms(3) by auto
  with avl_height[of t] show ?thesis unfolding avl_state_def by blast
qed

theorem additions_keep_balance_witness:
  "\<exists>h T rs t ns. avl_execs next_node strcmp [Add ''a'' (1::int), Add ''b'' 2, Add ''c'' 3] Map.empty avltree_new = Some (h, T, rs) \<and>
    avl_rep h T t ns \<and> avl t \<and> bst strcmp t \<and> 2 ^ (height t div 2) \<le> size t + 1"
  by (rule additions_keep_balance[OF cstring.comparator_axioms next_node_ok]) simp

text \<open>
  C24. Deletions do not: after the keys a, b, c, d are added and a is deleted, the stored tree
  violates the AVL condition at its root.  The code passes the parent of the removed node to
  rebalance(), which starts at the parent of its argument.
\<close>

theorem deletion_loses_balance:
  "\<exists>h T rs t ns. avl_execs next_node strcmp [Add ''a'' (1::int), Add ''b'' 2, Add ''c'' 3, Add ''d'' 4, Delete ''a''] Map.empty avltree_new =
     Some (h, T, rs) \<and> avl_rep h T t ns \<and> \<not> avl t \<and> balance t = 2"
proof -
  let ?ops = "[Add ''a'' (1::int), Add ''b'' 2, Add ''c'' 3, Add ''d'' 4, Delete ''a'']"
  have "length ?ops = 5" by simp
  then obtain as h T rs where 1: "length as = 5" "avl_execs next_node strcmp ?ops Map.empty avltree_new = Some (h, T, rs)"
    "avl_state strcmp h T (fold (\<lambda>(a, op). avl_tree_spec strcmp a op) (zip as ?ops) Leaf)"
    using avl_execs_trees[OF cstring.comparator_axioms next_node_ok avl_state_new, of ?ops] by metis
  let ?t = "fold (\<lambda>(a, op). avl_tree_spec strcmp a op) (zip as ?ops) Leaf"
  obtain a1 a2 a3 a4 a5 where "as = [a1, a2, a3, a4, a5]"
    using 1(1) by (auto simp: length_Suc_conv eval_nat_numeral)
  then have "\<not> avl ?t \<and> balance ?t = 2"
    by (simp add: rebal1.simps Let_def del_def del_root_def)
  with 1(2,3) show ?thesis unfolding avl_state_def by blast
qed


text \<open>
  node_height() computes the height: on every node of a stored tree its three nested loops
  return, and the result is the height of the subtree below the node.
\<close>

theorem node_height_correct:
  assumes "is_tree h par p t" "distinct (addrs t)" "par = NULL \<or> h par \<noteq> None"
  shows "node_height h p = Some (int (height t))"
  by (rule node_height_tree[OF assms])

definition sample_nodes :: "(string, int) nodes" where
  "sample_nodes = [1 \<mapsto> \<lparr>n_key = Some ''b'', n_val = Some 7, n_left = 2, n_right = NULL, n_parent = NULL, n_next = NULL, n_prev = 2\<rparr>,
     2 \<mapsto> \<lparr>n_key = Some ''a'', n_val = Some 9, n_left = NULL, n_right = NULL, n_parent = 1, n_next = 1, n_prev = NULL\<rparr>]"

theorem node_height_correct_witness:
  "node_height sample_nodes 1 = Some 2"
proof -
  have "is_tree sample_nodes NULL 1 (Node (Node Leaf (2, ''a'', 9) Leaf) (1, ''b'', 7) Leaf)"
    by (simp add: sample_nodes_def)
  from node_height_correct[OF this] show ?thesis by simp
qed

end
