(* ===== verification/DatasetCache.thy ===== *)
theory DatasetCache
  imports LruCache Comparator
begin

text \<open>
  The cache of open datasets of one file, src/src/hdf5/dataset_cache.c.  The file is compiled
  twice, with and without SHADOW_CACHE: the argument shadow selects the variant.  A call of
  H5Dopen() is the environment's choice: the identifier it returns, should it be called, is an
  argument.  Every operation also returns the HDF5 calls it makes, in order.
\<close>

section \<open>Data\<close>

datatype h5_call =
    H5Dopen int string int
  | H5Dclose int
  | H5Fopen string int
  | H5Fclose int
  | Malloc_trim

record dataset_cache_entry =
  dce_dataset_id :: int
  dce_name :: string

record dataset_cache =
  dc_max_open_datasets :: int
  dc_file_id :: int
  dc_map :: "(string, dataset_cache_entry) omap"

section \<open>Operations\<close>

definition dataset_cache_entry_new :: "int \<Rightarrow> string \<Rightarrow> dataset_cache_entry" where
  "dataset_cache_entry_new dataset_id name = \<lparr>dce_dataset_id = dataset_id, dce_name = name\<rparr>"

definition dataset_cache_new :: "int \<Rightarrow> int \<Rightarrow> dataset_cache" where
  "dataset_cache_new file_id max_open_datasets =
     \<lparr>dc_max_open_datasets = max_open_datasets, dc_file_id = file_id, dc_map = []\<rparr>"

definition dataset_closes :: "bool \<Rightarrow> dataset_cache_entry list \<Rightarrow> h5_call list" where
  "dataset_closes shadow es = (if shadow then [] else map (H5Dclose \<circ> dce_dataset_id) es)"

definition dataset_cache_free :: "bool \<Rightarrow> dataset_cache \<Rightarrow> h5_call list option" where
  "dataset_cache_free shadow ds_cache = do {
     (_, old) \<leftarrow> evict 1 (dc_map ds_cache);
     Some (dataset_closes shadow old) }"

definition dataset_cache_open_dataset ::
  "bool \<Rightarrow> int \<Rightarrow> dataset_cache \<Rightarrow> string \<Rightarrow> (dataset_cache \<times> int \<times> h5_call list) option" where
  "dataset_cache_open_dataset shadow opened ds_cache name =
     (case om_lookup (dc_map ds_cache) name of
        Some entry \<Rightarrow> do {
          c_assert (strcmp (dce_name entry) name = 0);
          Some (ds_cache\<lparr>dc_map := om_make_head (dc_map ds_cache) name\<rparr>, dce_dataset_id entry, []) }
      | None \<Rightarrow>
          (let dataset_id = (if shadow then 0 else opened);
               calls = (if shadow then [] else [H5Dopen (dc_file_id ds_cache) name opened])
           in if \<not> shadow \<and> dataset_id < 0 then Some (ds_cache, dataset_id, calls)
              else do {
                c_assert (dc_max_open_datasets ds_cache \<ge> 1);
                (m, old) \<leftarrow> evict (dc_max_open_datasets ds_cache) (dc_map ds_cache);
                let new_entry = dataset_cache_entry_new dataset_id name;
                Some (ds_cache\<lparr>dc_map := om_add_head m (dce_name new_entry) new_entry\<rparr>, dataset_id,
                      calls @ dataset_closes shadow old) }))"

section \<open>Behaviour\<close>

definition dc_names :: "dataset_cache \<Rightarrow> string list" where
  "dc_names c = map fst (dc_map c)"

definition dc_inv :: "dataset_cache \<Rightarrow> bool" where
  "dc_inv c \<longleftrightarrow> 1 \<le> dc_max_open_datasets c \<and> distinct (dc_names c) \<and>
     length (dc_names c) \<le> nat (dc_max_open_datasets c) \<and> (\<forall>p \<in> set (dc_map c). dce_name (snd p) = fst p \<and> 0 \<le> dce_dataset_id (snd p))"

definition dc_handles :: "dataset_cache \<Rightarrow> int list" where
  "dc_handles c = map (dce_dataset_id \<circ> snd) (dc_map c)"

lemma dataset_cache_new_inv: "1 \<le> m \<Longrightarrow> dc_inv (dataset_cache_new f m)"
  by (simp add: dc_inv_def dc_names_def dataset_cache_new_def)

lemma dc_entry_name: "dc_inv c \<Longrightarrow> om_lookup (dc_map c) k = Some e \<Longrightarrow> dce_name e = k"
  by (auto simp: dc_inv_def om_lookup_def dest!: map_of_SomeD)

lemma dc_entry_id: "dc_inv c \<Longrightarrow> om_lookup (dc_map c) k = Some e \<Longrightarrow> 0 \<le> dce_dataset_id e"
  by (auto simp: dc_inv_def om_lookup_def dest!: map_of_SomeD)

lemma dataset_cache_hit:
  assumes "dc_inv c" "k \<in> set (dc_names c)"
  obtains e where "om_lookup (dc_map c) k = Some e" "dataset_cache_open_dataset shadow opened c k =
    Some (c\<lparr>dc_map := om_make_head (dc_map c) k\<rparr>, dce_dataset_id e, [])"
proof -
  from assms(2) obtain e where e: "om_lookup (dc_map c) k = Some e"
    using om_lookup_Some unfolding dc_names_def by metis
  with dc_entry_name[OF assms(1) e] that show thesis
    by (simp add: dataset_cache_open_dataset_def strcmp_eq)
qed

lemma dataset_cache_fail:
  assumes "k \<notin> set (dc_names c)" "\<not> shadow" "opened < 0"
  shows "dataset_cache_open_dataset shadow opened c k = Some (c, opened, [H5Dopen (dc_file_id c) k opened])"
proof -
  have "om_lookup (dc_map c) k = None" using assms(1) by (simp add: dc_names_def om_lookup_None)
  with assms(2,3) show ?thesis by (simp add: dataset_cache_open_dataset_def)
qed

lemma dataset_cache_miss:
  assumes "dc_inv c" "k \<notin> set (dc_names c)" "shadow \<or> opened \<ge> 0"
  defines "did \<equiv> if shadow then 0 else opened" and "n \<equiv> nat (dc_max_open_datasets c - 1)"
  shows "dataset_cache_open_dataset shadow opened c k =
    Some (c\<lparr>dc_map := (k, \<lparr>dce_dataset_id = did, dce_name = k\<rparr>) # take n (dc_map c)\<rparr>, did,
      (if shadow then [] else [H5Dopen (dc_file_id c) k opened]) @
      dataset_closes shadow (rev (map snd (drop n (dc_map c)))))"
proof -
  from assms(2) have l: "om_lookup (dc_map c) k = None"
    by (simp add: dc_names_def om_lookup_None)
  have "k \<notin> set (map fst (take n (dc_map c)))"
    using assms(2) by (auto simp: dc_names_def dest: in_set_takeD)
  moreover have "1 \<le> dc_max_open_datasets c" using assms(1) by (simp add: dc_inv_def)
  ultimately show ?thesis
    using l assms(3) evict_spec[of "dc_max_open_datasets c" "dc_map c"]
    by (auto simp: dataset_cache_open_dataset_def dataset_cache_entry_new_def om_add_head_def did_def n_def)
qed

definition dc_access :: "bool \<Rightarrow> (string \<Rightarrow> int) \<Rightarrow> string \<Rightarrow> dataset_cache \<Rightarrow> dataset_cache" where
  "dc_access shadow opened k c =
     (case dataset_cache_open_dataset shadow (opened k) c k of None \<Rightarrow> c | Some (c', _) \<Rightarrow> c')"

lemma dc_inv_hit:
  assumes "dc_inv c" "k \<in> set (dc_names c)"
  shows "dc_inv (c\<lparr>dc_map := om_make_head (dc_map c) k\<rparr>)"
proof -
  have n: "map fst (om_make_head (dc_map c) k) = k # removeAll k (dc_names c)"
    using om_make_head_keys assms(2) by (simp add: dc_names_def)
  moreover have "distinct (dc_names c)" using assms(1) by (simp add: dc_inv_def)
  moreover from this assms(2) have "Suc (length (removeAll k (dc_names c))) = length (dc_names c)"
    by (simp add: distinct_remove1_removeAll[symmetric] length_remove1)
      (metis length_pos_if_in_set Suc_pred)
  ultimately show ?thesis
    using assms(1) om_make_head_set[of "dc_map c" k]
    by (simp add: dc_inv_def dc_names_def distinct_removeAll)
qed

lemma dc_inv_miss:
  assumes "dc_inv c" "k \<notin> set (dc_names c)" "0 \<le> did"
  shows "dc_inv (c\<lparr>dc_map := (k, \<lparr>dce_dataset_id = did, dce_name = k\<rparr>) # take (nat (dc_max_open_datasets c - 1)) (dc_map c)\<rparr>)"
  using assms
  by (auto simp: dc_inv_def dc_names_def simp flip: take_map dest: in_set_takeD)

text \<open>The three outcomes of a request.\<close>

lemma dataset_cache_cases:
  assumes "dc_inv c"
  obtains (hit) e where "k \<in> set (dc_names c)" "om_lookup (dc_map c) k = Some e"
      "dataset_cache_open_dataset shadow opened c k =
         Some (c\<lparr>dc_map := om_make_head (dc_map c) k\<rparr>, dce_dataset_id e, [])"
    | (fail) "k \<notin> set (dc_names c)" "\<not> shadow" "opened < 0"
      "dataset_cache_open_dataset shadow opened c k = Some (c, opened, [H5Dopen (dc_file_id c) k opened])"
    | (miss) did where "k \<notin> set (dc_names c)" "shadow \<or> opened \<ge> 0" "did = (if shadow then 0 else opened)"
      "dataset_cache_open_dataset shadow opened c k =
        Some (c\<lparr>dc_map := (k, \<lparr>dce_dataset_id = did, dce_name = k\<rparr>) # take (nat (dc_max_open_datasets c - 1)) (dc_map c)\<rparr>,
          did, (if shadow then [] else [H5Dopen (dc_file_id c) k opened]) @
          dataset_closes shadow (rev (map snd (drop (nat (dc_max_open_datasets c - 1)) (dc_map c)))))"
proof -
  consider "k \<in> set (dc_names c)" | "k \<notin> set (dc_names c)" "\<not> shadow" "opened < 0"
    | "k \<notin> set (dc_names c)" "shadow \<or> opened \<ge> 0" by linarith
  then show thesis
  proof cases
    case 1
    show thesis by (rule dataset_cache_hit[OF assms 1]) (rule hit[OF 1])
  next
    case 2
    then show thesis by (intro fail dataset_cache_fail)
  next
    case 3
    then show thesis using dataset_cache_miss[OF assms 3] by (intro miss[OF 3 refl])
  qed
qed

lemma dataset_cache_open_ok:
  assumes "dc_inv c"
  obtains c' did calls where "dataset_cache_open_dataset shadow opened c k = Some (c', did, calls)" "dc_inv c'"
    "dc_max_open_datasets c' = dc_max_open_datasets c" "dc_file_id c' = dc_file_id c"
  using assms
proof (cases rule: dataset_cache_cases[of c k shadow opened])
  case (hit e)
  with dc_inv_hit[OF assms] show thesis by (intro that[OF hit(3)]) simp_all
next
  case fail
  with assms show thesis by (intro that[OF fail(4)]) simp_all
next
  case (miss did)
  then have "0 \<le> did" by (auto split: if_splits)
  with miss dc_inv_miss[OF assms miss(1)] show thesis by (intro that[OF miss(4)]) simp_all
qed

interpretation dataset_lru: lru_cache dc_names dc_max_open_datasets dc_inv "dc_access shadow opened"
  "\<lambda>k. shadow \<or> opened k \<ge> 0" for shadow opened
proof
  fix c k
  assume inv: "dc_inv c"
  then show "1 \<le> dc_max_open_datasets c" "distinct (dc_names c)"
    "length (dc_names c) \<le> nat (dc_max_open_datasets c)"
    by (simp_all add: dc_inv_def)
  show "dc_inv (dc_access shadow opened k c)" 
    "dc_max_open_datasets (dc_access shadow opened k c) = dc_max_open_datasets c"
    by (rule dataset_cache_open_ok[OF inv, of shadow "opened k" k]; simp add: dc_access_def)+
  show "dc_names (dc_access shadow opened k c) = k # removeAll k (dc_names c)" if "k \<in> set (dc_names c)"
    using inv
    by (cases rule: dataset_cache_cases[of c k shadow "opened k"])
      (use that om_make_head_keys[of k "dc_map c"] in \<open>simp_all add: dc_access_def dc_names_def\<close>)
  show "dc_names (dc_access shadow opened k c) = k # take (nat (dc_max_open_datasets c - 1)) (dc_names c)"
    if "k \<notin> set (dc_names c)" "shadow \<or> opened k \<ge> 0"
    using inv
    by (cases rule: dataset_cache_cases[of c k shadow "opened k"])
      (use that in \<open>auto simp: dc_access_def dc_names_def take_map\<close>)
  show "dc_names (dc_access shadow opened k c) = dc_names c"
    if "k \<notin> set (dc_names c)" "\<not> (shadow \<or> opened k \<ge> 0)"
    using inv
    by (cases rule: dataset_cache_cases[of c k shadow "opened k"])
      (use that in \<open>auto simp: dc_access_def\<close>)
qed

interpretation dataset_shadow: shadowed dc_names dc_max_open_datasets dc_inv "dc_access False opened"
  "\<lambda>k. False \<or> opened k \<ge> 0" dc_names dc_max_open_datasets dc_inv "dc_access True opened'" for opened opened'
  by (intro shadowed.intro dataset_lru.lru_cache_axioms) (use dataset_lru.lru_cache_axioms[of True] in simp)

section \<open>HDF5 handles\<close>

text \<open>The identifiers that the calls opened and closed.\<close>

fun opened_datasets :: "h5_call list \<Rightarrow> int list" where
  "opened_datasets [] = []"
| "opened_datasets (H5Dopen f n d # cs) = (if d \<ge> 0 then d # opened_datasets cs else opened_datasets cs)"
| "opened_datasets (_ # cs) = opened_datasets cs"

fun closed_datasets :: "h5_call list \<Rightarrow> int list" where
  "closed_datasets [] = []"
| "closed_datasets (H5Dclose d # cs) = d # closed_datasets cs"
| "closed_datasets (_ # cs) = closed_datasets cs"

lemma datasets_append [simp]:
  "opened_datasets (cs @ ds) = opened_datasets cs @ opened_datasets ds"
  "closed_datasets (cs @ ds) = closed_datasets cs @ closed_datasets ds"
  by (induction cs rule: opened_datasets.induct) auto

lemma datasets_closes [simp]:
  "opened_datasets (dataset_closes sh es) = []"
  "closed_datasets (dataset_closes sh es) = (if sh then [] else map dce_dataset_id es)"
  by (induction es) (auto simp: dataset_closes_def)

theorem dataset_cache_handles:
  assumes "dc_inv c" "dataset_cache_open_dataset False opened c k = Some (c', did, calls)"
  shows "mset (dc_handles c') + mset (closed_datasets calls) = mset (dc_handles c) + mset (opened_datasets calls)"
    and "did \<ge> 0 \<Longrightarrow> did \<in> set (dc_handles c')"
proof -
  have "mset (dc_handles c') + mset (closed_datasets calls) = mset (dc_handles c) + mset (opened_datasets calls) \<and>
    (did \<ge> 0 \<longrightarrow> did \<in> set (dc_handles c'))"
    using assms(1)
  proof (cases rule: dataset_cache_cases[of c k False opened])
    case (hit e)
    have "mset (om_make_head (dc_map c) k) = mset (dc_map c)"
      using assms(1) by (simp add: om_make_head_mset dc_inv_def dc_names_def)
    moreover have "(k, e) \<in> set (om_make_head (dc_map c) k)"
      using hit(2) by (simp add: om_make_head_def om_lookup_def)
    ultimately show ?thesis
      using hit(3) assms(2) by (force simp: dc_handles_def mset_map simp flip: multiset.map_comp)
  next
    case fail
    with assms(2) show ?thesis by (auto simp: dc_handles_def)
  next
    case (miss d)
    let ?n = "nat (dc_max_open_datasets c - 1)"
    have "mset (take ?n (dc_map c)) + mset (drop ?n (dc_map c)) = mset (dc_map c)"
      by (metis append_take_drop_id mset_append)
    then have "image_mset (dce_dataset_id \<circ> snd) (mset (take ?n (dc_map c))) +
       image_mset (dce_dataset_id \<circ> snd) (mset (drop ?n (dc_map c))) = image_mset (dce_dataset_id \<circ> snd) (mset (dc_map c))"
      by (metis image_mset_union)
    with miss assms(2) show ?thesis by (auto simp: dc_handles_def multiset.map_comp)
  qed
  then show "mset (dc_handles c') + mset (closed_datasets calls) = mset (dc_handles c) + mset (opened_datasets calls)"
    "did \<ge> 0 \<Longrightarrow> did \<in> set (dc_handles c')" by blast+
qed

theorem dataset_cache_free_closes:
  "dataset_cache_free shadow c = Some (dataset_closes shadow (rev (map snd (dc_map c))))"
  using evict_spec[of 1 "dc_map c"] by (simp add: dataset_cache_free_def)

end
