(* ===== verification/FileCache.thy ===== *)
theory FileCache
  imports DatasetCache
begin

text \<open>
  The cache of open files, src/src/hdf5/file_cache.c.  Each entry holds the dataset cache of its
  file.  As in DatasetCache, shadow selects the SHADOW_CACHE variant and the results of
  H5Fopen(), H5Dopen() and time() are arguments.  A pointer to an entry is represented by the
  name of the file, under which the map holds the entry.
\<close>

section \<open>Data\<close>

record file_cache_entry =
  fce_file_id :: int
  fce_last_accessed :: int
  fce_name :: string
  fce_ds_cache :: dataset_cache

record file_cache =
  fc_max_open_files :: int
  fc_max_open_datasets :: int
  fc_map :: "(string, file_cache_entry) omap"
  fc_nr_cache_hits :: int
  fc_nr_cache_misses :: int

section \<open>Operations\<close>

definition file_cache_entry_new :: "int \<Rightarrow> int \<Rightarrow> string \<Rightarrow> int \<Rightarrow> file_cache_entry" where
  "file_cache_entry_new now file_id name max_open_datasets =
     \<lparr>fce_file_id = file_id, fce_last_accessed = now, fce_name = name,
      fce_ds_cache = dataset_cache_new file_id max_open_datasets\<rparr>"

definition file_cache_entry_free :: "bool \<Rightarrow> file_cache_entry \<Rightarrow> h5_call list option" where
  "file_cache_entry_free shadow entry = dataset_cache_free shadow (fce_ds_cache entry)"

definition file_cache_new :: "int \<Rightarrow> int \<Rightarrow> file_cache" where
  "file_cache_new max_open_files max_open_datasets =
     \<lparr>fc_max_open_files = max_open_files, fc_max_open_datasets = max_open_datasets, fc_map = [],
      fc_nr_cache_hits = 0, fc_nr_cache_misses = 0\<rparr>"

text \<open>The body of the three loops that close files: close the file, then free its entry.\<close>

fun close_entries :: "bool \<Rightarrow> file_cache_entry list \<Rightarrow> h5_call list option" where
  "close_entries shadow [] = Some []"
| "close_entries shadow (e # es) = do {
     calls \<leftarrow> file_cache_entry_free shadow e;
     rest \<leftarrow> close_entries shadow es;
     Some ((if shadow then [] else [H5Fclose (fce_file_id e)]) @ calls @ rest) }"

definition file_cache_free :: "bool \<Rightarrow> file_cache \<Rightarrow> h5_call list option" where
  "file_cache_free shadow fc = do {
     (_, old) \<leftarrow> evict 1 (fc_map fc);
     close_entries shadow old }"

text \<open>The result is the entry, or None when the file cannot be opened.\<close>

definition file_cache_open_file ::
  "bool \<Rightarrow> int \<Rightarrow> int \<Rightarrow> file_cache \<Rightarrow> string \<Rightarrow> (file_cache \<times> file_cache_entry option \<times> h5_call list) option" where
  "file_cache_open_file shadow opened now fc name =
     (case om_lookup (fc_map fc) name of
        Some entry \<Rightarrow> do {
          c_assert (strcmp (fce_name entry) name = 0);
          let entry = entry\<lparr>fce_last_accessed := now\<rparr>;
          Some (fc\<lparr>fc_map := om_set (om_make_head (fc_map fc) name) name entry,
                  fc_nr_cache_hits := fc_nr_cache_hits fc + 1\<rparr>, Some entry, []) }
      | None \<Rightarrow>
          (let file_id = (if shadow then 0 else opened);
               calls = (if shadow then [] else [H5Fopen name opened])
           in if \<not> shadow \<and> file_id < 0 then Some (fc, None, calls)
              else do {
                c_assert (fc_max_open_files fc \<ge> 1);
                (m, old) \<leftarrow> evict (fc_max_open_files fc) (fc_map fc);
                closes \<leftarrow> close_entries shadow old;
                let new_entry = file_cache_entry_new now file_id name (fc_max_open_datasets fc);
                Some (fc\<lparr>fc_map := om_add_head m (fce_name new_entry) new_entry,
                        fc_nr_cache_misses := fc_nr_cache_misses fc + 1\<rparr>, Some new_entry,
                      calls @ closes) }))"

definition file_cache_open_dataset ::
  "bool \<Rightarrow> int \<Rightarrow> file_cache \<Rightarrow> string \<Rightarrow> string \<Rightarrow> (file_cache \<times> int \<times> h5_call list) option" where
  "file_cache_open_dataset shadow opened fc file name = do {
     entry \<leftarrow> om_lookup (fc_map fc) file;
     (ds_cache, dataset_id, calls) \<leftarrow> dataset_cache_open_dataset shadow opened (fce_ds_cache entry) name;
     Some (fc\<lparr>fc_map := om_set (fc_map fc) file (entry\<lparr>fce_ds_cache := ds_cache\<rparr>)\<rparr>, dataset_id, calls) }"

text \<open>The results are the flags have_file and have_dataset; a null dataset name is None.\<close>

definition file_cache_query :: "file_cache \<Rightarrow> string \<Rightarrow> string option \<Rightarrow> int \<times> int" where
  "file_cache_query fc file_name dataset_name =
     (case om_lookup (fc_map fc) file_name of
        Some file \<Rightarrow>
          (case dataset_name of
             Some dn \<Rightarrow>
               (case om_lookup (dc_map (fce_ds_cache file)) dn of
                  Some _ \<Rightarrow> (1, 1)
                | None \<Rightarrow> (1, 0))
           | None \<Rightarrow> (1, 1))
      | None \<Rightarrow> (0, 0))"

fun count_expired :: "int \<Rightarrow> int \<Rightarrow> (string, file_cache_entry) omap \<Rightarrow> nat" where
  "count_expired max_age now [] = 0"
| "count_expired max_age now ((_, fce) # m) =
     (if fce_last_accessed fce + max_age < now then 1 else 0) + count_expired max_age now m"

fun expire_loop :: "bool \<Rightarrow> nat \<Rightarrow> (string, file_cache_entry) omap \<Rightarrow>
    ((string, file_cache_entry) omap \<times> h5_call list) option" where
  "expire_loop shadow 0 m = Some (m, [])"
| "expire_loop shadow (Suc n) m = do {
     (m, fce) \<leftarrow> om_remove_tail m;
     calls \<leftarrow> file_cache_entry_free shadow fce;
     (m, rest) \<leftarrow> expire_loop shadow n m;
     Some (m, (if shadow then [] else [H5Fclose (fce_file_id fce)]) @ calls @ rest) }"

definition file_cache_expire_entries ::
  "bool \<Rightarrow> int \<Rightarrow> file_cache \<Rightarrow> int \<Rightarrow> (file_cache \<times> h5_call list) option" where
  "file_cache_expire_entries shadow now fc max_age =
     (if max_age \<le> 0 then Some (fc, [])
      else do {
        let nr_expired = count_expired max_age now (fc_map fc);
        (m, calls) \<leftarrow> expire_loop shadow nr_expired (fc_map fc);
        Some (fc\<lparr>fc_map := m\<rparr>,
          calls @ (if \<not> shadow \<and> nr_expired > 0 \<and> m = [] then [Malloc_trim] else [])) })"

section \<open>Invariant\<close>

definition fc_names :: "file_cache \<Rightarrow> string list" where
  "fc_names c = map fst (fc_map c)"

definition entry_inv :: "int \<Rightarrow> string \<Rightarrow> file_cache_entry \<Rightarrow> bool" where
  "entry_inv max_ds k e \<longleftrightarrow> fce_name e = k \<and> dc_inv (fce_ds_cache e) \<and>
     dc_max_open_datasets (fce_ds_cache e) = max_ds \<and> dc_file_id (fce_ds_cache e) = fce_file_id e"

definition fc_inv :: "file_cache \<Rightarrow> bool" where
  "fc_inv c \<longleftrightarrow> 1 \<le> fc_max_open_files c \<and> 1 \<le> fc_max_open_datasets c \<and> distinct (fc_names c) \<and>
     length (fc_names c) \<le> nat (fc_max_open_files c) \<and>
     (\<forall>p \<in> set (fc_map c). entry_inv (fc_max_open_datasets c) (fst p) (snd p))"

lemma file_cache_new_inv: "1 \<le> m \<Longrightarrow> 1 \<le> d \<Longrightarrow> fc_inv (file_cache_new m d)"
  by (simp add: fc_inv_def fc_names_def file_cache_new_def)

definition entry_closes :: "bool \<Rightarrow> file_cache_entry \<Rightarrow> h5_call list" where
  "entry_closes shadow e = (if shadow then [] else [H5Fclose (fce_file_id e)]) @
     dataset_closes shadow (rev (map snd (dc_map (fce_ds_cache e))))"

lemma close_entries_total [simp]: "close_entries shadow es = Some (concat (map (entry_closes shadow) es))"
  by (induction es) (simp_all add: file_cache_entry_free_def dataset_cache_free_closes entry_closes_def)

lemma expire_loop_take:
  "n \<le> length m \<Longrightarrow> expire_loop shadow n m =
     Some (take (length m - n) m, concat (map (entry_closes shadow) (rev (map snd (drop (length m - n) m)))))"
proof (induction n arbitrary: m)
  case (Suc n)
  then obtain ys e where m: "m = ys @ [e]" by (cases m rule: rev_cases) auto
  with Suc.prems have n: "n \<le> length ys" by simp
  have "drop (length m - Suc n) m = drop (length ys - n) ys @ [e]" using n m by simp
  with Suc.IH[OF n] m n show ?case
    by (simp add: om_remove_tail_def file_cache_entry_free_def dataset_cache_free_closes entry_closes_def)
qed simp


section \<open>Opening a file\<close>

lemma map_om_set: "k \<in> set (map fst m) \<Longrightarrow> distinct (map fst m) \<Longrightarrow>
   set (om_set m k v) = insert (k, v) {p \<in> set m. fst p \<noteq> k}"
  by (induction m k v rule: om_set.induct) force+

lemma fc_entry_inv: "fc_inv c \<Longrightarrow> om_lookup (fc_map c) k = Some e \<Longrightarrow> entry_inv (fc_max_open_datasets c) k e"
  by (auto simp: fc_inv_def om_lookup_def dest!: map_of_SomeD)

lemma file_cache_cases:
  assumes "fc_inv c"
  obtains (hit) e where "k \<in> set (fc_names c)" "om_lookup (fc_map c) k = Some e"
      "file_cache_open_file shadow opened now c k =
        Some (c\<lparr>fc_map := om_set (om_make_head (fc_map c) k) k (e\<lparr>fce_last_accessed := now\<rparr>),
               fc_nr_cache_hits := fc_nr_cache_hits c + 1\<rparr>, Some (e\<lparr>fce_last_accessed := now\<rparr>), [])"
    | (fail) "k \<notin> set (fc_names c)" "\<not> shadow" "opened < 0"
      "file_cache_open_file shadow opened now c k = Some (c, None, [H5Fopen k opened])"
    | (miss) fid e where "k \<notin> set (fc_names c)" "shadow \<or> opened \<ge> 0" "fid = (if shadow then 0 else opened)"
      "e = file_cache_entry_new now fid k (fc_max_open_datasets c)"
      "file_cache_open_file shadow opened now c k =
        Some (c\<lparr>fc_map := (k, e) # take (nat (fc_max_open_files c - 1)) (fc_map c),
               fc_nr_cache_misses := fc_nr_cache_misses c + 1\<rparr>, Some e,
          (if shadow then [] else [H5Fopen k opened]) @
          concat (map (entry_closes shadow) (rev (map snd (drop (nat (fc_max_open_files c - 1)) (fc_map c))))))"
proof -
  consider (1) "k \<in> set (fc_names c)" | (2) "k \<notin> set (fc_names c)" "\<not> shadow" "opened < 0"
    | (3) "k \<notin> set (fc_names c)" "shadow \<or> opened \<ge> 0" by linarith
  then show thesis
  proof cases
    case 1
    then obtain e where e: "om_lookup (fc_map c) k = Some e" using om_lookup_Some unfolding fc_names_def by metis
    with fc_entry_inv[OF assms e] show thesis
      by (intro hit[OF 1 e]) (simp add: file_cache_open_file_def entry_inv_def strcmp_eq Let_def)
  next
    case 2
    then have "om_lookup (fc_map c) k = None" by (simp add: fc_names_def om_lookup_None)
    with 2 show thesis by (intro fail) (simp_all add: file_cache_open_file_def)
  next
    case 3
    then have l: "om_lookup (fc_map c) k = None" by (simp add: fc_names_def om_lookup_None)
    have "k \<notin> set (map fst (take (nat (fc_max_open_files c - 1)) (fc_map c)))"
      using 3(1) by (auto simp: fc_names_def dest: in_set_takeD)
    moreover have "1 \<le> fc_max_open_files c" using assms by (simp add: fc_inv_def)
    ultimately show thesis
      using l 3(2) evict_spec[of "fc_max_open_files c" "fc_map c"]
      by (intro miss[OF 3 refl refl]) (auto simp: file_cache_open_file_def file_cache_entry_new_def om_add_head_def Let_def)
  qed
qed

lemma fc_inv_update:
  assumes "fc_inv c" "set (map fst m) \<subseteq> set (fc_names c)" "distinct (map fst m)" "length m \<le> length (fc_map c)"
    "\<And>p. p \<in> set m \<Longrightarrow> entry_inv (fc_max_open_datasets c) (fst p) (snd p)"
  shows "fc_inv (c\<lparr>fc_map := m\<rparr>)"
  using assms by (auto simp: fc_inv_def fc_names_def)

lemma om_make_head_length:
  "distinct (map fst m) \<Longrightarrow> length (om_make_head m k) = length m"
  using om_make_head_mset[of m k] by (metis size_mset)

lemma fc_inv_hit:
  assumes inv: "fc_inv c" and k: "k \<in> set (fc_names c)" "om_lookup (fc_map c) k = Some e"
  shows "fc_inv (c\<lparr>fc_map := om_set (om_make_head (fc_map c) k) k (e\<lparr>fce_last_accessed := now\<rparr>)\<rparr>)"
proof -
  let ?m = "om_make_head (fc_map c) k" and ?e = "e\<lparr>fce_last_accessed := now\<rparr>"
  have d: "distinct (map fst (fc_map c))" using inv by (simp add: fc_inv_def fc_names_def)
  have km: "map fst ?m = k # removeAll k (fc_names c)"
    using om_make_head_keys k(1) by (simp add: fc_names_def)
  then have dm: "distinct (map fst ?m)" using d by (simp add: distinct_removeAll fc_names_def)
  have "set (om_set ?m k ?e) = insert (k, ?e) {p \<in> set (fc_map c). fst p \<noteq> k}"
    using map_om_set[OF _ dm, of k ?e] om_make_head_set[OF d, of k] km by simp
  moreover have "entry_inv (fc_max_open_datasets c) k ?e" using fc_entry_inv[OF inv k(2)] by (simp add: entry_inv_def)
  moreover have "length (om_set ?m k ?e) = length (fc_map c)"
    using om_make_head_length[OF d, of k] om_set_keys[of ?m k ?e] by (metis length_map)
  ultimately show ?thesis
    using inv dm k(1) by (intro fc_inv_update[OF inv]) (auto simp: km fc_inv_def)
qed

lemma fc_inv_miss:
  assumes inv: "fc_inv c" and k: "k \<notin> set (fc_names c)"
  shows "fc_inv (c\<lparr>fc_map := (k, file_cache_entry_new now fid k (fc_max_open_datasets c)) #
      take (nat (fc_max_open_files c - 1)) (fc_map c)\<rparr>)"
  using assms
  by (auto simp: fc_inv_def fc_names_def entry_inv_def file_cache_entry_new_def dataset_cache_new_def
      dataset_cache_new_inv[unfolded dataset_cache_new_def] simp flip: take_map dest: in_set_takeD)

lemma fc_inv_counters [simp]:
  "fc_inv (c\<lparr>fc_nr_cache_hits := n\<rparr>) = fc_inv c" "fc_inv (c\<lparr>fc_nr_cache_misses := n\<rparr>) = fc_inv c"
  by (simp_all add: fc_inv_def fc_names_def)

lemma file_cache_open_ok:
  assumes "fc_inv c"
  obtains c' e calls where "file_cache_open_file shadow opened now c k = Some (c', e, calls)" "fc_inv c'"
    "fc_max_open_files c' = fc_max_open_files c" "fc_max_open_datasets c' = fc_max_open_datasets c"
  using assms
proof (cases rule: file_cache_cases[of c k shadow opened now])
  case (hit e)
  with fc_inv_hit[OF assms hit(1,2)] show thesis by (intro that[OF hit(3)]) (simp_all add: fc_inv_def fc_names_def)
next
  case fail
  with assms show thesis by (intro that[OF fail(4)]) simp_all
next
  case (miss fid e)
  with fc_inv_miss[OF assms miss(1)] show thesis by (intro that[OF miss(5)]) (simp_all add: fc_inv_def fc_names_def)
qed

definition fc_access :: "bool \<Rightarrow> (string \<Rightarrow> int) \<Rightarrow> int \<Rightarrow> string \<Rightarrow> file_cache \<Rightarrow> file_cache" where
  "fc_access shadow opened now k c =
     (case file_cache_open_file shadow (opened k) now c k of None \<Rightarrow> c | Some (c', _) \<Rightarrow> c')"

interpretation file_lru: lru_cache fc_names fc_max_open_files fc_inv "fc_access shadow opened now"
  "\<lambda>k. shadow \<or> opened k \<ge> 0" for shadow opened now
proof
  fix c k
  assume inv: "fc_inv c"
  then show "1 \<le> fc_max_open_files c" "distinct (fc_names c)" "length (fc_names c) \<le> nat (fc_max_open_files c)"
    by (simp_all add: fc_inv_def)
  show "fc_inv (fc_access shadow opened now k c)"
    "fc_max_open_files (fc_access shadow opened now k c) = fc_max_open_files c"
    by (rule file_cache_open_ok[OF inv, of shadow "opened k" now k]; simp add: fc_access_def)+
  show "fc_names (fc_access shadow opened now k c) = k # removeAll k (fc_names c)" if "k \<in> set (fc_names c)"
    using inv
    by (cases rule: file_cache_cases[of c k shadow "opened k" now])
      (use that om_make_head_keys[of k "fc_map c"] in \<open>simp_all add: fc_access_def fc_names_def\<close>)
  show "fc_names (fc_access shadow opened now k c) = k # take (nat (fc_max_open_files c - 1)) (fc_names c)"
    if "k \<notin> set (fc_names c)" "shadow \<or> opened k \<ge> 0"
    using inv
    by (cases rule: file_cache_cases[of c k shadow "opened k" now])
      (use that in \<open>auto simp: fc_access_def fc_names_def take_map\<close>)
  show "fc_names (fc_access shadow opened now k c) = fc_names c"
    if "k \<notin> set (fc_names c)" "\<not> (shadow \<or> opened k \<ge> 0)"
    using inv
    by (cases rule: file_cache_cases[of c k shadow "opened k" now])
      (use that in \<open>auto simp: fc_access_def\<close>)
qed

interpretation file_shadow: shadowed fc_names fc_max_open_files fc_inv "fc_access False opened now"
  "\<lambda>k. False \<or> opened k \<ge> 0" fc_names fc_max_open_files fc_inv "fc_access True opened' now'" for opened now opened' now'
  by (intro shadowed.intro file_lru.lru_cache_axioms) (use file_lru.lru_cache_axioms[of True] in simp)


section \<open>Expiry\<close>

definition expired :: "int \<Rightarrow> int \<Rightarrow> string \<times> file_cache_entry \<Rightarrow> bool" where
  "expired max_age now p \<longleftrightarrow> fce_last_accessed (snd p) + max_age < now"

lemma count_expired_filter: "count_expired max_age now m = length (filter (expired max_age now) m)"
  by (induction max_age now m rule: count_expired.induct) (auto simp: expired_def)

text \<open>The entries are in the order of their last access and none is from the future.\<close>

definition stamped :: "int \<Rightarrow> file_cache \<Rightarrow> bool" where
  "stamped now c \<longleftrightarrow> sorted_wrt (\<lambda>p q. fce_last_accessed (snd q) \<le> fce_last_accessed (snd p)) (fc_map c) \<and>
     (\<forall>p \<in> set (fc_map c). fce_last_accessed (snd p) \<le> now)"

lemma file_cache_expire_total:
  fixes now :: int
  assumes "max_age > 0"
  defines "n \<equiv> count_expired max_age now"
  shows "file_cache_expire_entries shadow now c max_age = Some
    (c\<lparr>fc_map := take (length (fc_map c) - n (fc_map c)) (fc_map c)\<rparr>,
     concat (map (entry_closes shadow) (rev (map snd (drop (length (fc_map c) - n (fc_map c)) (fc_map c))))) @
     (if \<not> shadow \<and> n (fc_map c) > 0 \<and> length (fc_map c) = n (fc_map c) then [Malloc_trim] else []))"
proof -
  have "n (fc_map c) \<le> length (fc_map c)" by (simp add: n_def count_expired_filter)
  moreover from this have "take (length (fc_map c) - n (fc_map c)) (fc_map c) = [] \<longleftrightarrow> length (fc_map c) = n (fc_map c)"
    by auto
  ultimately show ?thesis
    using assms(1) by (simp add: file_cache_expire_entries_def expire_loop_take n_def Let_def)
qed

lemma filter_suffix:
  assumes "sorted_wrt (\<lambda>p q. P p \<longrightarrow> P q) m"
  shows "take (length m - length (filter P m)) m = filter (\<lambda>p. \<not> P p) m"
  using assms
proof (induction m)
  case (Cons p m)
  show ?case
  proof (cases "P p")
    case True
    with Cons.prems have "filter P m = m" "filter (\<lambda>p. \<not> P p) m = []" by (auto simp: filter_empty_conv filter_id_conv)
    with True show ?thesis by simp
  next
    case False
    moreover have "length (filter P m) \<le> length m" by (rule length_filter_le)
    ultimately show ?thesis using Cons by (simp add: Suc_diff_le)
  qed
qed simp

theorem file_cache_expire_exact:
  assumes "stamped now c" "max_age > 0"
  obtains calls where "file_cache_expire_entries shadow now' c max_age =
    Some (c\<lparr>fc_map := filter (\<lambda>p. \<not> expired max_age now' p) (fc_map c)\<rparr>, calls)"
proof -
  have "sorted_wrt (\<lambda>p q. expired max_age now' p \<longrightarrow> expired max_age now' q) (fc_map c)"
    using assms(1) unfolding stamped_def expired_def by (auto intro: sorted_wrt_mono_rel[rotated])
  from filter_suffix[OF this] show thesis
    using that file_cache_expire_total[OF assms(2), of shadow now' c] by (simp add: count_expired_filter)
qed

lemma fc_inv_take:
  assumes "fc_inv c"
  shows "fc_inv (c\<lparr>fc_map := take n (fc_map c)\<rparr>)"
  using assms by (intro fc_inv_update) (auto simp: fc_inv_def fc_names_def simp flip: take_map dest: in_set_takeD)

lemma file_cache_expire_names:
  assumes "fc_inv c" "file_cache_expire_entries shadow now c max_age = Some (c', calls)"
  shows "fc_inv c'" "\<exists>n. c' = c\<lparr>fc_map := take n (fc_map c)\<rparr>"
proof -
  show n: "\<exists>n. c' = c\<lparr>fc_map := take n (fc_map c)\<rparr>"
  proof (cases "max_age > 0")
    case True
    with assms(2) show ?thesis by (auto simp: file_cache_expire_total)
  next
    case False
    with assms(2) have "c' = c" by (simp add: file_cache_expire_entries_def)
    then show ?thesis by (intro exI[of _ "length (fc_map c)"]) simp
  qed
  with fc_inv_take[OF assms(1)] show "fc_inv c'" by auto
qed

lemma stamped_later: "stamped now c \<Longrightarrow> now \<le> now' \<Longrightarrow> stamped now' c"
  by (auto simp: stamped_def)

lemma om_make_head_split:
  assumes "distinct (map fst m)" "om_lookup m k = Some v"
  shows "om_set (om_make_head m k) k w = (k, w) # filter (\<lambda>p. fst p \<noteq> k) m"
  using assms by (simp add: om_make_head_def om_lookup_def)

theorem file_cache_open_stamped:
  assumes "fc_inv c" "stamped now c" "now \<le> now'"
    and "file_cache_open_file shadow opened now' c k = Some (c', e, calls)"
  shows "stamped now' c'"
  using assms(1)
proof (cases rule: file_cache_cases[of c k shadow opened now'])
  case (hit e)
  have "distinct (map fst (fc_map c))" using assms(1) by (simp add: fc_inv_def fc_names_def)
  with hit assms(4) have "fc_map c' = (k, e\<lparr>fce_last_accessed := now'\<rparr>) # filter (\<lambda>p. fst p \<noteq> k) (fc_map c)"
    by (auto simp: om_make_head_split)
  with stamped_later[OF assms(2,3)] show ?thesis by (auto simp: stamped_def intro: sorted_wrt_filter)
next
  case fail
  with assms stamped_later show ?thesis by auto
next
  case (miss fid e)
  with assms(4) have "fc_map c' = (k, file_cache_entry_new now' fid k (fc_max_open_datasets c)) #
      take (nat (fc_max_open_files c - 1)) (fc_map c)" by auto
  with stamped_later[OF assms(2,3)] show ?thesis
    by (auto simp: stamped_def file_cache_entry_new_def sorted_wrt_take dest: in_set_takeD)
qed

section \<open>Opening a dataset\<close>

lemma file_cache_open_dataset_ok:
  assumes inv: "fc_inv c" and f: "om_lookup (fc_map c) f = Some e"
  obtains ds did calls where
    "dataset_cache_open_dataset shadow opened (fce_ds_cache e) k = Some (ds, did, calls)"
    "file_cache_open_dataset shadow opened c f k =
       Some (c\<lparr>fc_map := om_set (fc_map c) f (e\<lparr>fce_ds_cache := ds\<rparr>)\<rparr>, did, calls)"
    "fc_inv (c\<lparr>fc_map := om_set (fc_map c) f (e\<lparr>fce_ds_cache := ds\<rparr>)\<rparr>)"
proof -
  from fc_entry_inv[OF inv f] have e: "dc_inv (fce_ds_cache e)" by (simp add: entry_inv_def)
  obtain ds did calls where 1: "dataset_cache_open_dataset shadow opened (fce_ds_cache e) k = Some (ds, did, calls)"
    "dc_inv ds" "dc_max_open_datasets ds = dc_max_open_datasets (fce_ds_cache e)"
    "dc_file_id ds = dc_file_id (fce_ds_cache e)"
    using dataset_cache_open_ok[OF e] .
  have d: "distinct (map fst (fc_map c))" using inv by (simp add: fc_inv_def fc_names_def)
  have fin: "f \<in> set (map fst (fc_map c))" using f om_lookup_None[of "fc_map c" f] by (metis option.distinct(1))
  have "entry_inv (fc_max_open_datasets c) f (e\<lparr>fce_ds_cache := ds\<rparr>)"
    using fc_entry_inv[OF inv f] 1(2-4) by (simp add: entry_inv_def)
  moreover have "length (om_set (fc_map c) f (e\<lparr>fce_ds_cache := ds\<rparr>)) = length (fc_map c)"
    using om_set_keys by (metis length_map)
  ultimately have "fc_inv (c\<lparr>fc_map := om_set (fc_map c) f (e\<lparr>fce_ds_cache := ds\<rparr>)\<rparr>)"
    using inv d map_om_set[OF fin d, of "e\<lparr>fce_ds_cache := ds\<rparr>"]
    by (intro fc_inv_update) (auto simp: fc_inv_def fc_names_def)
  with 1 f that show thesis by (simp add: file_cache_open_dataset_def)
qed

section \<open>Query\<close>

definition cached_datasets :: "file_cache \<Rightarrow> string \<Rightarrow> string list" where
  "cached_datasets c f = (case om_lookup (fc_map c) f of None \<Rightarrow> [] | Some e \<Rightarrow> dc_names (fce_ds_cache e))"

theorem file_cache_query_spec:
  "file_cache_query c f d =
     (if f \<in> set (fc_names c) then 1 else 0,
      if f \<in> set (fc_names c) \<and> (d = None \<or> the d \<in> set (cached_datasets c f)) then 1 else 0)"
proof (cases "om_lookup (fc_map c) f")
  case None
  then show ?thesis by (simp add: file_cache_query_def fc_names_def) (simp add: om_lookup_None)
next
  case (Some e)
  then have "f \<in> set (fc_names c)" using om_lookup_None[of "fc_map c" f] by (simp add: fc_names_def)
  moreover have "om_lookup (dc_map (fce_ds_cache e)) k = None \<longleftrightarrow> k \<notin> set (dc_names (fce_ds_cache e))" for k
    by (simp only: om_lookup_None dc_names_def)
  ultimately show ?thesis using Some
    by (auto simp: file_cache_query_def cached_datasets_def split: option.split) (metis option.distinct(1))+
qed

end
