(* ===== verification/CacheMirror.thy ===== *)
theory CacheMirror
  imports FileCache
begin

text \<open>
  The cache of a reader process and its shadow copy in the parent.  The reader opens the file and
  the dataset of a request and reports what it could open (hdfstream_reader.c); the parent
  replays the request on the shadow copy according to this status (hdfstream.c) and uses the
  shadow to choose a process (cache_score).  The reader also expires entries, the shadow never
  does.  The theorems: the shadow lists at least what the reader holds, and exactly that while
  nothing expires.
\<close>

section \<open>Reader\<close>

definition RESULT_FILE_OPENED :: int where "RESULT_FILE_OPENED = 1"
definition RESULT_DATASET_OPENED :: int where "RESULT_DATASET_OPENED = 2"

definition reader_open_dataset ::
  "int \<Rightarrow> int \<Rightarrow> int \<Rightarrow> file_cache \<Rightarrow> string \<Rightarrow> string \<Rightarrow> (file_cache \<times> int \<times> int) option" where
  "reader_open_dataset file_opened ds_opened now fc filename datasetname = do {
     (fc, file, _) \<leftarrow> file_cache_open_file False file_opened now fc filename;
     (case file of
        None \<Rightarrow> Some (fc, 0, -1)
      | Some _ \<Rightarrow> do {
          (fc, dataset_id, _) \<leftarrow> file_cache_open_dataset False ds_opened fc filename datasetname;
          (if dataset_id \<ge> 0
           then Some (fc, RESULT_FILE_OPENED + RESULT_DATASET_OPENED, dataset_id)
           else Some (fc, RESULT_FILE_OPENED, dataset_id)) }) }"

definition reader_open_object ::
  "int \<Rightarrow> int \<Rightarrow> file_cache \<Rightarrow> string \<Rightarrow> (file_cache \<times> int) option" where
  "reader_open_object file_opened now fc file_name = do {
     (fc, file, _) \<leftarrow> file_cache_open_file False file_opened now fc file_name;
     Some (fc, if file = None then 0 else RESULT_FILE_OPENED) }"

section \<open>Parent\<close>

definition file_bit :: "int \<Rightarrow> bool" where
  "file_bit retcode \<longleftrightarrow> retcode mod 2 = 1"

definition dataset_bit :: "int \<Rightarrow> bool" where
  "dataset_bit retcode \<longleftrightarrow> (retcode div 2) mod 2 = 1"

definition shadow_dataset_request :: "int \<Rightarrow> int \<Rightarrow> file_cache \<Rightarrow> string \<Rightarrow> string \<Rightarrow> file_cache option" where
  "shadow_dataset_request retcode now fc file_name dataset_name =
     (if file_bit retcode then do {
        (fc, _, _) \<leftarrow> file_cache_open_file True 0 now fc file_name;
        (if dataset_bit retcode then do {
           (fc, _, _) \<leftarrow> file_cache_open_dataset True 0 fc file_name dataset_name;
           Some fc }
         else Some fc) }
      else Some fc)"

definition shadow_object_request :: "int \<Rightarrow> int \<Rightarrow> file_cache \<Rightarrow> string \<Rightarrow> file_cache option" where
  "shadow_object_request retcode now fc file_name =
     (if file_bit retcode then do {
        (fc, _, _) \<leftarrow> file_cache_open_file True 0 now fc file_name;
        Some fc }
      else Some fc)"

definition cache_score :: "file_cache \<Rightarrow> string \<Rightarrow> string option \<Rightarrow> int" where
  "cache_score fc file_name dataset_name =
     (let (have_file, have_dataset) = file_cache_query fc file_name dataset_name
      in (if have_file \<noteq> 0 then 1 else 0) + (if have_dataset \<noteq> 0 then 1 else 0))"

lemma bits [simp]:
  "file_bit 0 = False" "file_bit RESULT_FILE_OPENED" "file_bit (RESULT_FILE_OPENED + RESULT_DATASET_OPENED)"
  "dataset_bit 0 = False" "dataset_bit RESULT_FILE_OPENED = False"
  "dataset_bit (RESULT_FILE_OPENED + RESULT_DATASET_OPENED)"
  by (simp_all add: file_bit_def dataset_bit_def RESULT_FILE_OPENED_def RESULT_DATASET_OPENED_def)

section \<open>The relation\<close>

text \<open>
  mirrors R r s: the caches have the same limits, and R relates the file names of the two caches
  and, for a file both hold, the dataset names.  R is prefix, or equality while nothing expires.
\<close>

definition mirrors :: "(string list \<Rightarrow> string list \<Rightarrow> bool) \<Rightarrow> file_cache \<Rightarrow> file_cache \<Rightarrow> bool" where
  "mirrors R r s \<longleftrightarrow> fc_inv r \<and> fc_inv s \<and> fc_max_open_files r = fc_max_open_files s \<and>
     fc_max_open_datasets r = fc_max_open_datasets s \<and> R (fc_names r) (fc_names s) \<and>
     (\<forall>k \<in> set (fc_names r) \<inter> set (fc_names s). R (cached_datasets r k) (cached_datasets s k))"

text \<open>What the proofs need of R: it survives the use of one more key, and holds when the left cache is empty.\<close>

locale mirror_relation =
  fixes R :: "string list \<Rightarrow> string list \<Rightarrow> bool"
  assumes R_step: "R xs ys \<Longrightarrow> length ys \<le> n \<Longrightarrow> R (lru_step n k xs) (lru_step n k ys)"
    and R_prefix: "R xs ys \<Longrightarrow> prefix xs ys"
    and R_nil: "R xs ys \<Longrightarrow> k \<notin> set xs \<Longrightarrow> k \<in> set ys \<Longrightarrow> R [] zs"
    and R_refl: "R xs xs"
begin

lemma R_set: "R xs ys \<Longrightarrow> set xs \<subseteq> set ys"
  using R_prefix set_mono_prefix by blast

end

interpretation prefix_mirror: mirror_relation "\<lambda>xs ys :: string list. prefix xs ys"
  by unfold_locales (auto intro: lru_step_prefix)

interpretation exact_mirror: mirror_relation "\<lambda>xs ys :: string list. xs = ys"
  by unfold_locales auto

text \<open>The datasets that are cached for a file after a file was opened.\<close>

lemma om_lookup_filter: "om_lookup (filter (\<lambda>p. fst p \<noteq> k) m) f = (if f = k then None else om_lookup m f)"
  by (induction m) (auto simp: om_lookup_def)

lemma om_lookup_take: "distinct (map fst m) \<Longrightarrow> f \<in> set (map fst (take n m)) \<Longrightarrow> om_lookup (take n m) f = om_lookup m f"
proof (induction m arbitrary: n)
  case (Cons p m)
  then show ?case by (cases n) (auto simp: om_lookup_def dest: in_set_takeD)
qed simp

lemma open_file_shape:
  assumes inv: "fc_inv c" and ok: "shadow \<or> opened \<ge> 0 \<or> k \<in> set (fc_names c)"
  obtains c' e calls where "file_cache_open_file shadow opened now c k = Some (c', Some e, calls)" "fc_inv c'"
    "fc_names c' = lru_step (nat (fc_max_open_files c)) k (fc_names c)"
    "fc_max_open_files c' = fc_max_open_files c" "fc_max_open_datasets c' = fc_max_open_datasets c"
    "cached_datasets c' k = (if k \<in> set (fc_names c) then cached_datasets c k else [])"
    "\<And>f. f \<in> set (fc_names c') \<Longrightarrow> f \<noteq> k \<Longrightarrow> cached_datasets c' f = cached_datasets c f \<and> f \<in> set (fc_names c)"
proof -
  have d: "distinct (map fst (fc_map c))" using inv by (simp add: fc_inv_def fc_names_def)
  obtain c' e calls where 1: "file_cache_open_file shadow opened now c k = Some (c', e, calls)" "fc_inv c'"
    "fc_max_open_files c' = fc_max_open_files c" "fc_max_open_datasets c' = fc_max_open_datasets c"
    using file_cache_open_ok[OF inv] .
  have n: "fc_names c' = lru_step (nat (fc_max_open_files c)) k (fc_names c)"
    using file_lru.access_step[OF inv, of k shadow "\<lambda>_. opened" now] ok 1(1) by (auto simp: fc_access_def)
  show thesis
    using inv
  proof (cases rule: file_cache_cases[of c k shadow opened now])
    case (hit e')
    with 1(1) d have m: "fc_map c' = (k, e'\<lparr>fce_last_accessed := now\<rparr>) # filter (\<lambda>p. fst p \<noteq> k) (fc_map c)"
      by (auto simp: om_make_head_split)
    with hit show thesis
      by (intro that[OF _ 1(2) n 1(3,4)])
        (use 1(1) in \<open>auto simp: cached_datasets_def om_lookup_def fc_names_def map_of_filter_key\<close>)
  next
    case fail
    with ok show thesis by auto
  next
    case (miss fid e')
    with 1(1) have m: "fc_map c' = (k, e') # take (nat (fc_max_open_files c - 1)) (fc_map c)" by auto
    have "cached_datasets c' f = cached_datasets c f \<and> f \<in> set (fc_names c)"
      if "f \<in> set (fc_names c')" "f \<noteq> k" for f
    proof -
      have f: "f \<in> set (map fst (take (nat (fc_max_open_files c - 1)) (fc_map c)))"
        using that m by (auto simp: fc_names_def)
      with om_lookup_take[OF d f] that(2) m show ?thesis
        by (auto simp: cached_datasets_def om_lookup_def fc_names_def dest: in_set_takeD)
    qed
    with miss m show thesis
      by (intro that[OF _ 1(2) n 1(3,4)])
        (use 1(1) in \<open>auto simp: cached_datasets_def om_lookup_def file_cache_entry_new_def dataset_cache_new_def dc_names_def\<close>)
  qed
qed


lemma open_dataset_shape:
  assumes inv: "fc_inv c" and f: "f \<in> set (fc_names c)"
  obtains c' did calls where "file_cache_open_dataset shadow opened c f k = Some (c', did, calls)" "fc_inv c'"
    "fc_names c' = fc_names c"
    "fc_max_open_files c' = fc_max_open_files c" "fc_max_open_datasets c' = fc_max_open_datasets c"
    "shadow \<Longrightarrow> did \<ge> 0" "\<And>g. g \<noteq> f \<Longrightarrow> cached_datasets c' g = cached_datasets c g"
    "cached_datasets c' f = (if did \<ge> 0 then lru_step (nat (fc_max_open_datasets c)) k (cached_datasets c f) else cached_datasets c f)"
proof -
  from f obtain e where e: "om_lookup (fc_map c) f = Some e" using om_lookup_Some unfolding fc_names_def by metis
  from fc_entry_inv[OF inv e] have di: "dc_inv (fce_ds_cache e)"
    and dm: "dc_max_open_datasets (fce_ds_cache e) = fc_max_open_datasets c" by (auto simp: entry_inv_def)
  obtain ds did calls where 1: "dataset_cache_open_dataset shadow opened (fce_ds_cache e) k = Some (ds, did, calls)"
    "file_cache_open_dataset shadow opened c f k =
       Some (c\<lparr>fc_map := om_set (fc_map c) f (e\<lparr>fce_ds_cache := ds\<rparr>)\<rparr>, did, calls)"
    "fc_inv (c\<lparr>fc_map := om_set (fc_map c) f (e\<lparr>fce_ds_cache := ds\<rparr>)\<rparr>)"
    using file_cache_open_dataset_ok[OF inv e] .
  have both: "dc_names ds = (if did \<ge> 0 then lru_step (nat (fc_max_open_datasets c)) k (dc_names (fce_ds_cache e))
      else dc_names (fce_ds_cache e)) \<and> (shadow \<longrightarrow> did \<ge> 0)"
    using di
  proof (cases rule: dataset_cache_cases[of "fce_ds_cache e" k shadow opened])
    case (hit e')
    with dataset_lru.access_step[OF di, of k shadow "\<lambda>_. opened"] dm 1(1) dc_entry_id[OF di hit(2)]
    show ?thesis by (auto simp: dc_access_def)
  next
    case fail
    with 1(1) show ?thesis by auto
  next
    case (miss i)
    then have "i \<ge> 0" by auto
    with miss dataset_lru.access_step[OF di, of k shadow "\<lambda>_. opened"] dm 1(1)
    show ?thesis by (auto simp: dc_access_def)
  qed
  then have ds: "dc_names ds = (if did \<ge> 0 then lru_step (nat (fc_max_open_datasets c)) k (dc_names (fce_ds_cache e))
      else dc_names (fce_ds_cache e))" and sh: "shadow \<Longrightarrow> did \<ge> 0" by blast+
  have fin: "f \<in> set (map fst (fc_map c))" using f by (simp add: fc_names_def)
  show thesis
    by (rule that[OF 1(2,3)])
      (use fin e ds sh in \<open>auto simp: fc_names_def cached_datasets_def om_lookup_def map_of_om_set\<close>)
qed

context mirror_relation
begin

lemma mirrors_open_file:
  assumes m: "mirrors R r s" and ok: "opened \<ge> 0 \<or> k \<in> set (fc_names r)"
  obtains r' e calls s' e' calls' where
    "file_cache_open_file False opened now r k = Some (r', Some e, calls)"
    "file_cache_open_file True opened' now' s k = Some (s', Some e', calls')" "mirrors R r' s'"
    "k \<in> set (fc_names r')" "k \<in> set (fc_names s')"
proof -
  from m have ri: "fc_inv r" and si: "fc_inv s" and n: "fc_max_open_files r = fc_max_open_files s"
    "fc_max_open_datasets r = fc_max_open_datasets s" and nm: "R (fc_names r) (fc_names s)"
    and ds: "\<And>f. f \<in> set (fc_names r) \<Longrightarrow> f \<in> set (fc_names s) \<Longrightarrow> R (cached_datasets r f) (cached_datasets s f)"
    by (auto simp: mirrors_def)
  obtain r' e calls where r: "file_cache_open_file False opened now r k = Some (r', Some e, calls)" "fc_inv r'"
    "fc_names r' = lru_step (nat (fc_max_open_files r)) k (fc_names r)"
    "fc_max_open_files r' = fc_max_open_files r" "fc_max_open_datasets r' = fc_max_open_datasets r"
    "cached_datasets r' k = (if k \<in> set (fc_names r) then cached_datasets r k else [])"
    "\<And>f. f \<in> set (fc_names r') \<Longrightarrow> f \<noteq> k \<Longrightarrow> cached_datasets r' f = cached_datasets r f \<and> f \<in> set (fc_names r)"
    by (rule open_file_shape[OF ri, of False opened k now]) (use ok in simp, rule that)
  obtain s' e' calls' where s: "file_cache_open_file True opened' now' s k = Some (s', Some e', calls')" "fc_inv s'"
    "fc_names s' = lru_step (nat (fc_max_open_files s)) k (fc_names s)"
    "fc_max_open_files s' = fc_max_open_files s" "fc_max_open_datasets s' = fc_max_open_datasets s"
    "cached_datasets s' k = (if k \<in> set (fc_names s) then cached_datasets s k else [])"
    "\<And>f. f \<in> set (fc_names s') \<Longrightarrow> f \<noteq> k \<Longrightarrow> cached_datasets s' f = cached_datasets s f \<and> f \<in> set (fc_names s)"
    by (rule open_file_shape[OF si, of True opened' k now']) (simp, rule that)
  have "length (fc_names s) \<le> nat (fc_max_open_files s)" using si by (simp add: fc_inv_def)
  from R_step[OF nm this] have nm': "R (fc_names r') (fc_names s')" using r(3) s(3) n by simp
  have "R (cached_datasets r' f) (cached_datasets s' f)" if "f \<in> set (fc_names r')" "f \<in> set (fc_names s')" for f
  proof (cases "f = k")
    case True
    show ?thesis
      using r(6) s(6) ds R_nil[OF nm, of k] R_set[OF nm] R_refl[of "[]"] by (auto simp: True)
  next
    case False
    with r(7)[OF that(1)] s(7)[OF that(2)] ds show ?thesis by simp
  qed
  then have "mirrors R r' s'" using r(2,4,5) s(2,4,5) n nm' by (simp add: mirrors_def)
  then show thesis by (intro that[OF r(1) s(1)]) (simp_all add: r(3) s(3) lru_step_def)
qed

lemma mirrors_open_dataset:
  assumes m: "mirrors R r s" and k: "k \<in> set (fc_names r)" "k \<in> set (fc_names s)"
  obtains r' did calls s' did' calls' where
    "file_cache_open_dataset False opened r k d = Some (r', did, calls)"
    "file_cache_open_dataset True opened' s k d = Some (s', did', calls')"
    "mirrors R r' (if did \<ge> 0 then s' else s)"
proof -
  from m have ri: "fc_inv r" and si: "fc_inv s" and n: "fc_max_open_files r = fc_max_open_files s"
    "fc_max_open_datasets r = fc_max_open_datasets s" and nm: "R (fc_names r) (fc_names s)"
    and ds: "\<And>f. f \<in> set (fc_names r) \<Longrightarrow> f \<in> set (fc_names s) \<Longrightarrow> R (cached_datasets r f) (cached_datasets s f)"
    by (auto simp: mirrors_def)
  obtain r' did calls where r: "file_cache_open_dataset False opened r k d = Some (r', did, calls)" "fc_inv r'"
    "fc_names r' = fc_names r" "fc_max_open_files r' = fc_max_open_files r"
    "fc_max_open_datasets r' = fc_max_open_datasets r" "\<And>g. g \<noteq> k \<Longrightarrow> cached_datasets r' g = cached_datasets r g"
    "cached_datasets r' k = (if did \<ge> 0 then lru_step (nat (fc_max_open_datasets r)) d (cached_datasets r k) else cached_datasets r k)"
    by (rule open_dataset_shape[OF ri k(1), of False opened d]) (rule that)
  obtain s' did' calls' where s: "file_cache_open_dataset True opened' s k d = Some (s', did', calls')" "fc_inv s'"
    "fc_names s' = fc_names s" "fc_max_open_files s' = fc_max_open_files s"
    "fc_max_open_datasets s' = fc_max_open_datasets s" "did' \<ge> 0" "\<And>g. g \<noteq> k \<Longrightarrow> cached_datasets s' g = cached_datasets s g"
    "cached_datasets s' k = (if did' \<ge> 0 then lru_step (nat (fc_max_open_datasets s)) d (cached_datasets s k) else cached_datasets s k)"
    using open_dataset_shape[OF si k(2), of True opened' d] by metis
  have len: "length (cached_datasets s k) \<le> nat (fc_max_open_datasets s)"
  proof -
    from k(2) obtain e where e: "om_lookup (fc_map s) k = Some e" using om_lookup_Some unfolding fc_names_def by metis
    from fc_entry_inv[OF si e] e show ?thesis by (auto simp: cached_datasets_def entry_inv_def dc_inv_def)
  qed
  have "mirrors R r' (if did \<ge> 0 then s' else s)"
  proof (cases "did \<ge> 0")
    case True
    have "R (cached_datasets r' f) (cached_datasets s' f)" if "f \<in> set (fc_names r)" "f \<in> set (fc_names s)" for f
      using ds[OF that] R_step[OF ds[OF k] len, of d] r(6,7) s(6-8) n True by (cases "f = k") simp_all
    with True r(2-5) s(2-5) n nm show ?thesis by (simp add: mirrors_def)
  next
    case False
    have "R (cached_datasets r' f) (cached_datasets s f)" if "f \<in> set (fc_names r)" "f \<in> set (fc_names s)" for f
      using ds[OF that] r(6,7) False by (cases "f = k") simp_all
    with False r(2-5) si n nm show ?thesis by (simp add: mirrors_def)
  qed
  with r(1) s(1) show thesis by (rule that)
qed

lemma mirrors_dataset_request:
  assumes m: "mirrors R r s"
  obtains r' status did s' where "reader_open_dataset fo dopen now r f d = Some (r', status, did)"
    "shadow_dataset_request status now' s f d = Some s'" "mirrors R r' s'"
proof (cases "fo \<ge> 0 \<or> f \<in> set (fc_names r)")
  case True
  obtain r1 e calls s1 e' calls' where 1:
    "file_cache_open_file False fo now r f = Some (r1, Some e, calls)"
    "file_cache_open_file True 0 now' s f = Some (s1, Some e', calls')" "mirrors R r1 s1"
    "f \<in> set (fc_names r1)" "f \<in> set (fc_names s1)"
    by (rule mirrors_open_file[OF m True]) (rule that)
  obtain r2 did calls2 s2 did' calls2' where 2:
    "file_cache_open_dataset False dopen r1 f d = Some (r2, did, calls2)"
    "file_cache_open_dataset True 0 s1 f d = Some (s2, did', calls2')"
    "mirrors R r2 (if did \<ge> 0 then s2 else s1)"
    by (rule mirrors_open_dataset[OF 1(3-5)]) (rule that)
  with 1(1,2) that show thesis
    by (cases "did \<ge> 0") (auto simp: reader_open_dataset_def shadow_dataset_request_def)
next
  case False
  from m have ri: "fc_inv r" by (simp add: mirrors_def)
  have "file_cache_open_file False fo now r f = Some (r, None, [H5Fopen f fo])"
    using ri False by (cases rule: file_cache_cases[of r f False fo now]) auto
  with m that show thesis by (auto simp: reader_open_dataset_def shadow_dataset_request_def)
qed

lemma mirrors_object_request:
  assumes m: "mirrors R r s"
  obtains r' status s' where "reader_open_object fo now r f = Some (r', status)"
    "shadow_object_request status now' s f = Some s'" "mirrors R r' s'"
proof (cases "fo \<ge> 0 \<or> f \<in> set (fc_names r)")
  case True
  obtain r1 e calls s1 e' calls' where 1:
    "file_cache_open_file False fo now r f = Some (r1, Some e, calls)"
    "file_cache_open_file True 0 now' s f = Some (s1, Some e', calls')" "mirrors R r1 s1"
    by (rule mirrors_open_file[OF m True]) (rule that)
  with that show thesis by (auto simp: reader_open_object_def shadow_object_request_def)
next
  case False
  from m have ri: "fc_inv r" by (simp add: mirrors_def)
  have "file_cache_open_file False fo now r f = Some (r, None, [H5Fopen f fo])"
    using ri False by (cases rule: file_cache_cases[of r f False fo now]) auto
  with m that show thesis by (auto simp: reader_open_object_def shadow_object_request_def)
qed

end

section \<open>Theorems\<close>

lemma mirrors_new:
  "1 \<le> m \<Longrightarrow> 1 \<le> d \<Longrightarrow> R [] [] \<Longrightarrow> mirrors R (file_cache_new m d) (file_cache_new m d)"
  using file_cache_new_inv[of m d] by (simp add: mirrors_def fc_names_def) (simp add: file_cache_new_def)

lemma mirrors_expire:
  assumes m: "mirrors prefix r s" and e: "file_cache_expire_entries False now r max_age = Some (r', calls)"
  shows "mirrors prefix r' s"
proof -
  from m have inv: "fc_inv r" by (simp add: mirrors_def)
  then have d: "distinct (map fst (fc_map r))" by (simp add: fc_inv_def fc_names_def)
  obtain n where r': "r' = r\<lparr>fc_map := take n (fc_map r)\<rparr>" using file_cache_expire_names[OF inv e] by auto
  have names: "fc_names r' = take n (fc_names r)" by (simp add: r' fc_names_def take_map)
  have "cached_datasets r' f = cached_datasets r f" if "f \<in> set (fc_names r')" for f
    using that om_lookup_take[OF d, of f n] by (simp add: r' cached_datasets_def fc_names_def)
  moreover have "prefix (fc_names r') (fc_names s)"
    using m take_is_prefix[of n "fc_names r"] by (auto simp: mirrors_def names dest: prefix_order.trans)
  ultimately show ?thesis
    using m file_cache_expire_names(1)[OF inv e] by (auto simp: mirrors_def r' fc_names_def dest: in_set_takeD)
qed

lemma cache_score_mono:
  assumes m: "mirrors prefix r s"
  shows "cache_score r f d \<le> cache_score s f d"
proof -
  from m have "set (fc_names r) \<subseteq> set (fc_names s)" by (auto simp: mirrors_def dest: set_mono_prefix)
  moreover have "set (cached_datasets r f) \<subseteq> set (cached_datasets s f)" if "f \<in> set (fc_names r)" "f \<in> set (fc_names s)"
    using m that by (auto simp: mirrors_def dest: set_mono_prefix)
  ultimately show ?thesis by (auto simp: cache_score_def file_cache_query_spec)
qed

lemma cache_score_exact:
  assumes m: "mirrors (=) r s"
  shows "cache_score r f d = cache_score s f d"
  using m by (auto simp: mirrors_def cache_score_def file_cache_query_spec)

end
