(* ===== verification/CacheProperties.thy ===== *)
theory CacheProperties
  imports CacheMirror
begin

text \<open>
  The properties of the two caches over whole histories: which entries they hold, that every HDF5
  identifier is closed exactly once, and how the parent's shadow copies follow the readers.
\<close>

section \<open>Histories of one file cache\<close>

text \<open>
  The operations of a reader on its file cache.  A dataset is only ever requested from the entry
  that the preceding file_cache_open_file() returned; the guard of OpenDataset says so.
\<close>

datatype cache_op =
    OpenFile int int string
  | OpenDataset int string string
  | Expire int int

fun cache_op_run :: "cache_op \<Rightarrow> file_cache \<Rightarrow> (file_cache \<times> h5_call list) option" where
  "cache_op_run (OpenFile opened now f) c = do {
     (c, _, calls) \<leftarrow> file_cache_open_file False opened now c f;
     Some (c, calls) }"
| "cache_op_run (OpenDataset opened f d) c =
     (if om_lookup (fc_map c) f = None then Some (c, [])
      else do {
        (c, _, calls) \<leftarrow> file_cache_open_dataset False opened c f d;
        Some (c, calls) })"
| "cache_op_run (Expire now max_age) c = file_cache_expire_entries False now c max_age"

fun cache_ops_run :: "cache_op list \<Rightarrow> file_cache \<Rightarrow> (file_cache \<times> h5_call list) option" where
  "cache_ops_run [] c = Some (c, [])"
| "cache_ops_run (op # ops) c = do {
     (c, calls) \<leftarrow> cache_op_run op c;
     (c, calls') \<leftarrow> cache_ops_run ops c;
     Some (c, calls @ calls') }"

fun opened_files :: "h5_call list \<Rightarrow> int list" where
  "opened_files [] = []"
| "opened_files (H5Fopen f i # cs) = (if i \<ge> 0 then i # opened_files cs else opened_files cs)"
| "opened_files (_ # cs) = opened_files cs"

fun closed_files :: "h5_call list \<Rightarrow> int list" where
  "closed_files [] = []"
| "closed_files (H5Fclose i # cs) = i # closed_files cs"
| "closed_files (_ # cs) = closed_files cs"

lemma files_append [simp]:
  "opened_files (cs @ ds) = opened_files cs @ opened_files ds"
  "closed_files (cs @ ds) = closed_files cs @ closed_files ds"
  by (induction cs rule: opened_files.induct) auto

lemma files_closes [simp]: "opened_files (dataset_closes sh es) = []" "closed_files (dataset_closes sh es) = []"
  by (induction es) (auto simp: dataset_closes_def)

text \<open>The file identifiers and the dataset identifiers that a cache holds.\<close>

definition fc_files :: "file_cache \<Rightarrow> int list" where
  "fc_files c = map (fce_file_id \<circ> snd) (fc_map c)"

definition fc_datasets :: "file_cache \<Rightarrow> int list" where
  "fc_datasets c = concat (map (dc_handles \<circ> fce_ds_cache \<circ> snd) (fc_map c))"

text \<open>The calls account for the change of the identifiers held.\<close>

definition accounted :: "file_cache \<Rightarrow> h5_call list \<Rightarrow> file_cache \<Rightarrow> bool" where
  "accounted c calls c' \<longleftrightarrow>
     mset (fc_files c') + mset (closed_files calls) = mset (fc_files c) + mset (opened_files calls) \<and>
     mset (fc_datasets c') + mset (closed_datasets calls) = mset (fc_datasets c) + mset (opened_datasets calls)"

lemma accounted_trans:
  assumes "accounted a cs b" "accounted b ds c"
  shows "accounted a (cs @ ds) c"
proof -
  have 1: "Z + (C1 + C2) = A + (O1 + O2)" if "B + C1 = A + O1" "Z + C2 = B + O2" for A B Z C1 C2 O1 O2 :: "int multiset"
    using that by (metis add.assoc add.commute)
  from assms show ?thesis unfolding accounted_def by (auto intro: 1)
qed

lemma accounted_refl [simp]: "accounted c [] c"
  by (simp add: accounted_def)

lemma entry_closed [simp]:
  "closed_files (entry_closes False e) = [fce_file_id e]" "opened_files (entry_closes False e) = []"
  "mset (closed_datasets (entry_closes False e)) = mset (dc_handles (fce_ds_cache e))"
  "opened_datasets (entry_closes False e) = []"
  by (simp_all add: entry_closes_def dc_handles_def rev_map)

lemma entries_closed:
  defines "calls m \<equiv> concat (map (entry_closes False) (rev (map snd m)))"
  shows "mset (closed_files (calls m)) = mset (map (fce_file_id \<circ> snd) m)"
    "mset (closed_datasets (calls m)) = mset (concat (map (dc_handles \<circ> fce_ds_cache \<circ> snd) m))"
    "opened_files (calls m) = []" "opened_datasets (calls m) = []"
  by (induction m) (simp_all add: calls_def)

lemma take_drop_files: "mset (fc_files c) = mset (fc_files (c\<lparr>fc_map := take n (fc_map c)\<rparr>)) + mset (map (fce_file_id \<circ> snd) (drop n (fc_map c)))"
  unfolding fc_files_def by (simp del: mset_map flip: mset_append map_append)

lemma take_drop_datasets: "mset (fc_datasets c) =
    mset (fc_datasets (c\<lparr>fc_map := take n (fc_map c)\<rparr>)) + mset (concat (map (dc_handles \<circ> fce_ds_cache \<circ> snd) (drop n (fc_map c))))"
  unfolding fc_datasets_def by (simp del: mset_map flip: mset_append map_append concat_append)

lemma accounted_take:
  assumes "opened_files extra = []" "closed_files extra = []" "opened_datasets extra = []" "closed_datasets extra = []"
  shows "accounted c (concat (map (entry_closes False) (rev (map snd (drop n (fc_map c))))) @ extra)
    (c\<lparr>fc_map := take n (fc_map c)\<rparr>)"
  using assms
  by (simp only: accounted_def files_append datasets_append append_Nil2 entries_closed take_drop_files[of c n] take_drop_datasets[of c n] append_Nil mset.simps add_0_right)

lemma accounted_expire:
  assumes "file_cache_expire_entries False now c max_age = Some (c', calls)"
  shows "accounted c calls c'"
proof (cases "max_age > 0")
  case True
  let ?n = "length (fc_map c) - count_expired max_age now (fc_map c)"
    and ?trim = "if count_expired max_age now (fc_map c) > 0 \<and> length (fc_map c) = count_expired max_age now (fc_map c)
      then [Malloc_trim] else []"
  have "c' = c\<lparr>fc_map := take ?n (fc_map c)\<rparr>"
    "calls = concat (map (entry_closes False) (rev (map snd (drop ?n (fc_map c))))) @ ?trim"
    using assms unfolding file_cache_expire_total[OF True] by simp_all
  then show ?thesis by (simp only: ) (rule accounted_take; simp)
next
  case False
  with assms show ?thesis by (simp add: file_cache_expire_entries_def)
qed

lemma accounted_open_file:
  assumes inv: "fc_inv c" and run: "file_cache_open_file False opened now c k = Some (c', e, calls)"
  shows "accounted c calls c'"
  using inv
proof (cases rule: file_cache_cases[of c k False opened now])
  case (hit e')
  have d: "distinct (map fst (fc_map c))" using inv by (simp add: fc_inv_def fc_names_def)
  obtain rest where r: "om_make_head (fc_map c) k = (k, e') # rest" "rest = filter (\<lambda>p. fst p \<noteq> k) (fc_map c)"
    using hit(2) by (simp add: om_make_head_def om_lookup_def)
  have m: "mset (fc_map c) = add_mset (k, e') (mset rest)"
    using om_make_head_mset[OF d, of k] by (simp add: r(1))
  have "fc_map c' = (k, e'\<lparr>fce_last_accessed := now\<rparr>) # rest" "calls = []"
    using hit run d by (auto simp: om_make_head_split r(2))
  then show ?thesis by (simp add: accounted_def fc_files_def fc_datasets_def mset_concat m flip: sum_mset_sum_list)
next
  case fail
  with run show ?thesis by (auto simp: accounted_def)
next
  case (miss fid e')
  let ?n = "nat (fc_max_open_files c - 1)"
  have "accounted c (concat (map (entry_closes False) (rev (map snd (drop ?n (fc_map c)))))) (c\<lparr>fc_map := take ?n (fc_map c)\<rparr>)"
    using accounted_take[of "[]" c ?n] by simp
  with miss run show ?thesis
    by (auto simp: accounted_def fc_files_def fc_datasets_def file_cache_entry_new_def dataset_cache_new_def dc_handles_def)
qed


lemma om_set_split:
  assumes "map_of m k = Some v"
  obtains xs ys where "m = xs @ (k, v) # ys" "om_set m k w = xs @ (k, w) # ys"
proof -
  have "\<exists>xs ys. m = xs @ (k, v) # ys \<and> om_set m k w = xs @ (k, w) # ys" using assms
  proof (induction m)
    case (Cons p m)
    show ?case
    proof (cases "fst p = k")
      case True
      with Cons.prems have "p # m = [] @ (k, v) # m" "om_set (p # m) k w = [] @ (k, w) # m" by (cases p; simp)+
      then show ?thesis by blast
    next
      case False
      with Cons obtain xs ys where "m = xs @ (k, v) # ys" "om_set m k w = xs @ (k, w) # ys" by auto
      with False have "p # m = (p # xs) @ (k, v) # ys" "om_set (p # m) k w = (p # xs) @ (k, w) # ys" by (cases p; simp)+
      then show ?thesis by blast
    qed
  qed simp
  with that show thesis by blast
qed

lemma dataset_calls_no_files:
  assumes "dc_inv c" "dataset_cache_open_dataset False opened c k = Some (c', did, calls)"
  shows "opened_files calls = [] \<and> closed_files calls = []"
  using assms(1) by (cases rule: dataset_cache_cases[of c k False opened]) (use assms(2) in auto)

lemma accounted_open_dataset:
  assumes inv: "fc_inv c" and run: "file_cache_open_dataset False opened c f k = Some (c', did, calls)"
  shows "accounted c calls c'"
proof -
  from run obtain e where e: "om_lookup (fc_map c) f = Some e" by (auto simp: file_cache_open_dataset_def bind_eq_Some_conv)
  obtain ds did' calls' where 1: "dataset_cache_open_dataset False opened (fce_ds_cache e) k = Some (ds, did', calls')"
    "file_cache_open_dataset False opened c f k =
       Some (c\<lparr>fc_map := om_set (fc_map c) f (e\<lparr>fce_ds_cache := ds\<rparr>)\<rparr>, did', calls')"
    by (rule file_cache_open_dataset_ok[OF inv e]) (rule that)
  from fc_entry_inv[OF inv e] have di: "dc_inv (fce_ds_cache e)" by (simp add: entry_inv_def)
  have eq: "c' = c\<lparr>fc_map := om_set (fc_map c) f (e\<lparr>fce_ds_cache := ds\<rparr>)\<rparr>" "calls = calls'" using 1(2) run by simp_all
  obtain xs ys where s: "fc_map c = xs @ (f, e) # ys" "om_set (fc_map c) f (e\<lparr>fce_ds_cache := ds\<rparr>) = xs @ (f, e\<lparr>fce_ds_cache := ds\<rparr>) # ys"
    by (rule om_set_split[OF e[unfolded om_lookup_def]])
  from dataset_cache_handles(1)[OF di 1(1)] dataset_calls_no_files[OF di 1(1)] s show ?thesis
    by (simp add: accounted_def fc_files_def fc_datasets_def eq ac_simps)
qed

lemma cache_op_run_accounted:
  assumes "fc_inv c"
  obtains c' calls where "cache_op_run op c = Some (c', calls)" "fc_inv c'" "accounted c calls c'"
proof (cases op)
  case (OpenFile opened now f)
  obtain c' e calls where 1: "file_cache_open_file False opened now c f = Some (c', e, calls)" "fc_inv c'"
    using file_cache_open_ok[OF assms] .
  with accounted_open_file[OF assms 1(1)] OpenFile show thesis by (intro that) simp_all
next
  case (OpenDataset opened f d)
  show thesis
  proof (cases "om_lookup (fc_map c) f")
    case None
    with OpenDataset assms show thesis by (intro that[of c "[]"]) simp_all
  next
    case (Some e)
    obtain c' did calls where 1: "file_cache_open_dataset False opened c f d = Some (c', did, calls)" "fc_inv c'"
      by (rule file_cache_open_dataset_ok[OF assms Some]) (rule that)
    with accounted_open_dataset[OF assms 1(1)] OpenDataset Some show thesis by (intro that) simp_all
  qed
next
  case (Expire now max_age)
  obtain c' calls where 1: "file_cache_expire_entries False now c max_age = Some (c', calls)"
    using file_cache_expire_total[of max_age False now c] by (cases "max_age > 0") (auto simp: file_cache_expire_entries_def)
  with accounted_expire[OF 1] file_cache_expire_names(1)[OF assms 1] Expire show thesis by (intro that) simp_all
qed

lemma cache_ops_run_accounted:
  "fc_inv c \<Longrightarrow> \<exists>c' calls. cache_ops_run ops c = Some (c', calls) \<and> fc_inv c' \<and> accounted c calls c'"
proof (induction ops arbitrary: c)
  case (Cons op ops)
  obtain c1 calls where 1: "cache_op_run op c = Some (c1, calls)" "fc_inv c1" "accounted c calls c1"
    by (rule cache_op_run_accounted[OF Cons.prems])
  from Cons.IH[OF 1(2)] obtain c2 calls2 where "cache_ops_run ops c1 = Some (c2, calls2)" "fc_inv c2" "accounted c1 calls2 c2"
    by blast
  with 1 accounted_trans show ?case by auto
qed simp

lemma accounted_free:
  obtains calls where "file_cache_free False c = Some calls" "accounted c calls (c\<lparr>fc_map := []\<rparr>)"
proof -
  have "file_cache_free False c = Some (concat (map (entry_closes False) (rev (map snd (fc_map c)))))"
    using evict_spec[of 1 "fc_map c"] by (simp add: file_cache_free_def)
  with accounted_take[of "[]" c 0] show thesis by (intro that) simp_all
qed

section \<open>Properties\<close>

text \<open>
  C16. A reader never leaks or double-closes an HDF5 identifier: over any history of opens, dataset
  opens and expiries of a new file cache, followed by file_cache_free(), the identifiers closed by
  H5Fclose() and H5Dclose() are, with multiplicity, those that H5Fopen() and H5Dopen() returned.
\<close>

theorem file_cache_no_leak:
  assumes "1 \<le> max_files" "1 \<le> max_datasets"
  shows "\<exists>c calls closes. cache_ops_run ops (file_cache_new max_files max_datasets) = Some (c, calls) \<and>
    file_cache_free False c = Some closes \<and>
    mset (closed_files (calls @ closes)) = mset (opened_files (calls @ closes)) \<and>
    mset (closed_datasets (calls @ closes)) = mset (opened_datasets (calls @ closes))"
proof -
  obtain c calls where 1: "cache_ops_run ops (file_cache_new max_files max_datasets) = Some (c, calls)"
    "accounted (file_cache_new max_files max_datasets) calls c"
    using cache_ops_run_accounted[OF file_cache_new_inv[OF assms]] by blast
  obtain closes where 2: "file_cache_free False c = Some closes" "accounted c closes (c\<lparr>fc_map := []\<rparr>)"
    by (rule accounted_free)
  from accounted_trans[OF 1(2) 2(2)] show ?thesis using 1(1) 2(1)
    by (simp add: accounted_def fc_files_def fc_datasets_def file_cache_new_def)
qed

theorem file_cache_no_leak_witness:
  "\<exists>c calls closes. cache_ops_run [OpenFile 7 0 ''a'', OpenDataset 9 ''a'' ''x'', OpenFile 8 1 ''b'', Expire 5 2]
      (file_cache_new 1 4) = Some (c, calls) \<and> file_cache_free False c = Some closes \<and>
    mset (closed_files (calls @ closes)) = mset (opened_files (calls @ closes)) \<and>
    mset (closed_datasets (calls @ closes)) = mset (opened_datasets (calls @ closes))"
  by (rule file_cache_no_leak) simp_all


text \<open>
  C20. A file cache holds the most recently opened files and no others: after opening the files ks
  of a new cache in this order (all of which can be opened), it lists the first max_files names of
  ks by last use, latest first.
\<close>

theorem file_cache_most_recent:
  assumes "1 \<le> max_files" "1 \<le> max_datasets" "\<forall>k \<in> set ks. opened k \<ge> 0"
  shows "fc_names (fold (fc_access False opened now) ks (file_cache_new max_files max_datasets)) =
    take (nat max_files) (recent (rev ks))"
  using file_lru.most_recent[OF file_cache_new_inv[OF assms(1,2)], where ks = ks and shadow = False and opened = opened and now = now] assms(3)
  by (simp add: fc_names_def) (simp add: file_cache_new_def)

theorem file_cache_most_recent_witness:
  "fc_names (fold (fc_access False (\<lambda>_. 5) 0) [''a'', ''b'', ''a'', ''c''] (file_cache_new 2 1)) = [''c'', ''a'']"
  using file_cache_most_recent[of 2 1 "[''a'', ''b'', ''a'', ''c'']" "\<lambda>_. 5" 0] by (simp add: eval_nat_numeral)

text \<open>
  The same of the datasets of one file: a dataset cache lists the max_datasets most recently
  opened datasets, latest first.
\<close>

theorem dataset_cache_most_recent:
  assumes "1 \<le> max_datasets" "\<forall>k \<in> set ks. opened k \<ge> 0"
  shows "dc_names (fold (dc_access False opened) ks (dataset_cache_new file_id max_datasets)) =
    take (nat max_datasets) (recent (rev ks))"
  using dataset_lru.most_recent[OF dataset_cache_new_inv[OF assms(1), of file_id], where ks = ks and shadow = False and opened = opened] assms(2)
  by (simp add: dc_names_def) (simp add: dataset_cache_new_def)

theorem dataset_cache_most_recent_witness:
  "dc_names (fold (dc_access False (\<lambda>_. 5)) [''x'', ''y'', ''z'', ''x''] (dataset_cache_new 3 2)) = [''x'', ''z'']"
  using dataset_cache_most_recent[of 2 "[''x'', ''y'', ''z'', ''x'']" "\<lambda>_. 5" 3] by (simp add: eval_nat_numeral)

section \<open>A reader and its shadow\<close>

text \<open>
  What happens to the cache of a reader and to the copy in the parent: requests for a dataset and
  for an object, each of which the reader serves and the parent then replays, and expiries.  The
  identifiers that the HDF5 library returns and the two clocks are part of the event.
\<close>

datatype mirror_event =
    DatasetRequest int int int int string string
  | ObjectRequest int int int string
  | ReaderExpire int int

fun mirror_step :: "mirror_event \<Rightarrow> file_cache \<times> file_cache \<Rightarrow> (file_cache \<times> file_cache) option" where
  "mirror_step (DatasetRequest fo dopen now now' f d) (r, s) = do {
     (r, status, _) \<leftarrow> reader_open_dataset fo dopen now r f d;
     s \<leftarrow> shadow_dataset_request status now' s f d;
     Some (r, s) }"
| "mirror_step (ObjectRequest fo now now' f) (r, s) = do {
     (r, status) \<leftarrow> reader_open_object fo now r f;
     s \<leftarrow> shadow_object_request status now' s f;
     Some (r, s) }"
| "mirror_step (ReaderExpire now max_age) (r, s) = do {
     (r, _) \<leftarrow> file_cache_expire_entries False now r max_age;
     Some (r, s) }"

fun mirror_run :: "mirror_event list \<Rightarrow> file_cache \<times> file_cache \<Rightarrow> (file_cache \<times> file_cache) option" where
  "mirror_run [] c = Some c"
| "mirror_run (e # es) c = do { c \<leftarrow> mirror_step e c; mirror_run es c }"

fun is_expire :: "mirror_event \<Rightarrow> bool" where
  "is_expire (ReaderExpire _ _) = True"
| "is_expire _ = False"

lemma mirror_step_exact:
  assumes "mirrors (=) r s" "\<not> is_expire e"
  shows "\<exists>r' s'. mirror_step e (r, s) = Some (r', s') \<and> mirrors (=) r' s'"
proof (cases e)
  case (DatasetRequest fo dopen now now' f d)
  obtain r' status did s' where "reader_open_dataset fo dopen now r f d = Some (r', status, did)"
    "shadow_dataset_request status now' s f d = Some s'" "mirrors (=) r' s'"
    by (rule exact_mirror.mirrors_dataset_request[OF assms(1)]) (rule that)
  with DatasetRequest show ?thesis by simp
next
  case (ObjectRequest fo now now' f)
  obtain r' status s' where "reader_open_object fo now r f = Some (r', status)"
    "shadow_object_request status now' s f = Some s'" "mirrors (=) r' s'"
    by (rule exact_mirror.mirrors_object_request[OF assms(1)]) (rule that)
  with ObjectRequest show ?thesis by simp
qed (use assms(2) in simp)

lemma mirror_step_prefix:
  assumes m: "mirrors prefix r s"
  shows "\<exists>r' s'. mirror_step e (r, s) = Some (r', s') \<and> mirrors prefix r' s'"
proof (cases e)
  case (DatasetRequest fo dopen now now' f d)
  obtain r' status did s' where "reader_open_dataset fo dopen now r f d = Some (r', status, did)"
    "shadow_dataset_request status now' s f d = Some s'" "mirrors prefix r' s'"
    by (rule prefix_mirror.mirrors_dataset_request[OF m]) (rule that)
  with DatasetRequest show ?thesis by simp
next
  case (ObjectRequest fo now now' f)
  obtain r' status s' where "reader_open_object fo now r f = Some (r', status)"
    "shadow_object_request status now' s f = Some s'" "mirrors prefix r' s'"
    by (rule prefix_mirror.mirrors_object_request[OF m]) (rule that)
  with ObjectRequest show ?thesis by simp
next
  case (ReaderExpire now max_age)
  from m have inv: "fc_inv r" by (simp add: mirrors_def)
  obtain r' calls where 1: "cache_op_run (Expire now max_age) r = Some (r', calls)"
    by (rule cache_op_run_accounted[OF inv])
  with mirrors_expire[OF m, of now max_age r' calls] ReaderExpire show ?thesis by simp
qed

lemma mirror_run_exact:
  "mirrors (=) r s \<Longrightarrow> \<forall>e \<in> set es. \<not> is_expire e \<Longrightarrow> \<exists>r' s'. mirror_run es (r, s) = Some (r', s') \<and> mirrors (=) r' s'"
proof (induction es arbitrary: r s)
  case (Cons e es)
  from mirror_step_exact[OF Cons.prems(1), of e] Cons.prems(2) Cons.IH show ?case by fastforce
qed simp

lemma mirror_run_prefix: "mirrors prefix r s \<Longrightarrow> \<exists>r' s'. mirror_run es (r, s) = Some (r', s') \<and> mirrors prefix r' s'"
proof (induction es arbitrary: r s)
  case (Cons e es)
  from mirror_step_prefix[OF Cons.prems, of e] Cons.IH show ?case by fastforce
qed simp

text \<open>
  C18. While nothing expires, the parent's shadow copy lists exactly the files and, per file, the
  datasets that the reader holds, whatever was requested and whatever could be opened.
\<close>

theorem shadow_exact:
  assumes "1 \<le> max_files" "1 \<le> max_datasets" "\<forall>e \<in> set es. \<not> is_expire e"
  shows "\<exists>r s. mirror_run es (file_cache_new max_files max_datasets, file_cache_new max_files max_datasets) = Some (r, s) \<and>
    fc_names r = fc_names s \<and> (\<forall>f \<in> set (fc_names r). cached_datasets r f = cached_datasets s f)"
  using mirror_run_exact[OF mirrors_new[OF assms(1,2)] assms(3)] by (fastforce simp: mirrors_def)

theorem shadow_exact_witness:
  "\<exists>r s. mirror_run [DatasetRequest 4 5 0 0 ''f'' ''x'', ObjectRequest (-1) 0 0 ''g''] (file_cache_new 2 2, file_cache_new 2 2) = Some (r, s) \<and>
    fc_names r = fc_names s"
  using shadow_exact[of 2 2 "[DatasetRequest 4 5 0 0 ''f'' ''x'', ObjectRequest (-1) 0 0 ''g'']"] by auto

text \<open>
  C17. With expiries the shadow copy still covers the reader: it lists at least the files and
  datasets the reader holds (the reader's are an initial part of them, in the order of last use),
  so the score by which the parent ranks a process is never below the true one.
\<close>

theorem shadow_covers:
  assumes "1 \<le> max_files" "1 \<le> max_datasets"
  shows "\<exists>r s. mirror_run es (file_cache_new max_files max_datasets, file_cache_new max_files max_datasets) = Some (r, s) \<and>
    prefix (fc_names r) (fc_names s) \<and> (\<forall>f \<in> set (fc_names r). prefix (cached_datasets r f) (cached_datasets s f)) \<and>
    (\<forall>f d. cache_score r f d \<le> cache_score s f d)"
proof -
  obtain r s where 1: "mirror_run es (file_cache_new max_files max_datasets, file_cache_new max_files max_datasets) = Some (r, s)"
    "mirrors prefix r s"
    using mirror_run_prefix[OF mirrors_new[OF assms]] by blast
  from 1(2) have "fc_names s = fc_names s \<and> set (fc_names r) \<subseteq> set (fc_names s)"
    by (auto simp: mirrors_def dest: set_mono_prefix)
  with 1 cache_score_mono[OF 1(2)] show ?thesis by (auto simp: mirrors_def)
qed

theorem shadow_covers_witness:
  "\<exists>r s. mirror_run [DatasetRequest 4 5 0 0 ''f'' ''x'', ReaderExpire 9 1] (file_cache_new 2 2, file_cache_new 2 2) = Some (r, s) \<and>
    prefix (fc_names r) (fc_names s) \<and> cache_score r ''f'' (Some ''x'') \<le> cache_score s ''f'' (Some ''x'')"
proof -
  obtain r s where 1: "mirror_run [DatasetRequest 4 5 0 0 ''f'' ''x'', ReaderExpire 9 1] (file_cache_new 2 2, file_cache_new 2 2) = Some (r, s)"
    "prefix (fc_names r) (fc_names s)" "\<forall>f d. cache_score r f d \<le> cache_score s f d"
    using shadow_covers[of 2 2 "[DatasetRequest 4 5 0 0 ''f'' ''x'', ReaderExpire 9 1]"] by auto
  from 1(3) have "cache_score r ''f'' (Some ''x'') \<le> cache_score s ''f'' (Some ''x'')" by simp
  with 1(1,2) show ?thesis by blast
qed

text \<open>
  C21. Expiry removes exactly the entries that have not been used for max_age seconds, if the clock
  has not run backwards: file_cache_expire_entries() counts the old entries and removes as many
  from the tail, and these are the old ones.
\<close>

theorem expire_removes_old:
  assumes "stamped now c" "max_age > 0"
  shows "\<exists>calls. file_cache_expire_entries shadow now' c max_age =
    Some (c\<lparr>fc_map := filter (\<lambda>p. now' \<le> fce_last_accessed (snd p) + max_age) (fc_map c)\<rparr>, calls)"
proof -
  have "(\<lambda>p. \<not> expired max_age now' p) = (\<lambda>p. now' \<le> fce_last_accessed (snd p) + max_age)"
    by (simp add: expired_def fun_eq_iff not_less)
  moreover obtain calls where "file_cache_expire_entries shadow now' c max_age =
      Some (c\<lparr>fc_map := filter (\<lambda>p. \<not> expired max_age now' p) (fc_map c)\<rparr>, calls)"
    by (rule file_cache_expire_exact[OF assms])
  ultimately show ?thesis by simp
qed

theorem expire_removes_old_witness:
  "\<exists>calls. file_cache_expire_entries False 9 ((file_cache_new 2 2)\<lparr>fc_map := [(''a'', file_cache_entry_new 7 3 ''a'' 2), (''b'', file_cache_entry_new 2 4 ''b'' 2)]\<rparr>) 5 =
    Some ((file_cache_new 2 2)\<lparr>fc_map := [(''a'', file_cache_entry_new 7 3 ''a'' 2)]\<rparr>, calls)"
proof -
  let ?c = "(file_cache_new 2 2)\<lparr>fc_map := [(''a'', file_cache_entry_new 7 3 ''a'' 2), (''b'', file_cache_entry_new 2 4 ''b'' 2)]\<rparr>"
  have "stamped 7 ?c" by (simp add: stamped_def file_cache_entry_new_def)
  from expire_removes_old[OF this, of 5 False 9] show ?thesis by (simp add: file_cache_entry_new_def)
qed

text \<open>
  The time stamps stay in the order that expiry relies on: opening a file at a time not before
  the latest one keeps the entries sorted by last access.
\<close>

theorem open_keeps_stamps:
  assumes inv: "fc_inv c" and st: "stamped now c" "now \<le> now'"
  shows "\<exists>c' e calls. file_cache_open_file shadow opened now' c k = Some (c', e, calls) \<and> stamped now' c' \<and>
    (shadow \<or> opened \<ge> 0 \<longrightarrow> (\<exists>rest. fc_names c' = k # rest))"
proof -
  obtain c' e calls where 1: "file_cache_open_file shadow opened now' c k = Some (c', e, calls)"
    using file_cache_open_ok[OF inv] .
  have "\<exists>rest. fc_names c' = k # rest" if "shadow \<or> opened \<ge> 0"
    using file_lru.access_step[OF inv, of k shadow "\<lambda>_. opened" now'] that 1 by (auto simp: fc_access_def lru_step_def)
  with 1 file_cache_open_stamped[OF inv st 1] show ?thesis by blast
qed

theorem open_keeps_stamps_witness:
  "\<exists>c' e calls rest. file_cache_open_file False 6 3 (file_cache_new 2 2) ''a'' = Some (c', e, calls) \<and> stamped 3 c' \<and>
    fc_names c' = ''a'' # rest"
proof -
  have "fc_inv (file_cache_new 2 2)" by (rule file_cache_new_inv) simp_all
  moreover have "stamped 0 (file_cache_new 2 2)" by (simp add: stamped_def file_cache_new_def)
  moreover have "(0::int) \<le> 3" by simp
  ultimately obtain c' e calls where "file_cache_open_file False 6 3 (file_cache_new 2 2) ''a'' = Some (c', e, calls)"
    "stamped 3 c'" "False \<or> (6::int) \<ge> 0 \<longrightarrow> (\<exists>rest. fc_names c' = ''a'' # rest)"
    using open_keeps_stamps by blast
  then show ?thesis by auto
qed

text \<open>
  file_cache_query() answers from the contents alone and changes nothing: have_file says
  whether the file is cached, have_dataset whether it is and, when a dataset is named, whether that
  dataset is cached in it.
\<close>

theorem query_answers:
  "file_cache_query c f d =
     (if f \<in> set (fc_names c) then 1 else 0,
      if f \<in> set (fc_names c) \<and> (case d of None \<Rightarrow> True | Some k \<Rightarrow> k \<in> set (cached_datasets c f)) then 1 else 0)"
  by (auto simp: file_cache_query_spec split: option.split)

end
