(* ===== verification/SharedData.thy ===== *)
theory SharedData
  imports Prelude "HOL-Library.Word"
begin

text \<open>
  The shared memory of one reader process, src/src/lib/shared_data.c: a header (struct
  shared_reader_data) followed by NR_BUFFERS buffers.  The header is a record, the buffers are
  bytes of a memory function addressed by the offsets the header stores.  Sizes are size_t values:
  natural numbers below 2^64, sums and products reduced explicitly.  The size of the header
  struct depends on the platform and is an argument.
\<close>

section \<open>Data\<close>

definition NR_BUFFERS :: nat where "NR_BUFFERS = 32"
definition ALIGNMENT :: nat where "ALIGNMENT = 1024"

definition BUFFER_STATUS_OK :: int where "BUFFER_STATUS_OK = 0"
definition BUFFER_STATUS_ERROR :: int where "BUFFER_STATUS_ERROR = 2"
definition BUFFER_STATUS_CANCEL :: int where "BUFFER_STATUS_CANCEL = 3"

type_synonym byte = "8 word"

record buffer_data =
  bd_offset :: nat
  bd_used :: nat
  bd_ready_for_write :: nat
  bd_ready_for_read :: nat
  bd_status :: int

record shared_reader_data =
  srd_status :: int
  srd_total_size :: nat
  srd_buffer_size :: nat
  srd_buffer :: "buffer_data list"
  srd_nr_file_cache_hits :: int
  srd_nr_file_cache_misses :: int

section \<open>Layout\<close>

definition size_t :: "nat \<Rightarrow> nat" where
  "size_t n = n mod 2 ^ 64"

definition header_size :: "nat \<Rightarrow> nat" where
  "header_size sizeof_srd =
     (let size = sizeof_srd
      in if size mod ALIGNMENT \<noteq> 0 then
           (let size = size - size mod ALIGNMENT in size_t (size + ALIGNMENT))
         else size)"

definition shared_data_size :: "nat \<Rightarrow> nat \<Rightarrow> nat" where
  "shared_data_size sizeof_srd buffer_size = size_t (header_size sizeof_srd + size_t (NR_BUFFERS * buffer_size))"

definition shared_data_populate :: "nat \<Rightarrow> nat \<Rightarrow> shared_reader_data \<Rightarrow> shared_reader_data" where
  "shared_data_populate sizeof_srd buffer_size srd =
     srd\<lparr>srd_total_size := shared_data_size sizeof_srd buffer_size,
        srd_buffer_size := buffer_size,
        srd_nr_file_cache_hits := 0,
        srd_nr_file_cache_misses := 0,
        srd_buffer := map (\<lambda>j. \<lparr>bd_offset = size_t (header_size sizeof_srd + size_t (j * buffer_size)),
          bd_used = 0, bd_ready_for_write = 0, bd_ready_for_read = 0, bd_status = 0\<rparr>) [0..<NR_BUFFERS]\<rparr>"

section \<open>Semaphores\<close>

text \<open>
  sem_post() and a sem_wait() that does not block.  The loops of shared_data_init_semaphores() run
  while no other process uses the semaphores.
\<close>

definition sem_post :: "nat \<Rightarrow> nat" where
  "sem_post v = v + 1"

definition sem_trywait :: "nat \<Rightarrow> nat option" where
  "sem_trywait v = (if v > 0 then Some (v - 1) else None)"

fun sem_drain :: "nat \<Rightarrow> nat" where
  "sem_drain v = (if v > 0 then sem_drain (v - 1) else v)"

function sem_fill :: "nat \<Rightarrow> nat" where
  "sem_fill v = (if v < 1 then sem_fill (sem_post v) else v)"
  by pat_completeness auto
termination
  by (relation "measure (\<lambda>v. 1 - v)") (auto simp: sem_post_def)

declare sem_drain.simps [simp del] sem_fill.simps [simp del]

definition shared_data_init_semaphores :: "shared_reader_data \<Rightarrow> shared_reader_data" where
  "shared_data_init_semaphores srd =
     (let bs = map (\<lambda>b. b\<lparr>bd_ready_for_read := sem_drain (bd_ready_for_read b)\<rparr>) (srd_buffer srd);
          bs = map (\<lambda>b. b\<lparr>bd_ready_for_write := sem_fill (bd_ready_for_write b)\<rparr>) bs;
          bs = map (\<lambda>b. b\<lparr>bd_used := 0\<rparr>) bs
      in srd\<lparr>srd_buffer := bs\<rparr>)"

section \<open>Lemmas\<close>

lemma NR_BUFFERS_pos [simp]: "0 < NR_BUFFERS"
  by (simp add: NR_BUFFERS_def)

lemma size_t_id [simp]: "n < 2 ^ 64 \<Longrightarrow> size_t n = n"
  by (simp add: size_t_def)

lemma sem_drain_0 [simp]: "sem_drain v = 0"
  by (induction v) (simp_all add: sem_drain.simps)

lemma sem_fill_max [simp]: "sem_fill v = max 1 v"
  by (cases v) (simp_all add: sem_fill.simps sem_post_def)

text \<open>The buffers do not overlap the header or each other, and end with the region.\<close>

definition layout :: "nat \<Rightarrow> shared_reader_data \<Rightarrow> bool" where
  "layout base srd \<longleftrightarrow> length (srd_buffer srd) = NR_BUFFERS \<and>
     (\<forall>j < NR_BUFFERS. bd_offset (srd_buffer srd ! j) = base + j * srd_buffer_size srd) \<and>
     srd_total_size srd = base + NR_BUFFERS * srd_buffer_size srd"

lemma header_size_bounds:
  assumes "sizeof_srd + ALIGNMENT < 2 ^ 64"
  shows "sizeof_srd \<le> header_size sizeof_srd" "header_size sizeof_srd < sizeof_srd + ALIGNMENT"
    "ALIGNMENT dvd header_size sizeof_srd"
proof -
  let ?r = "sizeof_srd mod ALIGNMENT"
  have r: "?r < ALIGNMENT" "?r \<le> sizeof_srd" by (auto simp: ALIGNMENT_def)
  have d: "ALIGNMENT dvd sizeof_srd - ?r" by (rule dvd_minus_mod)
  have h: "header_size sizeof_srd = (if ?r \<noteq> 0 then sizeof_srd - ?r + ALIGNMENT else sizeof_srd)"
    using assms r by (simp add: header_size_def Let_def)
  show "sizeof_srd \<le> header_size sizeof_srd" "header_size sizeof_srd < sizeof_srd + ALIGNMENT"
    using r by (auto simp: h)
  show "ALIGNMENT dvd header_size sizeof_srd"
    using d dvd_add[OF d dvd_refl] by (cases "?r = 0") (simp_all only: h if_True if_False simp_thms mod_eq_0_iff_dvd)
qed

theorem shared_data_layout:
  assumes "sizeof_srd + ALIGNMENT + NR_BUFFERS * buffer_size < 2 ^ 64"
  shows "layout (header_size sizeof_srd) (shared_data_populate sizeof_srd buffer_size srd)"
    and "sizeof_srd \<le> header_size sizeof_srd"
proof -
  from assms have h: "sizeof_srd + ALIGNMENT < 2 ^ 64" by simp
  note hb = header_size_bounds[OF h]
  have "header_size sizeof_srd + j * buffer_size < 2 ^ 64 \<and> j * buffer_size < 2 ^ 64" if "j \<le> NR_BUFFERS" for j
  proof -
    have "j * buffer_size \<le> NR_BUFFERS * buffer_size" using that by (rule mult_le_mono1)
    with assms hb(2) show ?thesis by linarith
  qed
  then show "layout (header_size sizeof_srd) (shared_data_populate sizeof_srd buffer_size srd)"
    by (simp add: layout_def shared_data_populate_def shared_data_size_def)
  show "sizeof_srd \<le> header_size sizeof_srd" by (rule hb(1))
qed

lemma layout_disjoint:
  assumes "layout base srd" "i < NR_BUFFERS" "j < NR_BUFFERS" "i \<noteq> j" "m \<le> srd_buffer_size srd" "n \<le> srd_buffer_size srd"
  shows "{bd_offset (srd_buffer srd ! i)..<bd_offset (srd_buffer srd ! i) + m} \<inter>
         {bd_offset (srd_buffer srd ! j)..<bd_offset (srd_buffer srd ! j) + n} = {}"
proof -
  let ?s = "srd_buffer_size srd"
  have "i * ?s + ?s \<le> j * ?s \<or> j * ?s + ?s \<le> i * ?s"
  proof (cases "i < j")
    case True
    then have "Suc i * ?s \<le> j * ?s" by (intro mult_le_mono1) simp
    then show ?thesis by simp
  next
    case False
    with assms(4) have "Suc j * ?s \<le> i * ?s" by (intro mult_le_mono1) simp
    then show ?thesis by simp
  qed
  with assms show ?thesis by (auto simp: layout_def)
qed

lemma layout_within:
  assumes "layout base srd" "i < NR_BUFFERS" "m \<le> srd_buffer_size srd"
  shows "base \<le> bd_offset (srd_buffer srd ! i)" "bd_offset (srd_buffer srd ! i) + m \<le> srd_total_size srd"
proof -
  have "Suc i * srd_buffer_size srd \<le> NR_BUFFERS * srd_buffer_size srd" using assms(2) by (intro mult_le_mono1) simp
  with assms show "base \<le> bd_offset (srd_buffer srd ! i)" "bd_offset (srd_buffer srd ! i) + m \<le> srd_total_size srd"
    by (auto simp: layout_def)
qed

text \<open>Before a request every buffer is empty and writable and none is readable.\<close>

definition ready :: "shared_reader_data \<Rightarrow> bool" where
  "ready srd \<longleftrightarrow> length (srd_buffer srd) = NR_BUFFERS \<and>
     (\<forall>b \<in> set (srd_buffer srd). bd_used b = 0 \<and> bd_ready_for_write b = 1 \<and> bd_ready_for_read b = 0)"

theorem init_semaphores_ready:
  assumes "length (srd_buffer srd) = NR_BUFFERS" "\<forall>b \<in> set (srd_buffer srd). bd_ready_for_write b \<le> 1"
  shows "ready (shared_data_init_semaphores srd)"
    and "layout base srd \<Longrightarrow> layout base (shared_data_init_semaphores srd)"
  using assms by (auto simp: ready_def layout_def shared_data_init_semaphores_def)


section \<open>Properties\<close>

text \<open>
  C23. The buffers of a reader's shared memory do not overlap: unless the size of the region does
  not fit in size_t, shared_data_populate() places the NR_BUFFERS buffers behind the header, inside
  the shared_data_size() bytes of the region, and pairwise disjoint.
\<close>

theorem shared_buffers_disjoint:
  assumes "sizeof_srd + ALIGNMENT + NR_BUFFERS * buffer_size < 2 ^ 64"
  shows "let offset = (\<lambda>i. bd_offset (srd_buffer (shared_data_populate sizeof_srd buffer_size srd) ! i)) in
    \<forall>i < NR_BUFFERS. sizeof_srd \<le> offset i \<and> offset i + buffer_size \<le> shared_data_size sizeof_srd buffer_size \<and>
      (\<forall>j < NR_BUFFERS. i \<noteq> j \<longrightarrow> {offset i..<offset i + buffer_size} \<inter> {offset j..<offset j + buffer_size} = {})"
proof -
  let ?srd = "shared_data_populate sizeof_srd buffer_size srd"
  have l: "layout (header_size sizeof_srd) ?srd" "sizeof_srd \<le> header_size sizeof_srd"
    using shared_data_layout[OF assms] by simp_all
  have s: "srd_buffer_size ?srd = buffer_size" "srd_total_size ?srd = shared_data_size sizeof_srd buffer_size"
    by (simp_all add: shared_data_populate_def)
  have "sizeof_srd \<le> bd_offset (srd_buffer ?srd ! i)"
    "bd_offset (srd_buffer ?srd ! i) + buffer_size \<le> shared_data_size sizeof_srd buffer_size" if "i < NR_BUFFERS" for i
    using layout_within[OF l(1) that, of buffer_size] l(2) s by simp_all
  moreover note layout_disjoint[OF l(1), of _ _ buffer_size buffer_size]
  ultimately show ?thesis using s by (simp add: Let_def)
qed

definition blank_srd :: shared_reader_data where
  "blank_srd = \<lparr>srd_status = 0, srd_total_size = 0, srd_buffer_size = 0, srd_buffer = [],
     srd_nr_file_cache_hits = 0, srd_nr_file_cache_misses = 0\<rparr>"

theorem shared_buffers_disjoint_witness:
  "bd_offset (srd_buffer (shared_data_populate 1500 4096 blank_srd) ! 2) + 4096 \<le> shared_data_size 1500 4096"
proof -
  have "1500 + ALIGNMENT + NR_BUFFERS * 4096 < 2 ^ 64" "2 < NR_BUFFERS"
    by (simp_all add: ALIGNMENT_def NR_BUFFERS_def)
  with shared_buffers_disjoint[of 1500 4096 blank_srd] show ?thesis by (simp only: Let_def)
qed

text \<open>
  shared_data_init_semaphores() makes the region ready for a request whatever a request that
  was cut short left in it: every buffer empty, writable exactly once and not readable, and its
  loops end.  It never drains ready_for_write, so a value above 1 would stay.
\<close>

theorem init_semaphores_reset:
  assumes "length (srd_buffer srd) = NR_BUFFERS" "\<forall>b \<in> set (srd_buffer srd). bd_ready_for_write b \<le> 1"
  shows "\<forall>b \<in> set (srd_buffer (shared_data_init_semaphores srd)).
    bd_used b = 0 \<and> bd_ready_for_write b = 1 \<and> bd_ready_for_read b = 0"
  using init_semaphores_ready(1)[OF assms] by (simp add: ready_def)

theorem init_semaphores_reset_witness:
  "list_all (\<lambda>b. bd_used b = 0 \<and> bd_ready_for_write b = 1 \<and> bd_ready_for_read b = 0)
    (srd_buffer (shared_data_init_semaphores (shared_data_populate 100 8 blank_srd)))"
  unfolding list_all_iff by (rule init_semaphores_reset) (simp_all add: shared_data_populate_def)

end
