(* ===== verification/WorkerProcess.thy ===== *)
theory WorkerProcess
  imports SharedData
begin

text \<open>
  A reader process seen from its parent, and the messages between the two:
  src/src/util/worker_process.c.

  What the operating system answers to the calls write(), read(), waitpid(), pipe() and fork() is
  an argument.  A loop over write() or read() takes a list of answers, in the order of the calls.
  A pipe is the list of the bytes that were written and not yet read.  None is the result of an
  operation that still waits after the last answer; in the reader, which does not look at the
  return code of worker_recv(), it also stands for the use of a value that was never received.
\<close>

section \<open>Partial writes and reads\<close>

datatype write_answer = Written nat | WriteEINTR | WriteEPIPE | WriteFailed

text \<open>
  write() is never asked to write more than nleft bytes and never reports more; out collects the
  bytes that went into the pipe.  The result is the error code, if there was one, the bytes
  written and the answers that are left.
\<close>

fun write_loop :: "write_answer list \<Rightarrow> byte list \<Rightarrow> byte list \<Rightarrow> (int option \<times> byte list \<times> write_answer list) option" where
  "write_loop ws [] out = Some (None, out, ws)"
| "write_loop [] buf out = None"
| "write_loop (Written k # ws) buf out = write_loop ws (drop k buf) (out @ take k buf)"
| "write_loop (WriteEINTR # ws) buf out = write_loop ws buf out"
| "write_loop (WriteEPIPE # ws) buf out = Some (Some (-2), out, ws)"
| "write_loop (WriteFailed # ws) buf out = Some (Some (-1), out, ws)"

definition do_write :: "write_answer list \<Rightarrow> byte list \<Rightarrow> (int \<times> byte list \<times> write_answer list) option" where
  "do_write ws buf =
     (case write_loop ws buf [] of
        None \<Rightarrow> None
      | Some (e, out, ws) \<Rightarrow> Some (case e of None \<Rightarrow> int (length buf) | Some c \<Rightarrow> c, out, ws))"

text \<open>read() answers with up to nleft of the bytes in the pipe, and at least one unless it is at the end.\<close>

datatype read_answer = Got nat | ReadEOF | ReadEINTR | ReadEPIPE | ReadFailed

fun read_loop :: "read_answer list \<Rightarrow> byte list \<Rightarrow> nat \<Rightarrow> byte list \<Rightarrow>
    (int option \<times> byte list \<times> byte list \<times> read_answer list) option" where
  "read_loop rs pipe 0 inp = Some (None, inp, pipe, rs)"
| "read_loop [] pipe (Suc n) inp = None"
| "read_loop (Got k # rs) pipe (Suc n) inp =
     (let got = take (min k (Suc n)) pipe
      in if got = [] then read_loop rs pipe (Suc n) inp
         else read_loop rs (drop (length got) pipe) (Suc n - length got) (inp @ got))"
| "read_loop (ReadEOF # rs) pipe (Suc n) inp = Some (Some (-3), inp, pipe, rs)"
| "read_loop (ReadEINTR # rs) pipe (Suc n) inp = read_loop rs pipe (Suc n) inp"
| "read_loop (ReadEPIPE # rs) pipe (Suc n) inp = Some (Some (-2), inp, pipe, rs)"
| "read_loop (ReadFailed # rs) pipe (Suc n) inp = Some (Some (-1), inp, pipe, rs)"

definition do_read :: "read_answer list \<Rightarrow> byte list \<Rightarrow> nat \<Rightarrow> (int \<times> byte list \<times> byte list \<times> read_answer list) option" where
  "do_read rs pipe n =
     (case read_loop rs pipe n [] of
        None \<Rightarrow> None
      | Some (e, inp, pipe, rs) \<Rightarrow> Some (case e of None \<Rightarrow> int n | Some c \<Rightarrow> c, inp, pipe, rs))"

section \<open>The process\<close>

record worker_process =
  wp_pid :: int
  wp_input_fd :: nat
  wp_output_fd :: nat
  wp_is_dead :: bool
  wp_exit_status :: int

text \<open>
  status is what waitpid() stores.  The results are the worker, the return code, the bytes that
  went into the pipe and the answers that are left.
\<close>

definition worker_process_send ::
  "int \<Rightarrow> write_answer list \<Rightarrow> worker_process \<Rightarrow> byte list \<Rightarrow> (worker_process \<times> int \<times> byte list \<times> write_answer list) option" where
  "worker_process_send status ws wp data =
     (if wp_is_dead wp then Some (wp, -1, [], ws)
      else (case do_write ws data of
              None \<Rightarrow> None
            | Some (nr, out, ws) \<Rightarrow>
                (let wp = (if nr = -2 then wp\<lparr>wp_is_dead := True, wp_exit_status := status\<rparr> else wp)
                 in Some (wp, if nr < 0 \<or> nr \<noteq> int (length data) then -1 else 0, out, ws))))"

definition worker_process_recv ::
  "int \<Rightarrow> read_answer list \<Rightarrow> worker_process \<Rightarrow> byte list \<Rightarrow> nat \<Rightarrow>
     (worker_process \<times> int \<times> byte list \<times> byte list \<times> read_answer list) option" where
  "worker_process_recv status rs wp pipe len =
     (if wp_is_dead wp then Some (wp, -1, [], pipe, rs)
      else (case do_read rs pipe len of
              None \<Rightarrow> None
            | Some (nr, inp, pipe, rs) \<Rightarrow>
                (let wp = (if nr = -2 \<or> nr = -3 then wp\<lparr>wp_is_dead := True, wp_exit_status := status\<rparr> else wp)
                 in Some (wp, if nr < 0 \<or> nr \<noteq> int len then -1 else 0, inp, pipe, rs))))"

text \<open>exited is the exit status, if waitpid() reports that the process has exited.\<close>

definition worker_process_is_alive :: "int option \<Rightarrow> worker_process \<Rightarrow> worker_process \<times> int" where
  "worker_process_is_alive exited wp =
     (if wp_is_dead wp then (wp, 0)
      else (case exited of
              Some status \<Rightarrow> (wp\<lparr>wp_is_dead := True, wp_exit_status := status\<rparr>, 0)
            | None \<Rightarrow> (wp, 1)))"

text \<open>The reader's side of the pipes.\<close>

definition worker_send :: "write_answer list \<Rightarrow> byte list \<Rightarrow> (int \<times> byte list \<times> write_answer list) option" where
  "worker_send ws data =
     (case do_write ws data of
        None \<Rightarrow> None
      | Some (nr, out, ws) \<Rightarrow> Some (if nr < 0 \<or> nr \<noteq> int (length data) then -1 else 0, out, ws))"

definition worker_recv :: "read_answer list \<Rightarrow> byte list \<Rightarrow> nat \<Rightarrow> (int \<times> byte list \<times> byte list \<times> read_answer list) option" where
  "worker_recv rs pipe len =
     (case do_read rs pipe len of
        None \<Rightarrow> None
      | Some (nr, inp, pipe, rs) \<Rightarrow> Some (if nr < 0 \<or> nr \<noteq> int len then -1 else 0, inp, pipe, rs))"

text \<open>polls are the answers of poll(): its result, or None for EINTR.\<close>

fun poll_loop :: "int option list \<Rightarrow> int option" where
  "poll_loop [] = None"
| "poll_loop (None # polls) = poll_loop polls"
| "poll_loop (Some r # polls) = Some r"

definition worker_recv_with_timeout ::
  "int option list \<Rightarrow> read_answer list \<Rightarrow> byte list \<Rightarrow> nat \<Rightarrow> (int \<times> byte list \<times> byte list \<times> read_answer list) option" where
  "worker_recv_with_timeout polls rs pipe len =
     (case poll_loop polls of
        None \<Rightarrow> None
      | Some result \<Rightarrow>
          if result < 0 then Some (-1, [], pipe, rs)
          else if result = 0 then Some (1, [], pipe, rs)
          else worker_recv rs pipe len)"

section \<open>Starting and freeing a process\<close>

text \<open>The system calls that have an effect outside the process, in the order of the code.\<close>

datatype os_call = Opened nat | Closed nat | Terminate int | KillNow int | Shutdown

text \<open>
  exits are the answers of the polls with WNOHANG: the exit status once the process has exited.  The
  code polls 200 times; final is the status that the last, blocking, waitpid() reports.
\<close>

definition worker_process_free :: "int option list \<Rightarrow> int \<Rightarrow> worker_process \<Rightarrow> int \<times> os_call list" where
  "worker_process_free exits final wp =
     (let (status, kills) =
        (if wp_is_dead wp then (wp_exit_status wp, [])
         else (case filter (\<lambda>e. e \<noteq> None) (take 200 exits) of
                 Some status # _ \<Rightarrow> (status, [Terminate (wp_pid wp)])
               | _ \<Rightarrow> (final, [Terminate (wp_pid wp), KillNow (wp_pid wp)])))
      in (status, kills @ [Closed (wp_input_fd wp), Closed (wp_output_fd wp), Shutdown]))"

text \<open>
  worker_process_new() in the parent.  in_pipe and out_pipe are the read and write ends that pipe()
  returns (None on failure), pid the result of fork(), init the result of the init callback
  together with what it makes of the worker.
\<close>

definition worker_process_new ::
  "(nat \<times> nat) option \<Rightarrow> (nat \<times> nat) option \<Rightarrow> int \<Rightarrow> (worker_process \<Rightarrow> worker_process \<times> int) \<Rightarrow>
     int option list \<Rightarrow> int \<Rightarrow> worker_process option \<times> os_call list" where
  "worker_process_new in_pipe out_pipe pid init exits final =
     (case in_pipe of
        None \<Rightarrow> (None, [])
      | Some (in_r, in_w) \<Rightarrow>
     (case out_pipe of
        None \<Rightarrow> (None, [Opened in_r, Opened in_w])
      | Some (out_r, out_w) \<Rightarrow>
          (let opened = [Opened in_r, Opened in_w, Opened out_r, Opened out_w]
           in if pid = -1 then (None, opened)
              else (let wp = \<lparr>wp_pid = pid, wp_input_fd = in_w, wp_output_fd = out_r, wp_is_dead = False, wp_exit_status = 0\<rparr>;
                        calls = opened @ [Closed in_r, Closed out_w];
                        (wp, rc) = init wp
                    in if rc \<noteq> 0 then (None, calls @ snd (worker_process_free exits final wp))
                       else (Some wp, calls)))))"

section \<open>Every byte arrives once and in order\<close>

lemma write_loop_bytes:
  "write_loop ws buf out0 = Some (e, out, ws') \<Longrightarrow>
   \<exists>done rest. buf = done @ rest \<and> out = out0 @ done \<and> (e = None \<longrightarrow> rest = []) \<and> (e = None \<or> e = Some (-1) \<or> e = Some (-2))"
proof (induction ws buf out0 rule: write_loop.induct)
  case (3 k ws b bs out0)
  let ?buf = "b # bs"
  have "write_loop ws (drop k ?buf) (out0 @ take k ?buf) = Some (e, out, ws')" using 3(2) by simp
  from 3(1) [OF this] obtain dn rest where d: "drop k ?buf = dn @ rest" "out = (out0 @ take k ?buf) @ dn"
    "e = None \<longrightarrow> rest = []" "e = None \<or> e = Some (-1) \<or> e = Some (-2)" by blast
  have "?buf = (take k ?buf @ dn) @ rest" using d(1) by (metis append.assoc append_take_drop_id)
  then show ?case using d by (intro exI [of _ "take k ?buf @ dn"] exI [of _ rest]) simp
qed auto

lemma read_loop_bytes:
  "read_loop rs pipe n inp0 = Some (e, inp, pipe', rs') \<Longrightarrow>
   \<exists>got. pipe = got @ pipe' \<and> inp = inp0 @ got \<and> length got \<le> n \<and> (e = None \<longleftrightarrow> length got = n) \<and>
     (e = None \<or> e = Some (-1) \<or> e = Some (-2) \<or> e = Some (-3))"
proof (induction rs pipe n inp0 rule: read_loop.induct)
  case (3 k rs pipe n inp0)
  let ?got = "take (min k (Suc n)) pipe"
  show ?case
  proof (cases "?got = []")
    case True
    then show ?thesis using 3 by simp
  next
    case False
    have len: "length ?got \<le> Suc n" by simp
    have "read_loop rs (drop (length ?got) pipe) (Suc n - length ?got) (inp0 @ ?got) = Some (e, inp, pipe', rs')"
      using 3(3) unfolding read_loop.simps Let_def if_not_P [OF False] .
    from 3(2) [OF refl False this] obtain got where g: "drop (length ?got) pipe = got @ pipe'" "inp = (inp0 @ ?got) @ got"
      "length got \<le> Suc n - length ?got" "(e = None) = (length got = Suc n - length ?got)"
      "e = None \<or> e = Some (-1) \<or> e = Some (-2) \<or> e = Some (-3)" by blast
    have "take (length ?got) pipe = ?got" by (simp add: min_def)
    then have "pipe = (?got @ got) @ pipe'" using g(1) by (metis append.assoc append_take_drop_id)
    moreover have "length (?got @ got) \<le> Suc n" "(e = None) = (length (?got @ got) = Suc n)"
      using g(3,4) len unfolding length_append by arith+
    ultimately show ?thesis using g(2,5) by (intro exI [of _ "?got @ got"]) simp
  qed
qed auto

text \<open>Enough answers without an error: the calls write, or read, at least one byte or are interrupted.\<close>

fun writes :: "write_answer list \<Rightarrow> nat \<Rightarrow> bool" where
  "writes ws 0 = True"
| "writes [] (Suc n) = False"
| "writes (Written k # ws) (Suc n) = (if k = 0 then writes ws (Suc n) else writes ws n)"
| "writes (WriteEINTR # ws) (Suc n) = writes ws (Suc n)"
| "writes _ (Suc n) = False"

fun reads :: "read_answer list \<Rightarrow> nat \<Rightarrow> bool" where
  "reads rs 0 = True"
| "reads [] (Suc n) = False"
| "reads (Got k # rs) (Suc n) = (if k = 0 then reads rs (Suc n) else reads rs n)"
| "reads (ReadEINTR # rs) (Suc n) = reads rs (Suc n)"
| "reads _ (Suc n) = False"

lemma writes_less: "writes ws n \<Longrightarrow> m \<le> n \<Longrightarrow> writes ws m"
proof (induction ws n arbitrary: m rule: writes.induct)
  case (3 k ws n)
  then show ?case by (cases m) (auto split: if_splits)
next
  case (4 ws n)
  then show ?case by (cases m) auto
qed auto

lemma reads_less: "reads rs n \<Longrightarrow> m \<le> n \<Longrightarrow> reads rs m"
proof (induction rs n arbitrary: m rule: reads.induct)
  case (3 k rs n)
  then show ?case by (cases m) (auto split: if_splits)
next
  case (4 rs n)
  then show ?case by (cases m) auto
qed auto

lemma write_loop_enough:
  "writes ws (length buf + m) \<Longrightarrow> \<exists>ws'. write_loop ws buf out = Some (None, out @ buf, ws') \<and> writes ws' m"
proof (induction ws buf out rule: write_loop.induct)
  case (3 k ws b bs out)
  show ?case
  proof (cases k)
    case 0
    then show ?thesis using 3 by simp
  next
    case (Suc k')
    then have "writes ws (length (drop k (b # bs)) + m)"
      using 3(2) writes_less [of ws "length bs + m" "length (drop k (b # bs)) + m"] by simp
    then show ?thesis using 3(1) by (metis append.assoc append_take_drop_id write_loop.simps(3))
  qed
qed auto

lemma read_loop_enough:
  "reads rs (n + m) \<Longrightarrow> n \<le> length pipe \<Longrightarrow>
   \<exists>rs'. read_loop rs pipe n inp = Some (None, inp @ take n pipe, drop n pipe, rs') \<and> reads rs' m"
proof (induction rs pipe n inp rule: read_loop.induct)
  case (3 k rs pipe n inp)
  let ?got = "take (min k (Suc n)) pipe"
  show ?case
  proof (cases k)
    case 0
    then show ?thesis using 3 by simp
  next
    case (Suc k')
    then have ne: "?got \<noteq> []" using 3(4) by (cases pipe) auto
    let ?g = "length ?got"
    have g: "?g \<le> Suc n" "1 \<le> ?g" "?g \<le> length pipe" "take ?g pipe = ?got"
      using ne by (auto simp: Suc_le_eq min_def)
    have "reads rs (n + m)" using 3(3) Suc by simp
    then have r1: "reads rs (Suc n - ?g + m)" by (rule reads_less) (use g(1,2) in arith)
    have r2: "Suc n - ?g \<le> length (drop ?g pipe)" using 3(4) unfolding length_drop by (rule diff_le_mono)
    obtain rs' where r: "read_loop rs (drop ?g pipe) (Suc n - ?g) (inp @ ?got) =
        Some (None, (inp @ ?got) @ take (Suc n - ?g) (drop ?g pipe), drop (Suc n - ?g) (drop ?g pipe), rs')" "reads rs' m"
      using 3(2) [OF refl ne r1 r2] by blast
    have "take (Suc n) pipe = ?got @ take (Suc n - ?g) (drop ?g pipe)"
      using take_add [of ?g "Suc n - ?g" pipe] g(1) unfolding g(4) by (simp only: le_add_diff_inverse)
    moreover have "drop (Suc n - ?g) (drop ?g pipe) = drop (Suc n) pipe"
      using g(1) unfolding drop_drop by (simp only: le_add_diff_inverse2)
    moreover have "read_loop (Got k # rs) pipe (Suc n) inp = read_loop rs (drop ?g pipe) (Suc n - ?g) (inp @ ?got)"
      unfolding read_loop.simps Let_def if_not_P [OF ne] ..
    ultimately show ?thesis using r by (simp only: append.assoc) blast
  qed
qed auto

lemma worker_recv_exact:
  assumes "reads rs (n + m)" "n \<le> length pipe"
  obtains rs' where "worker_recv rs pipe n = Some (0, take n pipe, drop n pipe, rs')" "reads rs' m"
  using read_loop_enough [OF assms, of "[]"] by (auto simp: worker_recv_def do_read_def)

lemma worker_send_exact:
  assumes "writes ws (length buf + m)"
  obtains ws' where "worker_send ws buf = Some (0, buf, ws')" "writes ws' m"
  using write_loop_enough [OF assms, of "[]"] by (auto simp: worker_send_def do_write_def)

lemma worker_process_send_exact:
  assumes "writes ws (length buf + m)" "\<not> wp_is_dead wp"
  obtains ws' where "worker_process_send st ws wp buf = Some (wp, 0, buf, ws')" "writes ws' m"
proof -
  obtain ws' where "write_loop ws buf [] = Some (None, buf, ws')" "writes ws' m"
    using write_loop_enough [OF assms(1), of "[]"] by auto
  then show thesis using that assms(2) by (simp add: worker_process_send_def do_write_def)
qed

lemma worker_process_recv_exact:
  assumes "reads rs (n + m)" "n \<le> length pipe" "\<not> wp_is_dead wp"
  obtains rs' where "worker_process_recv st rs wp pipe n = Some (wp, 0, take n pipe, drop n pipe, rs')" "reads rs' m"
proof -
  obtain rs' where "read_loop rs pipe n [] = Some (None, take n pipe, drop n pipe, rs')" "reads rs' m"
    using read_loop_enough [OF assms(1,2), of "[]"] by auto
  then show thesis using that assms(3) by (simp add: worker_process_recv_def do_read_def)
qed

section \<open>Properties\<close>

text \<open>
  C38. A message crosses the pipe unchanged, whatever partial writes and reads the system does.
  When both calls succeed, the reader has the message of the parent and the pipe is as before;
  when the write fails, an initial part of the message is in the pipe, and when the read fails,
  an initial part of it has been read.  (The return value of a call that fails is negative.)
\<close>

theorem message_crosses_pipe:
  assumes "do_write ws msg = Some (nw, out, ws')" and "do_read rs (out @ later) (length msg) = Some (nr, inp, pipe', rs')"
  shows "out = take (length out) msg \<and> (nw = int (length msg) \<or> nw = -1 \<or> nw = -2) \<and>
    (0 \<le> nw \<longrightarrow> out = msg) \<and> (0 \<le> nw \<longrightarrow> inp = take (length inp) msg) \<and>
    (0 \<le> nw \<longrightarrow> 0 \<le> nr \<longrightarrow> inp = msg \<and> pipe' = later)"
proof -
  obtain e where w: "write_loop ws msg [] = Some (e, out, ws')" "nw = (case e of None \<Rightarrow> int (length msg) | Some c \<Rightarrow> c)"
    using assms(1) by (auto simp: do_write_def split: option.splits)
  obtain f where r: "read_loop rs (out @ later) (length msg) [] = Some (f, inp, pipe', rs')"
      "nr = (case f of None \<Rightarrow> int (length msg) | Some c \<Rightarrow> c)"
    using assms(2) by (auto simp: do_read_def split: option.splits)
  obtain rest where out: "msg = out @ rest" "e = None \<longrightarrow> rest = []" "e = None \<or> e = Some (-1) \<or> e = Some (-2)"
    using write_loop_bytes [OF w(1)] by auto
  have inp: "out @ later = inp @ pipe'" "length inp \<le> length msg" "(f = None) = (length inp = length msg)"
     "f = None \<or> f = Some (-1) \<or> f = Some (-2) \<or> f = Some (-3)"
    using read_loop_bytes [OF r(1)] by auto
  have all: "e = None" if "0 \<le> nw" using that out(3) w(2) by auto
  have pre: "inp = take (length inp) msg" if nw: "0 \<le> nw"
  proof -
    have "out = msg" using out all [OF nw] by simp
    then have "take (length inp) (msg @ later) = inp" using inp(1) by (metis append_eq_conv_conj)
    then show ?thesis using inp(2) by simp
  qed
  have full: "inp = msg \<and> pipe' = later" if nw: "0 \<le> nw" and nr: "0 \<le> nr"
  proof -
    have "f = None" using nr inp(4) r(2) by auto
    then have "length inp = length msg" "out = msg" using inp(3) out all [OF nw] by auto
    then show ?thesis using inp(1) by (metis append_eq_append_conv)
  qed
  have "out = take (length out) msg" using out(1) by simp
  moreover have "nw = int (length msg) \<or> nw = -1 \<or> nw = -2" using out(3) w(2) by auto
  moreover have "0 \<le> nw \<longrightarrow> out = msg" using all out by auto
  ultimately show ?thesis using pre full by blast
qed

theorem message_crosses_pipe_witness:
  "do_write [Written 2, WriteEINTR, Written 1] [7, 8, 9] = Some (3, [7, 8, 9], []) \<and>
   do_read [Got 1, ReadEINTR, Got 5] ([7, 8, 9] @ [1]) 3 = Some (3, [7, 8, 9], [1], []) \<and> [7, 8, 9] = ([7, 8, 9] :: byte list)"
proof -
  have w: "do_write [Written 2, WriteEINTR, Written 1] [7, 8, 9] = Some (3, [7, 8, 9], [])"
    and r: "do_read [Got 1, ReadEINTR, Got 5] ([7, 8, 9] @ [1]) (length [7, 8, 9 :: byte]) = Some (3, [7, 8, 9], [1], [])"
    by code_simp+
  from message_crosses_pipe [OF w r] w r show ?thesis by (simp add: numeral_3_eq_3)
qed

text \<open>
  C39. The loops end: a call of write() or read() that makes progress or is interrupted is followed
  by another one until the message is complete.  If the system accepts (delivers) at least one
  byte for each byte of the message, with any interruptions in between, then worker_process_send()
  and worker_recv() return 0, and the reader has the message.
\<close>

theorem message_delivered:
  assumes "writes ws (length msg)" and "reads rs (length msg)" and "\<not> wp_is_dead wp"
  shows "\<exists>ws' rs'. worker_process_send st ws wp msg = Some (wp, 0, msg, ws') \<and>
    worker_recv rs (msg @ later) (length msg) = Some (0, msg, later, rs')"
proof -
  obtain ws' where "worker_process_send st ws wp msg = Some (wp, 0, msg, ws')"
    using worker_process_send_exact [of ws msg 0 wp st] assms(1,3) by auto
  moreover obtain rs' where "worker_recv rs (msg @ later) (length msg) = Some (0, msg, later, rs')"
    using worker_recv_exact [of rs "length msg" 0 "msg @ later"] assms(2) by auto
  ultimately show ?thesis by blast
qed

definition sample_worker :: worker_process where
  "sample_worker = \<lparr>wp_pid = 100, wp_input_fd = 4, wp_output_fd = 5, wp_is_dead = False, wp_exit_status = 0\<rparr>"

theorem message_delivered_witness:
  "\<exists>ws' rs'. worker_process_send 0 [Written 2, WriteEINTR, Written 1] sample_worker [7, 8] = Some (sample_worker, 0, [7, 8], ws') \<and>
     worker_recv [Got 1, ReadEINTR, Got 5] ([7, 8] @ []) 2 = Some (0, [7, 8], [], rs')"
  using message_delivered [of "[Written 2, WriteEINTR, Written 1]" "[7, 8]" "[Got 1, ReadEINTR, Got 5]" sample_worker 0 "[]"]
  by (simp add: sample_worker_def numeral_2_eq_2)

text \<open>
  A worker is flagged as dead exactly when a call finds its pipe broken or at its end (or when
  waitpid() says that it has exited); the flag is never reset, the exit status is recorded with
  it, and once it is set nothing is sent, nothing is received and the process is not alive.
\<close>

theorem worker_death_is_final:
  assumes "worker_process_send st ws wp msg = Some (wp1, rc1, out, ws')"
    and "worker_process_recv st rs wp pipe n = Some (wp2, rc2, inp, pipe', rs')"
    and "worker_process_is_alive exited wp = (wp3, alive)"
  shows "(wp_is_dead wp \<longrightarrow> wp1 = wp \<and> rc1 = -1 \<and> out = [] \<and> wp2 = wp \<and> rc2 = -1 \<and> pipe' = pipe \<and> wp3 = wp \<and> alive = 0) \<and>
    (\<not> wp_is_dead wp \<longrightarrow> wp_is_dead wp1 \<longrightarrow> rc1 = -1 \<and> wp_exit_status wp1 = st) \<and>
    (\<not> wp_is_dead wp \<longrightarrow> wp_is_dead wp2 \<longrightarrow> rc2 = -1 \<and> wp_exit_status wp2 = st) \<and>
    (alive = 0 \<longleftrightarrow> wp_is_dead wp3) \<and> (alive = 0 \<longleftrightarrow> wp_is_dead wp \<or> exited \<noteq> None)"
  using assms
  by (auto simp: worker_process_send_def worker_process_recv_def worker_process_is_alive_def Let_def split: if_splits option.splits)

theorem worker_death_is_final_witness:
  "worker_process_send 9 [WriteEPIPE] sample_worker [1] = Some (sample_worker\<lparr>wp_is_dead := True, wp_exit_status := 9\<rparr>, -1, [], []) \<and>
   worker_process_is_alive None sample_worker = (sample_worker, 1)"
proof -
  have s: "worker_process_send 9 [WriteEPIPE] sample_worker [1] = Some (sample_worker\<lparr>wp_is_dead := True, wp_exit_status := 9\<rparr>, -1, [], [])"
    and r: "worker_process_recv 9 [ReadEOF] sample_worker [] 1 = Some (sample_worker\<lparr>wp_is_dead := True, wp_exit_status := 9\<rparr>, -1, [], [], [])"
    and a: "worker_process_is_alive None sample_worker = (sample_worker, 1)"
    by code_simp+
  from worker_death_is_final [OF s r a] s a show ?thesis by simp
qed

text \<open>The descriptors that a list of calls leaves open in the parent.\<close>

fun open_fds :: "os_call list \<Rightarrow> nat list" where
  "open_fds [] = []"
| "open_fds (Opened fd # cs) = (if Closed fd \<in> set cs then open_fds cs else fd # open_fds cs)"
| "open_fds (_ # cs) = open_fds cs"

text \<open>
  The descriptors of a worker: when both pipes and the fork succeed, the parent keeps exactly the
  write end of one pipe and the read end of the other if the worker starts, and none if its
  initialisation fails; worker_process_free() closes both.
\<close>

theorem worker_descriptors:
  assumes "worker_process_new (Some (in_r, in_w)) (Some (out_r, out_w)) pid init exits final = (wp, calls)"
    and "pid \<noteq> -1" and "distinct [in_r, in_w, out_r, out_w]"
    and "\<forall>w. wp_input_fd (fst (init w)) = wp_input_fd w \<and> wp_output_fd (fst (init w)) = wp_output_fd w"
  shows "open_fds calls = (case wp of None \<Rightarrow> [] | Some w \<Rightarrow> [wp_input_fd w, wp_output_fd w]) \<and>
    (\<forall>w. wp = Some w \<longrightarrow> wp_input_fd w = in_w \<and> wp_output_fd w = out_r \<and>
       open_fds (calls @ snd (worker_process_free exits' final' w)) = [])"
proof -
  let ?w = "\<lparr>wp_pid = pid, wp_input_fd = in_w, wp_output_fd = out_r, wp_is_dead = False, wp_exit_status = 0\<rparr>"
  obtain w rc where i: "init ?w = (w, rc)" by (cases "init ?w")
  have fd: "wp_input_fd w = in_w" "wp_output_fd w = out_r" using assms(4) [rule_format, of ?w] i by simp_all
  have free: "set (snd (worker_process_free ex fi w)) \<inter> range Closed = {Closed in_w, Closed out_r}" 
      "open_fds (snd (worker_process_free ex fi w)) = []" for ex fi
    using fd by (auto simp: worker_process_free_def Let_def split: list.splits option.splits)
  have closed: "Closed fd \<in> set (snd (worker_process_free ex fi w)) \<longleftrightarrow> fd = in_w \<or> fd = out_r" for fd ex fi
    using free(1) [of ex fi] by blast
  show ?thesis
    using assms(1-3) i fd by (auto simp: worker_process_new_def Let_def closed free(2) split: if_splits)
qed

theorem worker_descriptors_witness:
  "open_fds (snd (worker_process_new (Some (3, 4)) (Some (5, 6)) 100 (\<lambda>w. (w, 0)) [] 0)) = [4, 5]"
  using worker_descriptors [OF prod.collapse [symmetric], of 100 3 4 5 6 "\<lambda>w. (w, 0)"]
  by (auto simp: worker_process_new_def)

text \<open>
  A start that fails early leaks descriptors: when the second pipe() fails the two ends of the
  first pipe stay open, and when fork() fails the ends of both pipes do.
\<close>

theorem failed_start_leaks:
  "worker_process_new (Some (3, 4)) None 100 init exits final = (None, [Opened 3, Opened 4]) \<and>
   open_fds [Opened 3, Opened 4] = [3, 4] \<and>
   open_fds (snd (worker_process_new (Some (3, 4)) (Some (5, 6)) (-1) init exits final)) = [3, 4, 5, 6]"
  by (simp add: worker_process_new_def)

end
