(* ===== verification/ChunkBuffer.thy ===== *)
theory ChunkBuffer
  imports SharedData "HOL-Library.Sublist"
begin

text \<open>
  The producer side of a stream, src/src/hdf5/msgpack_chunkbuffer.c: bytes are collected in the
  current buffer of the shared ring, and a buffer that is at least half full is handed to the
  consumer.  The functions are cut at their waits for a semaphore: each piece between two waits
  is a definition, and the program counter of the producer (datatype producer) says which wait or
  call comes next.  A wait that would block is None.
\<close>

section \<open>Data\<close>

record shared =
  sh_mem :: "nat \<Rightarrow> byte"
  sh_srd :: shared_reader_data

record msgpack_chunkbuffer =
  cb_buffer_nr :: int
  cb_buffer_size :: nat

abbreviation buffer :: "shared \<Rightarrow> nat \<Rightarrow> buffer_data" where
  "buffer sh i \<equiv> srd_buffer (sh_srd sh) ! i"

definition upd_buffer :: "nat \<Rightarrow> (buffer_data \<Rightarrow> buffer_data) \<Rightarrow> shared \<Rightarrow> shared" where
  "upd_buffer i f sh = sh\<lparr>sh_srd := (sh_srd sh)\<lparr>srd_buffer := (srd_buffer (sh_srd sh))[i := f (buffer sh i)]\<rparr>\<rparr>"

definition mem_read :: "(nat \<Rightarrow> byte) \<Rightarrow> nat \<Rightarrow> nat \<Rightarrow> byte list" where
  "mem_read m a n = map m [a..<a + n]"

definition mem_write :: "(nat \<Rightarrow> byte) \<Rightarrow> nat \<Rightarrow> byte list \<Rightarrow> (nat \<Rightarrow> byte)" where
  "mem_write m a bs = (\<lambda>x. if a \<le> x \<and> x < a + length bs then bs ! (x - a) else m x)"

section \<open>Operations\<close>

definition sub_size_t :: "nat \<Rightarrow> nat \<Rightarrow> nat" where
  "sub_size_t a b = (a + 2 ^ 64 - b) mod 2 ^ 64"

definition msgpack_chunkbuffer_init :: "nat \<Rightarrow> shared_reader_data \<Rightarrow> msgpack_chunkbuffer option" where
  "msgpack_chunkbuffer_init buffer_size srd = do {
     c_assert (buffer_size > 0);
     c_assert (buffer_size \<le> srd_buffer_size srd);
     Some \<lparr>cb_buffer_nr = -1, cb_buffer_size = buffer_size\<rparr> }"

text \<open>semaphore_wait() on the ready_for_write semaphore of the current buffer.\<close>

definition wait_writable :: "shared \<Rightarrow> msgpack_chunkbuffer \<Rightarrow> shared option" where
  "wait_writable sh cb = do {
     v \<leftarrow> sem_trywait (bd_ready_for_write (buffer sh (nat (cb_buffer_nr cb))));
     Some (upd_buffer (nat (cb_buffer_nr cb)) (bd_ready_for_write_update (\<lambda>_. v)) sh) }"

text \<open>
  msgpack_chunkbuffer_flush() up to its wait: the result is Some return value when the function
  returns before the wait, and None when it goes on to wait for the next buffer.
\<close>

definition msgpack_chunkbuffer_flush :: "shared \<Rightarrow> msgpack_chunkbuffer \<Rightarrow> shared \<times> msgpack_chunkbuffer \<times> int option" where
  "msgpack_chunkbuffer_flush sh cb =
     (if srd_status (sh_srd sh) \<noteq> BUFFER_STATUS_OK then (sh, cb, Some (-1))
      else if cb_buffer_nr cb < 0 then (sh, cb, Some 0)
      else if bd_used (buffer sh (nat (cb_buffer_nr cb))) = 0 then (sh, cb, Some 0)
      else
        (let sh = upd_buffer (nat (cb_buffer_nr cb)) (bd_ready_for_read_update sem_post) sh;
             cb = cb\<lparr>cb_buffer_nr := (cb_buffer_nr cb + 1) mod int NR_BUFFERS\<rparr>
         in (sh, cb, None)))"

text \<open>The end of msgpack_chunkbuffer_destroy(): the zero sized block with the return code.\<close>

definition send_end :: "int \<Rightarrow> shared \<Rightarrow> msgpack_chunkbuffer \<Rightarrow> shared \<times> msgpack_chunkbuffer" where
  "send_end return_code sh cb =
     (let i = nat (cb_buffer_nr cb);
          sh = upd_buffer i (bd_used_update (\<lambda>_. 0)) sh;
          sh = upd_buffer i (bd_status_update (\<lambda>_. return_code)) sh;
          sh = upd_buffer i (bd_ready_for_read_update sem_post) sh
      in (sh, cb\<lparr>cb_buffer_size := 0\<rparr>))"

text \<open>One iteration of the loop of msgpack_chunkbuffer_write(): the bytes left, and whether to flush.\<close>

definition write_some :: "shared \<Rightarrow> msgpack_chunkbuffer \<Rightarrow> byte list \<Rightarrow> shared \<times> byte list \<times> bool" where
  "write_some sh cb bs =
     (let i = nat (cb_buffer_nr cb);
          b = buffer sh i;
          bytes_free = sub_size_t (cb_buffer_size cb) (bd_used b);
          nr_to_copy = (if length bs > bytes_free then bytes_free else length bs);
          sh = sh\<lparr>sh_mem := mem_write (sh_mem sh) (bd_offset b + bd_used b) (take nr_to_copy bs)\<rparr>;
          sh = upd_buffer i (bd_used_update (\<lambda>u. u + nr_to_copy)) sh
      in (sh, drop nr_to_copy bs, bd_used (buffer sh i) \<ge> cb_buffer_size cb div 2))"

section \<open>The producer\<close>

text \<open>
  The producer makes the write calls of the packer, in order, and ends the stream with the code
  c_end; a write call that fails ends it with c_err at once.
\<close>

datatype producer =
    WNext "byte list list"
  | WClaim "byte list" "byte list list"
  | WLoop "byte list" "byte list list"
  | WWait "byte list" "byte list list"
  | WEnd int
  | WEndClaim int
  | WEndWait int
  | WDone

fun produce :: "int \<Rightarrow> int \<Rightarrow> shared \<times> msgpack_chunkbuffer \<times> producer \<Rightarrow> (shared \<times> msgpack_chunkbuffer \<times> producer) option" where
  "produce c_end c_err (sh, cb, WNext []) = Some (sh, cb, WEnd c_end)"
| "produce c_end c_err (sh, cb, WNext (b # calls)) =
     (if cb_buffer_nr cb < 0 then Some (sh, cb\<lparr>cb_buffer_nr := 0\<rparr>, WClaim b calls)
      else Some (sh, cb, WLoop b calls))"
| "produce c_end c_err (sh, cb, WClaim b calls) = do {
     sh \<leftarrow> wait_writable sh cb;
     Some (upd_buffer (nat (cb_buffer_nr cb)) (bd_used_update (\<lambda>_. 0)) sh, cb, WLoop b calls) }"
| "produce c_end c_err (sh, cb, WLoop b calls) =
     (if b = [] then Some (sh, cb, WNext calls)
      else (case write_some sh cb b of (sh, b, half_full) \<Rightarrow>
        (if half_full then
           (case msgpack_chunkbuffer_flush sh cb of
              (sh, cb, None) \<Rightarrow> Some (sh, cb, WWait b calls)
            | (sh, cb, Some err) \<Rightarrow> Some (sh, cb, if err < 0 then WEnd c_err else WLoop b calls))
         else Some (sh, cb, WLoop b calls))))"
| "produce c_end c_err (sh, cb, WWait b calls) = do {
     sh \<leftarrow> wait_writable sh cb;
     Some (sh, cb, WLoop b calls) }"
| "produce c_end c_err (sh, cb, WEnd code) =
     (case msgpack_chunkbuffer_flush sh cb of
        (sh, cb, None) \<Rightarrow> Some (sh, cb, WEndWait code)
      | (sh, cb, Some err) \<Rightarrow>
          (if cb_buffer_nr cb < 0 then Some (sh, cb\<lparr>cb_buffer_nr := 0\<rparr>, WEndClaim code)
           else (case send_end code sh cb of (sh, cb) \<Rightarrow> Some (sh, cb, WDone))))"
| "produce c_end c_err (sh, cb, WEndClaim code) = do {
     sh \<leftarrow> wait_writable sh cb;
     let sh = upd_buffer (nat (cb_buffer_nr cb)) (bd_used_update (\<lambda>_. 0)) sh;
     (case send_end code sh cb of (sh, cb) \<Rightarrow> Some (sh, cb, WDone)) }"
| "produce c_end c_err (sh, cb, WEndWait code) = do {
     sh \<leftarrow> wait_writable sh cb;
     (case send_end code sh cb of (sh, cb) \<Rightarrow> Some (sh, cb, WDone)) }"
| "produce c_end c_err (sh, cb, WDone) = None"

section \<open>Memory\<close>

lemma mem_read_length [simp]: "length (mem_read m a n) = n"
  by (simp add: mem_read_def)

lemma mem_read_write_same: "mem_read (mem_write m a bs) a (length bs) = bs"
  by (auto simp: mem_read_def mem_write_def intro!: nth_equalityI)

lemma mem_read_append: "mem_read m a (n + k) = mem_read m a n @ mem_read m (a + n) k"
proof -
  have "[a..<(a + n) + k] = [a..<a + n] @ [a + n..<(a + n) + k]" by (rule upt_add_eq_append) simp
  then show ?thesis by (simp only: mem_read_def add.assoc map_append)
qed

lemma mem_read_write_other:
  "{a..<a + n} \<inter> {b..<b + length bs} = {} \<Longrightarrow> mem_read (mem_write m b bs) a n = mem_read m a n"
  unfolding mem_read_def mem_write_def by (rule map_cong) auto

lemma sub_size_t_le:
  assumes "b \<le> a" "a < 2 ^ 64"
  shows "sub_size_t a b = a - b"
proof -
  have "a + 2 ^ 64 - b = (a - b) + 2 ^ 64" using assms(1) by (rule Nat.diff_add_assoc2)
  moreover have "a - b < 2 ^ 64" using assms(2) by (rule less_imp_diff_less)
  ultimately show ?thesis by (simp only: sub_size_t_def mod_add_self2 mod_less)
qed

end
