(* ===== verification/DataStream.thy ===== *)
theory DataStream
  imports ChunkBuffer
begin

text \<open>
  The consumer side of a stream, hdfstream_read_chunk() and hdfstream_close_stream() of
  src/src/lib/hdfstream.c, and the system made of one producer and one consumer that share the
  ring of buffers.  ring relates the shared memory to the contents of a queue; RingProof proves
  that every reachable state satisfies it.
\<close>

section \<open>Consumer\<close>

record data_stream =
  ds_next_buffer :: nat
  ds_ended :: bool

text \<open>
  One call of hdfstream_read_chunk(): the bytes copied and the value stored in *status (None when
  the call does not store one).  The whole result is None while the call waits.  The argument dead
  says that the reader process has died: the wait for a semaphore polls the process and fails
  when the semaphore is not available and the process is dead.
\<close>

definition worker_process_wait_for_semaphore :: "bool \<Rightarrow> nat \<Rightarrow> nat option option" where
  "worker_process_wait_for_semaphore dead v =
     (case sem_trywait v of
        Some v \<Rightarrow> Some (Some v)
      | None \<Rightarrow> if dead then Some None else None)"

definition hdfstream_read_chunk ::
  "bool \<Rightarrow> shared \<Rightarrow> data_stream \<Rightarrow> (shared \<times> data_stream \<times> byte list \<times> int option) option" where
  "hdfstream_read_chunk dead sh stream =
     (if ds_ended stream then Some (sh, stream, [], None)
      else do {
        let i = ds_next_buffer stream;
        r \<leftarrow> worker_process_wait_for_semaphore dead (bd_ready_for_read (buffer sh i));
        (case r of
           None \<Rightarrow> Some (sh, stream\<lparr>ds_ended := True\<rparr>, [], Some BUFFER_STATUS_ERROR)
         | Some v \<Rightarrow> do {
             let sh = upd_buffer i (bd_ready_for_read_update (\<lambda>_. v)) sh;
             let block_len = bd_used (buffer sh i);
             (if block_len = 0 then
                Some (sh, stream\<lparr>ds_ended := True\<rparr>, [], Some (bd_status (buffer sh i)))
              else do {
                let data = mem_read (sh_mem sh) (bd_offset (buffer sh i)) block_len;
                let sh = upd_buffer i (bd_used_update (\<lambda>_. 0)) sh;
                let sh = upd_buffer i (bd_ready_for_write_update sem_post) sh;
                Some (sh, stream\<lparr>ds_next_buffer := (ds_next_buffer stream + 1) mod NR_BUFFERS\<rparr>, data, Some 0) }) }) })"

lemma wait_live [simp]: "worker_process_wait_for_semaphore False v = map_option Some (sem_trywait v)"
  by (simp add: worker_process_wait_for_semaphore_def split: option.split)

lemma read_chunk_live:
  "hdfstream_read_chunk False sh stream =
     (if ds_ended stream then Some (sh, stream, [], None)
      else do {
        let i = ds_next_buffer stream;
        v \<leftarrow> sem_trywait (bd_ready_for_read (buffer sh i));
        let sh = upd_buffer i (bd_ready_for_read_update (\<lambda>_. v)) sh;
        let block_len = bd_used (buffer sh i);
        (if block_len = 0 then
           Some (sh, stream\<lparr>ds_ended := True\<rparr>, [], Some (bd_status (buffer sh i)))
         else do {
           let data = mem_read (sh_mem sh) (bd_offset (buffer sh i)) block_len;
           let sh = upd_buffer i (bd_used_update (\<lambda>_. 0)) sh;
           let sh = upd_buffer i (bd_ready_for_write_update sem_post) sh;
           Some (sh, stream\<lparr>ds_next_buffer := (ds_next_buffer stream + 1) mod NR_BUFFERS\<rparr>, data, Some 0) }) })"
  by (cases "sem_trywait (bd_ready_for_read (buffer sh (ds_next_buffer stream)))") (simp_all add: hdfstream_read_chunk_def Let_def)

text \<open>When the reader process has died, a call that would wait ends the stream with an error instead.\<close>

lemma read_chunk_dead:
  "hdfstream_read_chunk True sh stream =
     (case hdfstream_read_chunk False sh stream of
        None \<Rightarrow> Some (sh, stream\<lparr>ds_ended := True\<rparr>, [], Some BUFFER_STATUS_ERROR)
      | Some r \<Rightarrow> Some r)"
  by (cases "sem_trywait (bd_ready_for_read (buffer sh (ds_next_buffer stream)))")
    (simp_all add: hdfstream_read_chunk_def worker_process_wait_for_semaphore_def Let_def)

text \<open>The early end of a stream: hdfstream_close_stream() sets the flag, then reads on to the end.\<close>

definition cancel :: "shared \<Rightarrow> shared" where
  "cancel sh = sh\<lparr>sh_srd := (sh_srd sh)\<lparr>srd_status := BUFFER_STATUS_CANCEL\<rparr>\<rparr>"

section \<open>System\<close>

record system =
  sys_sh :: shared
  sys_cb :: msgpack_chunkbuffer
  sys_pc :: producer
  sys_stream :: data_stream
  sys_out :: "byte list list"
  sys_result :: "int option"

text \<open>A step of one of the two processes, and a step of the system, where the client may cancel.\<close>

inductive run_step :: "int \<Rightarrow> int \<Rightarrow> system \<Rightarrow> system \<Rightarrow> bool" for c_end c_err where
  producer: "produce c_end c_err (sys_sh s, sys_cb s, sys_pc s) = Some (sh, cb, pc) \<Longrightarrow>
    run_step c_end c_err s (s\<lparr>sys_sh := sh, sys_cb := cb, sys_pc := pc\<rparr>)"
| consumer: "\<not> ds_ended (sys_stream s) \<Longrightarrow>
    hdfstream_read_chunk False (sys_sh s) (sys_stream s) = Some (sh, st, data, status) \<Longrightarrow>
    run_step c_end c_err s (s\<lparr>sys_sh := sh, sys_stream := st,
      sys_out := sys_out s @ (if data = [] then [] else [data]),
      sys_result := (if ds_ended st then status else None)\<rparr>)"

inductive sys_step :: "int \<Rightarrow> int \<Rightarrow> system \<Rightarrow> system \<Rightarrow> bool" for c_end c_err where
  run: "run_step c_end c_err s s' \<Longrightarrow> sys_step c_end c_err s s'"
| cancel: "\<not> ds_ended (sys_stream s) \<Longrightarrow>
    sys_step c_end c_err s (s\<lparr>sys_sh := cancel (sys_sh s)\<rparr>)"

inductive_cases run_stepE: "run_step c_end c_err s s'"
inductive_cases sys_stepE: "sys_step c_end c_err s s'"

text \<open>A request: the parent resets the ring and the status, the reader creates the chunk buffer.\<close>

definition sys_init :: "shared \<Rightarrow> msgpack_chunkbuffer \<Rightarrow> byte list list \<Rightarrow> system" where
  "sys_init sh cb calls =
     \<lparr>sys_sh = sh\<lparr>sh_srd := shared_data_init_semaphores (sh_srd sh)\<lparr>srd_status := 0\<rparr>\<rparr>, sys_cb = cb, sys_pc = WNext calls,
      sys_stream = \<lparr>ds_next_buffer = 0, ds_ended = False\<rparr>, sys_out = [], sys_result = None\<rparr>"

section \<open>The ring\<close>

datatype role = Free | Full "byte list" | Held "byte list" | Sentinel int | Spent

definition slot :: "nat \<Rightarrow> nat \<Rightarrow> nat" where
  "slot R j = (R + j) mod NR_BUFFERS"

fun role_ok :: "nat \<Rightarrow> shared \<Rightarrow> nat \<Rightarrow> role \<Rightarrow> bool" where
  "role_ok S sh i Free \<longleftrightarrow> bd_ready_for_write (buffer sh i) = 1 \<and> bd_ready_for_read (buffer sh i) = 0 \<and> bd_used (buffer sh i) = 0"
| "role_ok S sh i (Full q) \<longleftrightarrow> bd_ready_for_write (buffer sh i) = 0 \<and> bd_ready_for_read (buffer sh i) = 1 \<and>
     bd_used (buffer sh i) = length q \<and> q \<noteq> [] \<and> length q \<le> S \<and> mem_read (sh_mem sh) (bd_offset (buffer sh i)) (length q) = q"
| "role_ok S sh i (Held q) \<longleftrightarrow> bd_ready_for_write (buffer sh i) = 0 \<and> bd_ready_for_read (buffer sh i) = 0 \<and>
     bd_used (buffer sh i) = length q \<and> length q \<le> S \<and> mem_read (sh_mem sh) (bd_offset (buffer sh i)) (length q) = q"
| "role_ok S sh i (Sentinel c) \<longleftrightarrow> bd_ready_for_write (buffer sh i) = 0 \<and> bd_ready_for_read (buffer sh i) = 1 \<and>
     bd_used (buffer sh i) = 0 \<and> bd_status (buffer sh i) = c"
| "role_ok S sh i Spent \<longleftrightarrow> bd_ready_for_write (buffer sh i) = 0 \<and> bd_ready_for_read (buffer sh i) = 0"

definition ring :: "nat \<Rightarrow> nat \<Rightarrow> shared \<Rightarrow> nat \<Rightarrow> role list \<Rightarrow> bool" where
  "ring base S sh R rs \<longleftrightarrow> layout base (sh_srd sh) \<and> S \<le> srd_buffer_size (sh_srd sh) \<and> length rs = NR_BUFFERS \<and>
     (\<forall>j < NR_BUFFERS. role_ok S sh (slot R j) (rs ! j))"

text \<open>A queue of full buffers, the buffer after it in role t, all others free.\<close>

definition ring_of :: "byte list list \<Rightarrow> role \<Rightarrow> role list" where
  "ring_of qs t = take NR_BUFFERS (map Full qs @ t # replicate NR_BUFFERS Free)"

lemma slot_less [simp]: "slot R j < NR_BUFFERS"
  by (simp add: slot_def)

lemma slot_inj:
  assumes "j < NR_BUFFERS" "k < NR_BUFFERS" "slot R j = slot R k"
  shows "j = k"
proof -
  have "x = y" if "x \<le> y" "y < NR_BUFFERS" "slot R x = slot R y" for x y
  proof -
    have "NR_BUFFERS dvd (R + y) - (R + x)" using that mod_eq_dvd_iff_nat[of "R + x" "R + y" NR_BUFFERS] by (simp add: slot_def)
    then have "NR_BUFFERS dvd y - x" by simp
    moreover have "y - x < NR_BUFFERS" using that(2) by simp
    ultimately have "y - x = 0" by (metis dvd_imp_le not_gr_zero not_less)
    with that(1) show ?thesis by simp
  qed
  from this[of j k] this[of k j] assms show ?thesis by (cases "j \<le> k") auto
qed

lemma slot_Suc: "slot (Suc R) j = slot R (Suc j)"
  by (simp add: slot_def)

lemma slot_wrap: "slot R NR_BUFFERS = slot R 0"
  by (simp add: slot_def)

lemma length_ring_of [simp]: "length (ring_of qs t) = NR_BUFFERS"
  by (simp add: ring_of_def)

lemma nth_ring_of:
  "i < NR_BUFFERS \<Longrightarrow> ring_of qs t ! i = (if i < length qs then Full (qs ! i) else if i = length qs then t else Free)"
  by (auto simp: ring_of_def nth_append nth_Cons')

lemma ring_of_update: "length qs < NR_BUFFERS \<Longrightarrow> (ring_of qs t)[length qs := t'] = ring_of qs t'"
  by (auto simp: list_eq_iff_nth_eq nth_ring_of nth_list_update)

lemma ring_of_push: "ring_of qs (Full q) = ring_of (qs @ [q]) Free"
  by (auto simp: list_eq_iff_nth_eq nth_ring_of nth_append)

lemma ring_of_pop:
  assumes "length (q # qs) < NR_BUFFERS \<or> length (q # qs) = NR_BUFFERS \<and> t = Free"
  shows "tl (ring_of (q # qs) t) @ [Free] = ring_of qs t"
  using assms by (auto simp: list_eq_iff_nth_eq nth_ring_of nth_append nth_tl)

section \<open>Ring updates\<close>

lemma layout_upd_buffer:
  assumes "layout base (sh_srd sh)" "\<And>b. bd_offset (f b) = bd_offset b"
  shows "layout base (sh_srd (upd_buffer i f sh))"
proof -
  have "bd_offset ((srd_buffer (sh_srd sh))[i := f (buffer sh i)] ! j) = bd_offset (buffer sh j)"
    if "j < length (srd_buffer (sh_srd sh))" for j
    using that assms(2) by (cases "i = j") simp_all
  with assms(1) show ?thesis by (simp add: layout_def upd_buffer_def)
qed

lemma buffer_upd_same: "i < length (srd_buffer (sh_srd sh)) \<Longrightarrow> buffer (upd_buffer i f sh) i = f (buffer sh i)"
  by (simp add: upd_buffer_def)

lemma buffer_upd_other: "i \<noteq> k \<Longrightarrow> buffer (upd_buffer i f sh) k = buffer sh k"
  by (simp add: upd_buffer_def)

lemma upd_buffer_simps [simp]:
  "sh_mem (upd_buffer i f sh) = sh_mem sh"
  "srd_status (sh_srd (upd_buffer i f sh)) = srd_status (sh_srd sh)"
  "srd_buffer_size (sh_srd (upd_buffer i f sh)) = srd_buffer_size (sh_srd sh)"
  "length (srd_buffer (sh_srd (upd_buffer i f sh))) = length (srd_buffer (sh_srd sh))"
  by (simp_all add: upd_buffer_def)

lemma upd_buffer_twice: "upd_buffer i g (upd_buffer i f sh) = upd_buffer i (g \<circ> f) sh"
proof (cases "i < length (srd_buffer (sh_srd sh))")
  case True
  then show ?thesis by (simp add: upd_buffer_def)
next
  case False
  then show ?thesis by (simp add: upd_buffer_def list_update_beyond)
qed

lemma role_ok_cong:
  "buffer sh' i = buffer sh i \<Longrightarrow> (\<And>n. n \<le> S \<Longrightarrow> mem_read (sh_mem sh') (bd_offset (buffer sh i)) n = mem_read (sh_mem sh) (bd_offset (buffer sh i)) n) \<Longrightarrow>
   role_ok S sh' i r = role_ok S sh i r"
  by (cases r) auto

lemma ring_length: "ring base S sh R rs \<Longrightarrow> length (srd_buffer (sh_srd sh)) = NR_BUFFERS"
  by (simp add: ring_def layout_def)

text \<open>Change the header of one buffer, and with it its role.\<close>

lemma ring_upd:
  assumes r: "ring base S sh R rs" and j: "j < NR_BUFFERS" and off: "\<And>b. bd_offset (f b) = bd_offset b"
    and new: "role_ok S (upd_buffer (slot R j) f sh) (slot R j) t"
  shows "ring base S (upd_buffer (slot R j) f sh) R (rs[j := t])"
proof -
  have "role_ok S (upd_buffer (slot R j) f sh) (slot R k) (rs[j := t] ! k)" if k: "k < NR_BUFFERS" for k
  proof (cases "k = j")
    case True
    with new j r show ?thesis by (simp add: ring_def)
  next
    case False
    then have "slot R j \<noteq> slot R k" using slot_inj[OF j k] by auto
    with False k r show ?thesis
      by (subst role_ok_cong[of _ _ sh]) (simp_all add: buffer_upd_other ring_def)
  qed
  with r layout_upd_buffer[OF _ off] show ?thesis by (simp add: ring_def)
qed

text \<open>Write into the memory of one buffer.\<close>

lemma ring_write:
  assumes r: "ring base S sh R rs" and j: "j < NR_BUFFERS" and n: "u + length bs \<le> S"
    and sh': "sh' = sh\<lparr>sh_mem := mem_write (sh_mem sh) (bd_offset (buffer sh (slot R j)) + u) bs\<rparr>"
    and new: "role_ok S sh' (slot R j) t"
  shows "ring base S sh' R (rs[j := t])"
proof -
  from r have l: "layout base (sh_srd sh)" and S: "S \<le> srd_buffer_size (sh_srd sh)" by (auto simp: ring_def)
  have "role_ok S sh' (slot R k) (rs[j := t] ! k)" if k: "k < NR_BUFFERS" for k
  proof (cases "k = j")
    case True
    with new j r show ?thesis by (simp add: ring_def)
  next
    case False
    then have jk: "slot R k \<noteq> slot R j" using slot_inj[OF k j] by auto
    have "mem_read (sh_mem sh') (bd_offset (buffer sh (slot R k))) m = mem_read (sh_mem sh) (bd_offset (buffer sh (slot R k))) m"
      if "m \<le> S" for m
    proof -
      let ?o = "bd_offset (buffer sh (slot R j))" and ?ok = "bd_offset (buffer sh (slot R k))"
      have "{?ok..<?ok + m} \<inter> {?o..<?o + (u + length bs)} = {}"
        using that n S by (intro layout_disjoint[OF l _ _ jk]) simp_all
      then have "{?ok..<?ok + m} \<inter> {?o + u..<?o + u + length bs} = {}" by auto
      then show ?thesis by (simp add: sh' mem_read_write_other)
    qed
    with False k r show ?thesis
      by (subst role_ok_cong[of _ _ sh]) (simp_all add: sh' ring_def)
  qed
  with r show ?thesis by (simp add: ring_def sh')
qed

lemma ring_rotate:
  assumes "ring base S sh R (r # rs)"
  shows "ring base S sh (Suc R) (rs @ [r])"
proof -
  from assms have len: "Suc (length rs) = NR_BUFFERS" by (simp add: ring_def)
  have "role_ok S sh (slot (Suc R) k) ((rs @ [r]) ! k)" if k: "k < NR_BUFFERS" for k
  proof (cases "k < length rs")
    case True
    with len have "Suc k < NR_BUFFERS" by simp
    with assms have "role_ok S sh (slot R (Suc k)) ((r # rs) ! Suc k)" unfolding ring_def by blast
    with True show ?thesis by (simp add: nth_append slot_Suc)
  next
    case False
    with k len have "Suc k = NR_BUFFERS" "k = length rs" by simp_all
    moreover have "role_ok S sh (slot R 0) ((r # rs) ! 0)" using assms by (simp add: ring_def del: nth_Cons_0)
    ultimately show ?thesis by (simp add: slot_Suc slot_wrap)
  qed
  with assms len show ?thesis by (simp add: ring_def)
qed

end
