(* ===== verification/Select.thy ===== *)
theory Select
  imports Prelude "HOL-Library.Word"
begin

text \<open>
  Selecting the rows of several slices in a dataspace: src/src/hdf5/select.c.

  The dataspaces belong to the HDF5 library, which is not part of the repository.  The functions
  of the library that the code calls are the fields of the record h5s, over a state of the
  library of type 'w.  What the code relies on is the predicate h5s_ok: there is a view sp of
  the library's state that says which dataspaces are open and which points each one selects, and
  the documented effect of every call on that view.  A negative return code is a failure, after
  which the selection of the dataspace that was changed is unknown.
\<close>

type_synonym hsize = "64 word"
type_synonym hid = int
type_synonym point = "nat list"

record 'w h5s =
  H5Scopy :: "hid \<Rightarrow> 'w \<Rightarrow> hid \<times> 'w"
  H5Sselect_none :: "hid \<Rightarrow> 'w \<Rightarrow> int \<times> 'w"
  H5Sselect_all :: "hid \<Rightarrow> 'w \<Rightarrow> 'w"
  H5Sselect_or :: "hid \<Rightarrow> hsize list \<Rightarrow> hsize list \<Rightarrow> 'w \<Rightarrow> int \<times> 'w"
  H5Scombine_or :: "hid \<Rightarrow> hid \<Rightarrow> 'w \<Rightarrow> hid \<times> 'w"
  H5Sselect_copy :: "hid \<Rightarrow> hid \<Rightarrow> 'w \<Rightarrow> int \<times> 'w"
  H5Sclose :: "hid \<Rightarrow> 'w \<Rightarrow> 'w"
  H5Sget_select_npoints :: "hid \<Rightarrow> 'w \<Rightarrow> int"

section \<open>Operations\<close>

text \<open>
  The loop over the selections, shared by both functions: dimension 0 of start and count is filled
  in for each selection, the other dimensions are the same for all of them.
\<close>

fun select_each :: "'w h5s \<Rightarrow> hid \<Rightarrow> (hsize \<times> hsize) list \<Rightarrow> hsize list \<Rightarrow> hsize list \<Rightarrow> 'w \<Rightarrow> int \<times> 'w" where
  "select_each lib sid [] start count w = (0, w)"
| "select_each lib sid ((x, c) # sels) start count w =
     (case H5Sselect_or lib sid (start[0 := x]) (count[0 := c]) w of
        (err, w) \<Rightarrow> if err < 0 then (err, w) else select_each lib sid sels start count w)"

definition select_slices_direct ::
  "'w h5s \<Rightarrow> hid \<Rightarrow> (hsize \<times> hsize) list \<Rightarrow> hsize list \<Rightarrow> hsize list \<Rightarrow> 'w \<Rightarrow> int \<times> 'w" where
  "select_slices_direct lib file_space_id sels start count w =
     (case H5Sselect_none lib file_space_id w of
        (err, w) \<Rightarrow> if err < 0 then (-1, w) else select_each lib file_space_id sels start count w)"

function select_slices_recursive ::
  "'w h5s \<Rightarrow> hid \<Rightarrow> nat \<Rightarrow> nat \<Rightarrow> (hsize \<times> hsize) list \<Rightarrow> hsize list \<Rightarrow> hsize list \<Rightarrow> 'w \<Rightarrow> hid \<times> 'w" where
  "select_slices_recursive lib file_space_id first_selection nr_selections sels start count w =
     (if nr_selections \<le> 8 then
        (case H5Scopy lib file_space_id w of (result, w) \<Rightarrow>
         if result < 0 then (-1, w)
         else (case H5Sselect_none lib result w of (err, w) \<Rightarrow>
         if err < 0 then (-1, H5Sclose lib result w)
         else (case select_each lib result (take nr_selections (drop first_selection sels)) start count w of
           (err, w) \<Rightarrow> if err < 0 then (-1, H5Sclose lib result w) else (result, w))))
      else
        (let nr_left = nr_selections div 2;
             nr_right = nr_selections - nr_left
         in case select_slices_recursive lib file_space_id first_selection nr_left sels start count w of
           (space_id_left, w) \<Rightarrow>
         if space_id_left < 0 then (-1, w)
         else (case select_slices_recursive lib file_space_id (first_selection + nr_left) nr_right sels start count w of
           (space_id_right, w) \<Rightarrow>
         if space_id_right < 0 then (-1, H5Sclose lib space_id_left w)
         else (case H5Scombine_or lib space_id_left space_id_right w of (result, w) \<Rightarrow>
         let w = H5Sclose lib space_id_right (H5Sclose lib space_id_left w)
         in if result < 0 then (-1, w) else (result, w)))))"
  by pat_completeness auto
termination
  by (relation "measure (\<lambda>(lib, f, first, nr, sels, start, count, w). nr)") auto

declare select_slices_recursive.simps [simp del]

text \<open>
  debug says that the file is compiled without NDEBUG; the check of the number of points is then
  part of the function.  nr_expected is a signed 64-bit integer.
\<close>

definition nr_expected :: "(hsize \<times> hsize) list \<Rightarrow> hsize list \<Rightarrow> hsize" where
  "nr_expected sels count = fold (\<lambda>c t. t * c) (tl count) (fold (\<lambda>(x, c) t. t + c) sels 0)"

definition select_slices ::
  "'w h5s \<Rightarrow> bool \<Rightarrow> hid \<Rightarrow> (hsize \<times> hsize) list \<Rightarrow> hsize list \<Rightarrow> hsize list \<Rightarrow> 'w \<Rightarrow> int \<times> 'w" where
  "select_slices lib debug file_space_id sels start count w =
     (case select_slices_recursive lib file_space_id 0 (length sels) sels start count w of (dspace_id, w) \<Rightarrow>
      if dspace_id < 0 then (-1, w)
      else (case H5Sselect_copy lib file_space_id dspace_id w of (err, w) \<Rightarrow>
        let w = H5Sclose lib dspace_id w
        in if debug \<and> sint (nr_expected sels count) \<noteq> H5Sget_select_npoints lib file_space_id w
           then (-1, w) else (err, w)))"

section \<open>What the library promises\<close>

definition box :: "hsize list \<Rightarrow> hsize list \<Rightarrow> point set" where
  "box start count =
     {p. length p = length start \<and>
         (\<forall>i < length start. unat (start ! i) \<le> p ! i \<and> p ! i < unat (start ! i) + unat (count ! i))}"

definition h5s_ok :: "'w h5s \<Rightarrow> ('w \<Rightarrow> hid \<Rightarrow> point set option) \<Rightarrow> bool" where
  "h5s_ok lib sp \<longleftrightarrow>
     (\<forall>w h P r w'. sp w h = Some P \<longrightarrow> H5Scopy lib h w = (r, w') \<longrightarrow>
        (if r < 0 then sp w' = sp w else sp w r = None \<and> sp w' = (sp w)(r \<mapsto> P))) \<and>
     (\<forall>w h P e w'. sp w h = Some P \<longrightarrow> H5Sselect_none lib h w = (e, w') \<longrightarrow>
        (\<exists>Q. sp w' = (sp w)(h \<mapsto> Q) \<and> (0 \<le> e \<longrightarrow> Q = {}))) \<and>
     (\<forall>w h P start count e w'. sp w h = Some P \<longrightarrow> H5Sselect_or lib h start count w = (e, w') \<longrightarrow>
        (\<exists>Q. sp w' = (sp w)(h \<mapsto> Q) \<and> (0 \<le> e \<longrightarrow> Q = P \<union> box start count))) \<and>
     (\<forall>w a b P Q r w'. sp w a = Some P \<longrightarrow> sp w b = Some Q \<longrightarrow> H5Scombine_or lib a b w = (r, w') \<longrightarrow>
        (if r < 0 then sp w' = sp w else sp w r = None \<and> sp w' = (sp w)(r \<mapsto> P \<union> Q))) \<and>
     (\<forall>w d s P Q e w'. sp w d = Some P \<longrightarrow> sp w s = Some Q \<longrightarrow> H5Sselect_copy lib d s w = (e, w') \<longrightarrow>
        (\<exists>R. sp w' = (sp w)(d \<mapsto> R) \<and> (0 \<le> e \<longrightarrow> R = Q))) \<and>
     (\<forall>w h P. sp w h = Some P \<longrightarrow> sp (H5Sclose lib h w) = (sp w)(h := None))"

lemma h5s_copy:
  "h5s_ok lib sp \<Longrightarrow> sp w h = Some P \<Longrightarrow> H5Scopy lib h w = (r, w') \<Longrightarrow>
   (if r < 0 then sp w' = sp w else sp w r = None \<and> sp w' = (sp w)(r \<mapsto> P))"
  unfolding h5s_ok_def by (elim conjE) metis

lemma h5s_none:
  "h5s_ok lib sp \<Longrightarrow> sp w h = Some P \<Longrightarrow> H5Sselect_none lib h w = (e, w') \<Longrightarrow>
   \<exists>Q. sp w' = (sp w)(h \<mapsto> Q) \<and> (0 \<le> e \<longrightarrow> Q = {})"
  unfolding h5s_ok_def by (elim conjE) metis

lemma h5s_or:
  "h5s_ok lib sp \<Longrightarrow> sp w h = Some P \<Longrightarrow> H5Sselect_or lib h start count w = (e, w') \<Longrightarrow>
   \<exists>Q. sp w' = (sp w)(h \<mapsto> Q) \<and> (0 \<le> e \<longrightarrow> Q = P \<union> box start count)"
  unfolding h5s_ok_def by (elim conjE) metis

lemma h5s_combine:
  "h5s_ok lib sp \<Longrightarrow> sp w a = Some P \<Longrightarrow> sp w b = Some Q \<Longrightarrow> H5Scombine_or lib a b w = (r, w') \<Longrightarrow>
   (if r < 0 then sp w' = sp w else sp w r = None \<and> sp w' = (sp w)(r \<mapsto> P \<union> Q))"
  unfolding h5s_ok_def by (elim conjE) metis

lemma h5s_select_copy:
  "h5s_ok lib sp \<Longrightarrow> sp w d = Some P \<Longrightarrow> sp w s = Some Q \<Longrightarrow> H5Sselect_copy lib d s w = (e, w') \<Longrightarrow>
   \<exists>R. sp w' = (sp w)(d \<mapsto> R) \<and> (0 \<le> e \<longrightarrow> R = Q)"
  unfolding h5s_ok_def by (elim conjE) metis

lemma h5s_close:
  "h5s_ok lib sp \<Longrightarrow> sp w h = Some P \<Longrightarrow> sp (H5Sclose lib h w) = (sp w)(h := None)"
  unfolding h5s_ok_def by (elim conjE) metis

section \<open>The selection is the union of the slabs\<close>

definition slab :: "hsize list \<Rightarrow> hsize list \<Rightarrow> hsize \<times> hsize \<Rightarrow> point set" where
  "slab start count = (\<lambda>(x, c). box (start[0 := x]) (count[0 := c]))"

definition slabs :: "hsize list \<Rightarrow> hsize list \<Rightarrow> (hsize \<times> hsize) list \<Rightarrow> point set" where
  "slabs start count sels = (\<Union>s \<in> set sels. slab start count s)"

lemma slabs_simps [simp]:
  "slabs start count [] = {}"
  "slabs start count (s # sels) = slab start count s \<union> slabs start count sels"
  "slabs start count (sels @ sels') = slabs start count sels \<union> slabs start count sels'"
  by (auto simp: slabs_def)

lemma select_each_spec:
  assumes ok: "h5s_ok lib sp"
  shows "sp w h = Some P \<Longrightarrow> select_each lib h sels start count w = (e, w') \<Longrightarrow>
    \<exists>Q. sp w' = (sp w)(h \<mapsto> Q) \<and> (0 \<le> e \<longrightarrow> Q = P \<union> slabs start count sels)"
proof (induction sels arbitrary: w P)
  case Nil
  then show ?case by auto
next
  case (Cons s sels)
  obtain x c where xc: "s = (x, c)" by (cases s)
  obtain e1 w1 where s: "H5Sselect_or lib h (start[0 := x]) (count[0 := c]) w = (e1, w1)"
    by (cases "H5Sselect_or lib h (start[0 := x]) (count[0 := c]) w")
  from h5s_or [OF ok Cons.prems(1) s] obtain Q where Q: "sp w1 = (sp w)(h \<mapsto> Q)"
      "0 \<le> e1 \<longrightarrow> Q = P \<union> slab start count (x, c)"
    by (auto simp: slab_def)
  show ?case
  proof (cases "e1 < 0")
    case True
    then have "e = e1" "w' = w1" using Cons.prems(2) s xc by simp_all
    then show ?thesis using Q(1) True by (intro exI [of _ Q]) simp
  next
    case False
    then have "select_each lib h sels start count w1 = (e, w')" "sp w1 h = Some Q"
      using Cons.prems(2) s xc Q(1) by simp_all
    from Cons.IH [OF this(2) this(1)] obtain R where
      "sp w' = (sp w1)(h \<mapsto> R)" "0 \<le> e \<longrightarrow> R = Q \<union> slabs start count sels" by blast
    then show ?thesis using Q False xc by (intro exI [of _ R]) (simp add: Un_assoc)
  qed
qed

text \<open>
  The recursive routine returns a new dataspace with the union of the slabs, or fails and leaves
  no dataspace behind.
\<close>

lemma restore_space: "f r = None \<Longrightarrow> (f(r := x))(r := None) = f"
  by auto

lemma select_join:
  assumes ok: "h5s_ok lib sp" and fl: "sp w l = None" and w1: "sp w1 = (sp w)(l \<mapsto> A)"
    and r: "if r < 0 then sp w2 = sp w1 else sp w1 r = None \<and> sp w2 = (sp w1)(r \<mapsto> B)"
    and m: "H5Scombine_or lib l r w2 = (m, w3)"
  shows "r < 0 \<Longrightarrow> sp (H5Sclose lib l w2) = sp w"
    and "\<not> r < 0 \<Longrightarrow> m < 0 \<Longrightarrow> sp (H5Sclose lib r (H5Sclose lib l w3)) = sp w"
    and "\<not> r < 0 \<Longrightarrow> \<not> m < 0 \<Longrightarrow> sp w m = None"
    and "\<not> r < 0 \<Longrightarrow> \<not> m < 0 \<Longrightarrow> sp (H5Sclose lib r (H5Sclose lib l w3)) = (sp w)(m \<mapsto> A \<union> B)"
proof -
  show "r < 0 \<Longrightarrow> sp (H5Sclose lib l w2) = sp w"
    using h5s_close [OF ok, of w2 l A] w1 r fl by (auto simp: restore_space)
  assume r0: "\<not> r < 0"
  then have w2: "sp w2 = (sp w)(l \<mapsto> A, r \<mapsto> B)" and fr: "sp w r = None" "r \<noteq> l" using r w1 by (auto split: if_splits)
  then have "sp w2 l = Some A" "sp w2 r = Some B" by auto
  note c = h5s_combine [OF ok this m]
  have cl: "sp (H5Sclose lib r (H5Sclose lib l w3)) = (sp w3)(l := None, r := None)"
    if "sp w3 l = Some A" "sp w3 r = Some B"
    using h5s_close [OF ok, of w3 l A] h5s_close [OF ok, of "H5Sclose lib l w3" r B] that fr by auto
  show "sp (H5Sclose lib r (H5Sclose lib l w3)) = sp w" if "m < 0"
    using cl c that w2 fr fl by (auto simp: fun_eq_iff)
  assume m0: "\<not> m < 0"
  then have fm: "sp w2 m = None" and w3: "sp w3 = (sp w2)(m \<mapsto> A \<union> B)" using c by auto
  have ne: "m \<noteq> l" "m \<noteq> r" using fm w2 by (auto split: if_splits)
  show "sp w m = None" using fm ne w2 by auto
  show "sp (H5Sclose lib r (H5Sclose lib l w3)) = (sp w)(m \<mapsto> A \<union> B)"
    using cl w3 ne w2 fr fl by (auto simp: fun_eq_iff)
qed

lemma select_few_spec:
  assumes ok: "h5s_ok lib sp" and h: "sp w h = Some P" and nr: "nr \<le> 8"
    and run: "select_slices_recursive lib h first nr sels start count w = (r, w')"
  shows "if r < 0 then sp w' = sp w
    else sp w r = None \<and> sp w' = (sp w)(r \<mapsto> slabs start count (take nr (drop first sels)))"
proof -
  note def = select_slices_recursive.simps [of lib h first nr sels start count w]
  obtain r1 w1 where c: "H5Scopy lib h w = (r1, w1)" by (cases "H5Scopy lib h w")
  note c' = h5s_copy [OF ok h c]
  obtain e2 w2 where n: "H5Sselect_none lib r1 w1 = (e2, w2)" by (cases "H5Sselect_none lib r1 w1")
  obtain e3 w3 where s: "select_each lib r1 (take nr (drop first sels)) start count w2 = (e3, w3)"
    by (cases "select_each lib r1 (take nr (drop first sels)) start count w2")
  show ?thesis
  proof (cases "r1 < 0")
    case True
    then show ?thesis using run nr c c' by (auto simp: def)
  next
    case False
    then have f: "sp w r1 = None" and w1: "sp w1 = (sp w)(r1 \<mapsto> P)" using c' by auto
    obtain Q where Q: "sp w2 = (sp w)(r1 \<mapsto> Q)" "0 \<le> e2 \<longrightarrow> Q = {}"
      using h5s_none [OF ok _ n] w1 by (metis fun_upd_same fun_upd_upd)
    obtain R where R: "sp w3 = (sp w)(r1 \<mapsto> R)" "0 \<le> e3 \<longrightarrow> R = Q \<union> slabs start count (take nr (drop first sels))"
      using select_each_spec [OF ok _ s] Q by (metis fun_upd_same fun_upd_upd)
    have "sp (H5Sclose lib r1 w2) = sp w" "sp (H5Sclose lib r1 w3) = sp w"
      using h5s_close [OF ok, of w2 r1 Q] h5s_close [OF ok, of w3 r1 R] Q R f by (auto simp: restore_space)
    then show ?thesis using run nr False c n s f Q R by (auto simp: def split: if_splits)
  qed
qed

lemma select_slices_recursive_spec:
  assumes ok: "h5s_ok lib sp"
  shows "sp w h = Some P \<Longrightarrow> select_slices_recursive lib h first nr sels start count w = (r, w') \<Longrightarrow>
    (if r < 0 then sp w' = sp w
     else sp w r = None \<and> sp w' = (sp w)(r \<mapsto> slabs start count (take nr (drop first sels))))"
proof (induction nr arbitrary: first w w' r rule: less_induct)
  case (less nr)
  note def = select_slices_recursive.simps [of lib h first nr sels start count w]
  show ?case
  proof (cases "nr \<le> 8")
    case True
    then show ?thesis using ok less.prems by (intro select_few_spec)
  next
    case False
    define nl where "nl = nr div 2"
    have lt: "nl < nr" "nr - nl < nr" and split: "take nr (drop first sels) = take nl (drop first sels) @ take (nr - nl) (drop (first + nl) sels)"
      using False take_add [of nl "nr - nl" "drop first sels"]
      by (auto simp: nl_def add.commute)
    obtain l w1 where l: "select_slices_recursive lib h first nl sels start count w = (l, w1)"
      by (cases "select_slices_recursive lib h first nl sels start count w")
    obtain r2 w2 where r2: "select_slices_recursive lib h (first + nl) (nr - nl) sels start count w1 = (r2, w2)"
      by (cases "select_slices_recursive lib h (first + nl) (nr - nl) sels start count w1")
    obtain m w3 where m: "H5Scombine_or lib l r2 w2 = (m, w3)" by (cases "H5Scombine_or lib l r2 w2")
    note IHl = less.IH [OF lt(1) less.prems(1) l]
    show ?thesis
    proof (cases "l < 0")
      case True
      then show ?thesis using less.prems(2) False l IHl by (auto simp: def nl_def Let_def)
    next
      case l0: False
      then have fl: "sp w l = None" and w1: "sp w1 = (sp w)(l \<mapsto> slabs start count (take nl (drop first sels)))"
        using IHl by auto
      then have "sp w1 h = Some P" using less.prems(1) by auto
      note IHr = less.IH [OF lt(2) this r2]
      show ?thesis
        using select_join [OF ok fl w1 IHr m] less.prems(2) False l0 l r2 m
        by (auto simp: def nl_def [symmetric] Let_def split split: if_splits)
    qed
  qed
qed

lemma select_slices_spec:
  assumes "h5s_ok lib sp" and "sp w file_space_id = Some P"
    and "select_slices lib debug file_space_id sels start count w = (rc, w')"
  shows "\<exists>Q. sp w' = (sp w)(file_space_id \<mapsto> Q) \<and> (0 \<le> rc \<longrightarrow> Q = slabs start count sels)"
proof -
  let ?S = "slabs start count sels"
  obtain d w1 where r: "select_slices_recursive lib file_space_id 0 (length sels) sels start count w = (d, w1)"
    by (cases "select_slices_recursive lib file_space_id 0 (length sels) sels start count w")
  note r' = select_slices_recursive_spec [OF assms(1,2) r]
  show ?thesis
  proof (cases "d < 0")
    case True
    then show ?thesis using assms(2,3) r r' by (auto simp: select_slices_def fun_eq_iff)
  next
    case False
    then have w1: "sp w d = None" "sp w1 = (sp w)(d \<mapsto> ?S)" using r' by auto
    then have open1: "sp w1 file_space_id = Some P" "sp w1 d = Some ?S" and ne: "d \<noteq> file_space_id"
      using assms(2) by auto
    obtain e w2 where c: "H5Sselect_copy lib file_space_id d w1 = (e, w2)"
      by (cases "H5Sselect_copy lib file_space_id d w1")
    from h5s_select_copy [OF assms(1) open1 c] obtain R where
      R: "sp w2 = (sp w1)(file_space_id \<mapsto> R)" "0 \<le> e \<longrightarrow> R = ?S" by blast
    then have "sp (H5Sclose lib d w2) = (sp w)(file_space_id \<mapsto> R)"
      using h5s_close [OF assms(1), of w2 d ?S] w1 open1 ne by (auto simp: fun_eq_iff)
    moreover have "w' = H5Sclose lib d w2" "0 \<le> rc \<longrightarrow> rc = e"
      using assms(3) r c False by (auto simp: select_slices_def Let_def split: if_splits)
    ultimately show ?thesis using R by auto
  qed
qed

section \<open>A library in memory\<close>

text \<open>
  A concrete dataspace library that satisfies h5s_ok: a dataspace is the list of the boxes it
  selects and handles are allocated in increasing order.  It serves to evaluate the code on
  concrete inputs and shows that the hypotheses on the library can hold.
\<close>

type_synonym mem_spaces = "nat \<times> (hid \<Rightarrow> (hsize list \<times> hsize list) list option)"

definition mem_view :: "mem_spaces \<Rightarrow> hid \<Rightarrow> point set option" where
  "mem_view w h = (if h < int (fst w) then map_option (\<lambda>bs. \<Union>(s, c) \<in> set bs. box s c) (snd w h) else None)"

definition mem_new :: "(hsize list \<times> hsize list) list option \<Rightarrow> mem_spaces \<Rightarrow> hid \<times> mem_spaces" where
  "mem_new s w = (case s of None \<Rightarrow> (-1, w) | Some bs \<Rightarrow> (int (fst w), (fst w + 1, (snd w)(int (fst w) \<mapsto> bs))))"

definition mem_set :: "hid \<Rightarrow> (hsize list \<times> hsize list) list option \<Rightarrow> mem_spaces \<Rightarrow> int \<times> mem_spaces" where
  "mem_set h s w = (case s of None \<Rightarrow> (-1, w) | Some bs \<Rightarrow> (0, (fst w, (snd w)(h \<mapsto> bs))))"

definition mem_lib :: "mem_spaces h5s" where
  "mem_lib =
     \<lparr>H5Scopy = (\<lambda>h w. mem_new (snd w h) w),
      H5Sselect_none = (\<lambda>h. mem_set h (Some [])),
      H5Sselect_all = (\<lambda>h w. w),
      H5Sselect_or = (\<lambda>h s c w. mem_set h (map_option (\<lambda>bs. (s, c) # bs) (snd w h)) w),
      H5Scombine_or = (\<lambda>a b w. mem_new (Option.bind (snd w a) (\<lambda>xs. map_option (\<lambda>ys. xs @ ys) (snd w b))) w),
      H5Sselect_copy = (\<lambda>d s w. mem_set d (snd w s) w),
      H5Sclose = (\<lambda>h w. (fst w, (snd w)(h := None))),
      H5Sget_select_npoints = (\<lambda>h w. case snd w h of None \<Rightarrow> -1
        | Some bs \<Rightarrow> sum_list (map (\<lambda>(s, c). prod_list (map uint c)) bs))\<rparr>"

lemma mem_view_Some:
  "mem_view w h = Some P \<Longrightarrow> \<exists>bs. snd w h = Some bs \<and> h < int (fst w) \<and> P = (\<Union>(s, c) \<in> set bs. box s c)"
  by (auto simp: mem_view_def split: if_splits)

lemma mem_new_view:
  "mem_new (Some bs) w = (r, w') \<Longrightarrow>
   0 \<le> r \<and> mem_view w r = None \<and> mem_view w' = (mem_view w)(r \<mapsto> \<Union>(s, c) \<in> set bs. box s c)"
  by (auto simp: mem_new_def mem_view_def fun_eq_iff)

lemma mem_set_view:
  "h < int (fst w) \<Longrightarrow> mem_set h (Some bs) w = (e, w') \<Longrightarrow>
   e = 0 \<and> mem_view w' = (mem_view w)(h \<mapsto> \<Union>(s, c) \<in> set bs. box s c)"
  by (auto simp: mem_set_def mem_view_def fun_eq_iff)

lemma mem_lib_ok: "h5s_ok mem_lib mem_view"
  unfolding h5s_ok_def
proof (intro conjI allI impI)
  fix w h P r w'
  assume "mem_view w h = Some P" "H5Scopy mem_lib h w = (r, w')"
  then show "if r < 0 then mem_view w' = mem_view w else mem_view w r = None \<and> mem_view w' = (mem_view w)(r \<mapsto> P)"
    by (auto dest!: mem_view_Some mem_new_view simp: mem_lib_def)
next
  fix w h P e w'
  assume "mem_view w h = Some P" "H5Sselect_none mem_lib h w = (e, w')"
  then show "\<exists>Q. mem_view w' = (mem_view w)(h \<mapsto> Q) \<and> (0 \<le> e \<longrightarrow> Q = {})"
    using mem_set_view [of h w "[]" e w'] by (auto dest!: mem_view_Some simp: mem_lib_def)
next
  fix w h P start count e w'
  assume a: "mem_view w h = Some P" "H5Sselect_or mem_lib h start count w = (e, w')"
  then obtain bs where "snd w h = Some bs" "h < int (fst w)" "P = (\<Union>(s, c) \<in> set bs. box s c)"
    by (auto dest!: mem_view_Some)
  then show "\<exists>Q. mem_view w' = (mem_view w)(h \<mapsto> Q) \<and> (0 \<le> e \<longrightarrow> Q = P \<union> box start count)"
    using a(2) mem_set_view [of h w "(start, count) # bs" e w'] by (auto simp: mem_lib_def)
next
  fix w a b P Q r w'
  assume "mem_view w a = Some P" "mem_view w b = Some Q" "H5Scombine_or mem_lib a b w = (r, w')"
  then show "if r < 0 then mem_view w' = mem_view w else mem_view w r = None \<and> mem_view w' = (mem_view w)(r \<mapsto> P \<union> Q)"
    by (auto dest!: mem_view_Some mem_new_view simp: mem_lib_def)
next
  fix w d s P Q e w'
  assume a: "mem_view w d = Some P" "mem_view w s = Some Q" "H5Sselect_copy mem_lib d s w = (e, w')"
  then obtain bs where "snd w s = Some bs" "d < int (fst w)" "Q = (\<Union>(s, c) \<in> set bs. box s c)"
    by (auto dest!: mem_view_Some)
  then show "\<exists>R. mem_view w' = (mem_view w)(d \<mapsto> R) \<and> (0 \<le> e \<longrightarrow> R = Q)"
    using a(3) mem_set_view [of d w bs e w'] by (auto simp: mem_lib_def)
next
  fix w h P
  assume "mem_view w h = Some P"
  then show "mem_view (H5Sclose mem_lib h w) = (mem_view w)(h := None)"
    by (auto simp: mem_lib_def mem_view_def fun_eq_iff)
qed

section \<open>Properties\<close>

text \<open>
  C25. select_slices() either succeeds, and then the file dataspace selects exactly the union of the
  slabs it was asked for, or it fails.  In both cases every other dataspace is as before: the
  dataspaces created on the way are all closed, whichever call of the library failed.
\<close>

theorem select_slices_selects_union:
  assumes "h5s_ok lib sp" and "sp w file_space_id = Some P"
    and "select_slices lib debug file_space_id sels start count w = (rc, w')"
  shows "(\<exists>Q. sp w' = (sp w)(file_space_id \<mapsto> Q)) \<and>
         (0 \<le> rc \<longrightarrow> sp w' file_space_id = Some (\<Union>(x, c) \<in> set sels. box (start[0 := x]) (count[0 := c])))"
proof -
  have "slabs start count sels = (\<Union>(x, c) \<in> set sels. box (start[0 := x]) (count[0 := c]))"
    by (auto simp: slabs_def slab_def)
  then show ?thesis using select_slices_spec [OF assms] by auto
qed

text \<open>Ten slices of a two-dimensional dataset, which takes the routine through its recursive branch.\<close>

definition mem_start :: mem_spaces where
  "mem_start = (1, [0 \<mapsto> []])"

definition ten_slices :: "(hsize \<times> hsize) list" where
  "ten_slices = map (\<lambda>i. (of_nat (5 * i), 2)) [0..<10]"

lemma mem_start_view: "mem_view mem_start 0 = Some {}"
  by (simp add: mem_view_def mem_start_def)

lemma ten_slices_selected: "fst (select_slices mem_lib True 0 ten_slices [0, 1] [0, 3] mem_start) = 0"
  by code_simp

lemma ten_slices_direct: "fst (select_slices_direct mem_lib 0 ten_slices [0, 1] [0, 3] mem_start) = 0"
  by code_simp

theorem select_slices_selects_union_witness:
  "mem_view (snd (select_slices mem_lib True 0 ten_slices [0, 1] [0, 3] mem_start)) 0 =
   Some (\<Union>(x, c) \<in> set ten_slices. box [x, 1] [c, 3])"
  using select_slices_selects_union [OF mem_lib_ok mem_start_view prod.collapse [symmetric], of True ten_slices "[0, 1]" "[0, 3]"]
  by (simp add: ten_slices_selected)

text \<open>
  C26. The recursive routine, which combines the slices pairwise because adding N slabs one by one
  takes quadratic time, is equivalent to select_slices_direct(), which does add them one by one:
  when both succeed they leave the same selection, and the library sees the same open dataspaces.
\<close>

theorem select_slices_equals_direct:
  assumes "h5s_ok lib sp" and "sp w file_space_id = Some P"
    and "select_slices lib debug file_space_id sels start count w = (rc, w')" and "0 \<le> rc"
    and "select_slices_direct lib file_space_id sels start count w = (rc', w'')" and "0 \<le> rc'"
  shows "sp w' = sp w''"
proof -
  have 1: "sp w' = (sp w)(file_space_id \<mapsto> slabs start count sels)"
    using select_slices_spec [OF assms(1-3)] assms(4) by auto
  obtain e w1 where n: "H5Sselect_none lib file_space_id w = (e, w1)"
    by (cases "H5Sselect_none lib file_space_id w")
  then have e: "0 \<le> e" "select_each lib file_space_id sels start count w1 = (rc', w'')"
    using assms(5,6) by (auto simp: select_slices_direct_def split: if_splits)
  then have w1: "sp w1 = (sp w)(file_space_id \<mapsto> {})" "sp w1 file_space_id = Some {}"
    using h5s_none [OF assms(1,2) n] by auto
  have "sp w'' = (sp w)(file_space_id \<mapsto> slabs start count sels)"
    using select_each_spec [OF assms(1) w1(2) e(2)] assms(6) w1(1) by auto
  then show ?thesis using 1 by simp
qed

theorem select_slices_equals_direct_witness:
  "mem_view (snd (select_slices mem_lib True 0 ten_slices [0, 1] [0, 3] mem_start)) =
   mem_view (snd (select_slices_direct mem_lib 0 ten_slices [0, 1] [0, 3] mem_start))"
  using select_slices_equals_direct [OF mem_lib_ok mem_start_view prod.collapse [symmetric] _ prod.collapse [symmetric],
      of True ten_slices "[0, 1]" "[0, 3]"]
  by (simp add: ten_slices_selected ten_slices_direct)

end
