(* ===== verification/Multislice.thy ===== *)
theory Multislice
  imports Select
begin

text \<open>
  The iterator over the rows of several slices of a dataset: src/src/hdf5/multislice.c.  A
  request names nr_slices slices of a dataset of rank dimensions; starts and counts hold rank
  numbers for each slice.  The slices are read in batches of at most elements_per_buffer rows.

  hsize_t is a 64-bit word and its sums wrap, as in the code.  The failing asserts and the
  failing return codes are values: None is a failed assert, a negative code is a refusal.
\<close>

section \<open>State\<close>

definition HDFSTREAM_MAX_DIMS :: int where
  "HDFSTREAM_MAX_DIMS = 32"

definition HDFSTREAM_MAX_SLICES :: int where
  "HDFSTREAM_MAX_SLICES = 16777216"

definition MAX_SELECTIONS_PER_BUFFER :: nat where
  "MAX_SELECTIONS_PER_BUFFER = 10 * 1024"

record multislice =
  ms_rank :: nat
  ms_nr_slices :: nat
  ms_starts :: "hsize list"
  ms_counts :: "hsize list"
  ms_elements_per_buffer :: hsize
  ms_elements_left_total :: hsize
  ms_slice_nr :: nat
  ms_offset_in_slice :: hsize
  ms_total_count :: "hsize list"
  ms_start :: "hsize list"
  ms_count :: "hsize list"

section \<open>Operations\<close>

definition min_size :: "hsize \<Rightarrow> hsize \<Rightarrow> hsize" where
  "min_size a b = (if a < b then a else b)"

definition slice_in_file :: "nat \<Rightarrow> hsize list \<Rightarrow> hsize list \<Rightarrow> hsize list \<Rightarrow> nat \<Rightarrow> bool" where
  "slice_in_file rank starts counts file_dims s =
     list_all (\<lambda>d. \<not> starts ! (rank * s + d) + counts ! (rank * s + d) > file_dims ! d) [0..<rank]"

definition slice_follows :: "nat \<Rightarrow> hsize list \<Rightarrow> hsize list \<Rightarrow> nat \<Rightarrow> bool" where
  "slice_follows rank starts counts s =
     (let p = rank * (s - 1); q = rank * s in
        \<not> starts ! q < starts ! p \<and>
        \<not> starts ! p + counts ! p > starts ! q \<and>
        list_all (\<lambda>d. starts ! (p + d) = starts ! (q + d) \<and> counts ! (p + d) = counts ! (q + d)) [1..<rank])"

definition multislice_init ::
  "int \<Rightarrow> int \<Rightarrow> hsize list \<Rightarrow> hsize list \<Rightarrow> hsize \<Rightarrow> hsize list \<Rightarrow> multislice option" where
  "multislice_init rank nr_slices starts counts elements_per_buffer file_dims =
     (if rank > HDFSTREAM_MAX_DIMS then None
      else if rank < 0 then None
      else if nr_slices > HDFSTREAM_MAX_SLICES then None
      else if nr_slices < 1 then None
      else let r = nat rank; n = (if rank > 0 then nat nr_slices else 0) in
        if \<not> list_all (\<lambda>s. slice_in_file r starts counts file_dims s \<and>
                            (if s > 0 then slice_follows r starts counts s else True)) [0..<n]
        then None
        else let
          total_count = (if r > 0
            then fold (\<lambda>i t. t + counts ! (i * r)) [0..<n] 0 # map (\<lambda>i. counts ! i) [1..<r] else []);
          left = (if r > 0 then total_count ! 0 else 1)
        in Some \<lparr>ms_rank = r, ms_nr_slices = n, ms_starts = starts, ms_counts = counts,
                 ms_elements_per_buffer = elements_per_buffer,
                 ms_elements_left_total = (if list_all (\<lambda>c. c \<noteq> 0) total_count then left else 0),
                 ms_slice_nr = 0, ms_offset_in_slice = 0,
                 ms_total_count = total_count,
                 ms_start = (if r > 0 then 0 # map (\<lambda>i. starts ! i) [1..<r] else []),
                 ms_count = (if r > 0 then 0 # map (\<lambda>i. counts ! i) [1..<r] else [])\<rparr>)"

text \<open>The iterator moves on by k rows, to the next slice when it reaches the end of this one.\<close>

definition take_rows :: "multislice \<Rightarrow> hsize \<Rightarrow> multislice" where
  "take_rows ms k =
     (if ms_offset_in_slice ms + k \<ge> ms_counts ms ! (ms_slice_nr ms * ms_rank ms)
      then ms\<lparr>ms_offset_in_slice := 0, ms_slice_nr := ms_slice_nr ms + 1\<rparr>
      else ms\<lparr>ms_offset_in_slice := ms_offset_in_slice ms + k\<rparr>)"

text \<open>
  Element 0 of start and count is not initialised by the code; select_slices() fills it in before
  it is read.

  The body of the loop of multislice_select_next_buffer_data(): left is elements_left_in_buffer,
  sels the selections stored so far and n the value of *nr_elements_to_read.
\<close>

function select_loop ::
  "multislice \<Rightarrow> hsize \<Rightarrow> (hsize \<times> hsize) list \<Rightarrow> hsize \<Rightarrow> (multislice \<times> (hsize \<times> hsize) list \<times> hsize) option" where
  "select_loop ms left sels n =
     (if left > 0 \<and> length sels < MAX_SELECTIONS_PER_BUFFER then
        (if \<not> ms_slice_nr ms < ms_nr_slices ms then None
         else let
           slice_start = ms_starts ms ! (ms_slice_nr ms * ms_rank ms);
           slice_count = ms_counts ms ! (ms_slice_nr ms * ms_rank ms);
           elements_left_in_slice = slice_count - ms_offset_in_slice ms;
           k = min_size elements_left_in_slice left;
           sels = (if k > 0 then sels @ [(slice_start + ms_offset_in_slice ms, k)] else sels);
           ms = take_rows ms k
         in if \<not> ms_slice_nr ms \<le> ms_nr_slices ms then None
         else if \<not> left \<ge> k then None
         else if \<not> ms_elements_left_total ms \<ge> k then None
         else select_loop (ms\<lparr>ms_elements_left_total := ms_elements_left_total ms - k\<rparr>) (left - k) sels (n + k))
      else Some (ms, sels, n))"
  by pat_completeness auto
termination
proof (relation "measure (\<lambda>(ms, left, sels, n). (ms_nr_slices ms - ms_slice_nr ms) + unat left)", goal_cases)
  case 1
  then show ?case by simp
next
  case (2 ms left sels n ss sc els k sels' ms')
  have k: "k \<le> left" using 2 by auto
  show ?case
  proof (cases "k = 0")
    case True
    then have "els = 0" using 2 by (auto simp: min_size_def split: if_splits)
    then have "ms_offset_in_slice ms + k \<ge> sc" using 2 True by simp
    then show ?thesis using 2 True by (auto simp: take_rows_def)
  next
    case False
    then have "0 < unat k" by (simp add: unat_gt_0)
    then have "unat (left - k) < unat left"
      using k by (simp add: unat_sub word_le_nat_alt)
    moreover have "ms_nr_slices ms' - ms_slice_nr ms' \<le> ms_nr_slices ms - ms_slice_nr ms"
      using 2 by (auto simp: take_rows_def)
    ultimately show ?thesis by simp
  qed
qed

declare select_loop.simps [simp del]

text \<open>The result is the return code, the iterator, *nr_elements_to_read and the library's state.\<close>

definition multislice_select_next_buffer_data ::
  "'w h5s \<Rightarrow> bool \<Rightarrow> multislice \<Rightarrow> hid \<Rightarrow> 'w \<Rightarrow> (int \<times> multislice \<times> hsize \<times> 'w) option" where
  "multislice_select_next_buffer_data lib debug ms file_space_id w =
     (if ms_elements_left_total ms = 0 then Some (1, ms, 0, w)
      else if ms_rank ms = 0 then
        (if ms_nr_slices ms \<noteq> 0 then None
         else Some (0, ms\<lparr>ms_elements_left_total := 0\<rparr>, 1, H5Sselect_all lib file_space_id w))
      else
        let w = snd (H5Sselect_none lib file_space_id w) in
        (case select_loop ms (min_size (ms_elements_per_buffer ms) (ms_elements_left_total ms)) [] 0 of
           None \<Rightarrow> None
         | Some (ms, sels, n) \<Rightarrow>
             (case select_slices lib debug file_space_id sels (ms_start ms) (ms_count ms) w of
                (err, w) \<Rightarrow> if err < 0 then Some (-1, ms, n, w) else Some (0, ms, n, w))))"

section \<open>The rows still to be read\<close>

definition slice_seg :: "nat \<Rightarrow> hsize list \<Rightarrow> hsize list \<Rightarrow> nat \<Rightarrow> nat list" where
  "slice_seg rank starts counts s =
     [unat (starts ! (s * rank))..<unat (starts ! (s * rank)) + unat (counts ! (s * rank))]"

lemma length_slice_seg [simp]: "length (slice_seg rank starts counts s) = unat (counts ! (s * rank))"
  by (simp add: slice_seg_def)

lemma slice_seg_set [simp]:
  "set (slice_seg rank starts counts s) = {unat (starts ! (s * rank))..<unat (starts ! (s * rank)) + unat (counts ! (s * rank))}"
  by (simp add: slice_seg_def)

lemma slice_seg_sorted [simp]: "sorted_wrt (<) (slice_seg rank starts counts s)"
  by (simp add: slice_seg_def)

definition slice_rows :: "multislice \<Rightarrow> nat \<Rightarrow> nat list" where
  "slice_rows ms = slice_seg (ms_rank ms) (ms_starts ms) (ms_counts ms)"

definition remaining :: "multislice \<Rightarrow> nat list" where
  "remaining ms = drop (unat (ms_offset_in_slice ms)) (concat (map (slice_rows ms) [ms_slice_nr ms..<ms_nr_slices ms]))"

definition sel_rows :: "(hsize \<times> hsize) list \<Rightarrow> nat list" where
  "sel_rows sels = concat (map (\<lambda>(x, c). [unat x..<unat x + unat c]) sels)"

text \<open>The position of the iterator is inside the current slice, and no slice wraps around.\<close>

definition ms_ok :: "multislice \<Rightarrow> bool" where
  "ms_ok ms \<longleftrightarrow>
     0 < ms_rank ms \<and> ms_slice_nr ms \<le> ms_nr_slices ms \<and>
     (\<forall>s < ms_nr_slices ms. unat (ms_starts ms ! (s * ms_rank ms)) + unat (ms_counts ms ! (s * ms_rank ms)) < 2 ^ 64) \<and>
     (if ms_slice_nr ms < ms_nr_slices ms
      then ms_offset_in_slice ms = 0 \<or> ms_offset_in_slice ms < ms_counts ms ! (ms_slice_nr ms * ms_rank ms)
      else ms_offset_in_slice ms = 0)"

lemma sel_rows_append [simp]:
  "sel_rows [] = []" "sel_rows (sels @ [(x, c)]) = sel_rows sels @ [unat x..<unat x + unat c]"
  by (simp_all add: sel_rows_def)

lemma length_slice_rows [simp]: "length (slice_rows ms s) = unat (ms_counts ms ! (s * ms_rank ms))"
  by (simp add: slice_rows_def slice_seg_def)

lemma slice_rows_cong [simp]:
  "slice_rows (ms\<lparr>ms_elements_left_total := x\<rparr>) = slice_rows ms"
  "slice_rows (ms\<lparr>ms_offset_in_slice := o'\<rparr>) = slice_rows ms"
  "slice_rows (ms\<lparr>ms_slice_nr := s\<rparr>) = slice_rows ms"
  by (auto simp: slice_rows_def)

lemma unat_min_size [simp]: "unat (min_size a b) = min (unat a) (unat b)"
  by (auto simp: min_size_def word_less_nat_alt)

lemma remaining_unfold:
  assumes "ms_ok ms" "ms_slice_nr ms < ms_nr_slices ms"
  shows "remaining ms = drop (unat (ms_offset_in_slice ms)) (slice_rows ms (ms_slice_nr ms)) @
           concat (map (slice_rows ms) [Suc (ms_slice_nr ms)..<ms_nr_slices ms])"
  using assms by (auto simp: remaining_def upt_conv_Cons ms_ok_def word_less_nat_alt)

lemma remaining_done: "ms_ok ms \<Longrightarrow> \<not> ms_slice_nr ms < ms_nr_slices ms \<Longrightarrow> remaining ms = []"
  by (simp add: remaining_def)

definition ms_request :: "multislice \<Rightarrow> multislice" where
  "ms_request ms = ms\<lparr>ms_slice_nr := 0, ms_offset_in_slice := 0, ms_elements_left_total := 0\<rparr>"

lemma take_rows_request [simp]: "ms_request (take_rows ms k) = ms_request ms"
  by (simp add: take_rows_def ms_request_def)

lemma ms_request_left [simp]: "ms_request (ms\<lparr>ms_elements_left_total := x\<rparr>) = ms_request ms"
  by (simp add: ms_request_def)

lemma take_rows_ok:
  assumes ok: "ms_ok ms" and lt: "ms_slice_nr ms < ms_nr_slices ms"
    and k: "unat k \<le> unat (ms_counts ms ! (ms_slice_nr ms * ms_rank ms)) - unat (ms_offset_in_slice ms)"
  shows "ms_ok (take_rows ms k)"
    and "remaining ms = [unat (ms_starts ms ! (ms_slice_nr ms * ms_rank ms)) + unat (ms_offset_in_slice ms)..<
             unat (ms_starts ms ! (ms_slice_nr ms * ms_rank ms)) + unat (ms_offset_in_slice ms) + unat k] @ remaining (take_rows ms k)"
proof -
  let ?ct = "ms_counts ms ! (ms_slice_nr ms * ms_rank ms)"
  let ?st = "ms_starts ms ! (ms_slice_nr ms * ms_rank ms)"
  let ?off = "ms_offset_in_slice ms"
  have off: "?off = 0 \<or> ?off < ?ct" using ok lt by (auto simp: ms_ok_def)
  then have le: "unat ?off \<le> unat ?ct" by (auto simp: word_less_nat_alt)
  have nw: "unat ?st + unat ?ct < 2 ^ 64" using ok lt by (auto simp: ms_ok_def)
  have sum: "unat (?off + k) = unat ?off + unat k"
    using k le nw by (simp add: unat_word_ariths)
  have adv: "?off + k \<ge> ?ct \<longleftrightarrow> unat k = unat ?ct - unat ?off"
    using sum k le by (auto simp: word_le_nat_alt)
  show "ms_ok (take_rows ms k)"
    using ok lt by (auto simp: take_rows_def ms_ok_def not_le)
  have rows: "drop (unat ?off) (slice_rows ms (ms_slice_nr ms)) =
      [unat ?st + unat ?off..<unat ?st + unat ?off + unat k] @ drop (unat ?off + unat k) (slice_rows ms (ms_slice_nr ms))"
    using k le by (auto simp: slice_rows_def slice_seg_def add.assoc intro!: upt_split)
  show "remaining ms = [unat ?st + unat ?off..<unat ?st + unat ?off + unat k] @ remaining (take_rows ms k)"
  proof (cases "?off + k \<ge> ?ct")
    case True
    then have "remaining (take_rows ms k) = concat (map (slice_rows ms) [Suc (ms_slice_nr ms)..<ms_nr_slices ms])"
      by (simp add: take_rows_def remaining_def)
    then show ?thesis using remaining_unfold [OF ok lt] rows adv True le by simp
  next
    case False
    then have "remaining (take_rows ms k) = drop (unat ?off + unat k) (slice_rows ms (ms_slice_nr ms)) @
        concat (map (slice_rows ms) [Suc (ms_slice_nr ms)..<ms_nr_slices ms])"
      using sum lt k le by (simp add: take_rows_def remaining_def upt_conv_Cons)
    then show ?thesis using remaining_unfold [OF ok lt] rows by simp
  qed
qed

lemma take_rows_measure:
  assumes ok: "ms_ok ms" and lt: "ms_slice_nr ms < ms_nr_slices ms"
    and k: "k = min_size (ms_counts ms ! (ms_slice_nr ms * ms_rank ms) - ms_offset_in_slice ms) left"
    and "left > 0"
  shows "ms_nr_slices ((take_rows ms k)\<lparr>ms_elements_left_total := x\<rparr>) -
         ms_slice_nr ((take_rows ms k)\<lparr>ms_elements_left_total := x\<rparr>) + unat (left - k)
       < ms_nr_slices ms - ms_slice_nr ms + unat left"
proof (cases "k = 0")
  case True
  then have "ms_counts ms ! (ms_slice_nr ms * ms_rank ms) = ms_offset_in_slice ms"
    using assms(4) by (auto simp: k min_size_def split: if_splits)
  then show ?thesis using True lt by (simp add: take_rows_def)
next
  case False
  then have "0 < unat k" by (simp add: unat_gt_0)
  moreover have "k \<le> left" by (auto simp: k min_size_def)
  then have "unat (left - k) = unat left - unat k" "unat k \<le> unat left"
    by (simp_all add: unat_sub word_le_nat_alt)
  ultimately show ?thesis using lt by (auto simp: take_rows_def)
qed

lemma select_loop_step:
  assumes "left > 0" "length sels < MAX_SELECTIONS_PER_BUFFER" "ms_slice_nr ms < ms_nr_slices ms"
    and k: "k = min_size (ms_counts ms ! (ms_slice_nr ms * ms_rank ms) - ms_offset_in_slice ms) left"
    and "k \<le> ms_elements_left_total ms"
  shows "select_loop ms left sels n =
    select_loop ((take_rows ms k)\<lparr>ms_elements_left_total := ms_elements_left_total ms - k\<rparr>) (left - k)
      (if k > 0 then sels @ [(ms_starts ms ! (ms_slice_nr ms * ms_rank ms) + ms_offset_in_slice ms, k)] else sels) (n + k)"
proof -
  have "ms_slice_nr (take_rows ms k) \<le> ms_nr_slices (take_rows ms k)" "k \<le> left"
       "ms_elements_left_total (take_rows ms k) = ms_elements_left_total ms"
    using assms(3) k by (auto simp: take_rows_def min_size_def)
  then show ?thesis
    using assms(1-3,5)
    by (simp add: select_loop.simps [of ms left sels n] Let_def k [symmetric])
qed

lemma left_update [simp]:
  "ms_ok (ms\<lparr>ms_elements_left_total := x\<rparr>) = ms_ok ms"
  "remaining (ms\<lparr>ms_elements_left_total := x\<rparr>) = remaining ms"
  by (simp_all add: ms_ok_def remaining_def)

lemma take_rows_fields [simp]:
  "ms_nr_slices (take_rows ms k) = ms_nr_slices ms"
  "ms_elements_left_total (take_rows ms k) = ms_elements_left_total ms"
  by (simp_all add: take_rows_def)

lemma sel_rows_Cons [simp]: "sel_rows ((x, c) # sels) = [unat x..<unat x + unat c] @ sel_rows sels"
  by (simp add: sel_rows_def)

text \<open>
  What the loop promises from the state (ms, left, sels, n), when it stops with new selections:
  the rows they select are the next rows to be read, in order.
\<close>

definition loop_result ::
  "multislice \<Rightarrow> hsize \<Rightarrow> (hsize \<times> hsize) list \<Rightarrow> hsize \<Rightarrow> multislice \<Rightarrow> (hsize \<times> hsize) list \<Rightarrow> hsize \<Rightarrow> bool" where
  "loop_result ms left sels n ms' new n' \<longleftrightarrow>
     ms_ok ms' \<and> ms_request ms' = ms_request ms \<and>
     remaining ms = sel_rows new @ remaining ms' \<and>
     unat n' = unat n + length (sel_rows new) \<and>
     length (sel_rows new) \<le> unat left \<and>
     unat (ms_elements_left_total ms) = unat (ms_elements_left_total ms') + length (sel_rows new) \<and>
     length new \<le> MAX_SELECTIONS_PER_BUFFER - length sels \<and>
     (0 < left \<and> length sels < MAX_SELECTIONS_PER_BUFFER \<longrightarrow> sel_rows new \<noteq> [])"

lemma loop_result_stop:
  "ms_ok ms \<Longrightarrow> \<not> (left > 0 \<and> length sels < MAX_SELECTIONS_PER_BUFFER) \<Longrightarrow> loop_result ms left sels n ms [] n"
  by (auto simp: loop_result_def)

lemma loop_result_step:
  assumes ok: "ms_ok ms" and lt: "ms_slice_nr ms < ms_nr_slices ms"
    and k: "k = min_size (ms_counts ms ! (ms_slice_nr ms * ms_rank ms) - ms_offset_in_slice ms) left"
    and kt: "k \<le> ms_elements_left_total ms" and n: "unat n + unat left < 2 ^ 64"
    and "length sels < MAX_SELECTIONS_PER_BUFFER"
    and r: "loop_result ((take_rows ms k)\<lparr>ms_elements_left_total := ms_elements_left_total ms - k\<rparr>) (left - k) sels' (n + k) ms' new n'"
    and s: "sel = (ms_starts ms ! (ms_slice_nr ms * ms_rank ms) + ms_offset_in_slice ms, k)"
    and s': "sels' = (if k > 0 then sels @ [sel] else sels)"
  shows "loop_result ms left sels n ms' (if k > 0 then sel # new else new) n'"
proof -
  let ?ct = "ms_counts ms ! (ms_slice_nr ms * ms_rank ms)"
  let ?st = "ms_starts ms ! (ms_slice_nr ms * ms_rank ms)"
  let ?off = "ms_offset_in_slice ms"
  have le: "unat ?off \<le> unat ?ct" and nw: "unat ?st + unat ?ct < 2 ^ 64"
    using ok lt by (auto simp: ms_ok_def word_less_nat_alt)
  have uk: "unat k = min (unat ?ct - unat ?off) (unat left)"
    using le by (simp add: k unat_sub word_le_nat_alt)
  have st: "unat (?st + ?off) = unat ?st + unat ?off"
    using le nw by (simp add: unat_word_ariths)
  have ul: "unat (left - k) = unat left - unat k" "unat (n + k) = unat n + unat k"
    "unat (ms_elements_left_total ms - k) = unat (ms_elements_left_total ms) - unat k"
    using uk n kt by (simp_all add: unat_sub word_le_nat_alt unat_word_ariths)
  have rows: "remaining ms = [unat (?st + ?off)..<unat (?st + ?off) + unat k] @ remaining (take_rows ms k)"
    using take_rows_ok(2) [OF ok lt, of k] uk st by simp
  have k0: "k > 0 \<longleftrightarrow> unat k > 0" by (simp add: word_less_nat_alt)
  have "unat k \<le> unat (ms_elements_left_total ms)" "unat k \<le> unat left"
    using kt uk by (simp_all add: word_le_nat_alt)
  moreover have "\<not> k > 0 \<Longrightarrow> left - k = left" by (simp add: k0 unat_eq_0)
  ultimately show ?thesis
    using r rows ul assms(6) k0 unfolding loop_result_def s'
    by (cases "k > 0") (auto simp: s)
qed

lemma select_loop_rows:
  assumes "ms_ok ms" "unat left \<le> length (remaining ms)" "left \<le> ms_elements_left_total ms"
    and "unat n + unat left < 2 ^ 64"
  shows "\<exists>ms' new n'. select_loop ms left sels n = Some (ms', sels @ new, n') \<and> loop_result ms left sels n ms' new n'"
  using assms
proof (induction "(ms_nr_slices ms - ms_slice_nr ms) + unat left" arbitrary: ms left sels n rule: less_induct)
  case less
  show ?case
  proof (cases "left > 0 \<and> length sels < MAX_SELECTIONS_PER_BUFFER")
    case False
    then show ?thesis
      using loop_result_stop [OF less.prems(1) False] by (auto simp: select_loop.simps [of ms left])
  next
    case True
    have "remaining ms \<noteq> []" using True less.prems(2) by (auto simp: word_less_nat_alt)
    then have lt: "ms_slice_nr ms < ms_nr_slices ms" using remaining_done less.prems(1) by blast
    define k where k: "k = min_size (ms_counts ms ! (ms_slice_nr ms * ms_rank ms) - ms_offset_in_slice ms) left"
    have kl: "k \<le> left" "k \<le> ms_elements_left_total ms"
      using less.prems(3) by (auto simp: k min_size_def)
    let ?ms = "(take_rows ms k)\<lparr>ms_elements_left_total := ms_elements_left_total ms - k\<rparr>"
    let ?sel = "(ms_starts ms ! (ms_slice_nr ms * ms_rank ms) + ms_offset_in_slice ms, k)"
    let ?sels = "if k > 0 then sels @ [?sel] else sels"
    note step = select_loop_step [OF _ _ lt k kl(2), of sels n]
    have uk: "unat k \<le> unat (ms_counts ms ! (ms_slice_nr ms * ms_rank ms)) - unat (ms_offset_in_slice ms)"
      using less.prems(1) lt by (auto simp: k ms_ok_def unat_sub word_le_nat_alt word_less_nat_alt)
    note t = take_rows_ok [OF less.prems(1) lt uk]
    have ukl: "unat (left - k) = unat left - unat k" "unat k \<le> unat left"
      using kl by (simp_all add: unat_sub word_le_nat_alt)
    have "ms_nr_slices ?ms - ms_slice_nr ?ms + unat (left - k) < ms_nr_slices ms - ms_slice_nr ms + unat left"
      by (rule take_rows_measure [OF less.prems(1) lt k]) (use True in simp)
    moreover have "ms_ok ?ms" "unat (left - k) \<le> length (remaining ?ms)" "left - k \<le> ms_elements_left_total ?ms"
        "unat (n + k) + unat (left - k) < 2 ^ 64"
      using t(1) arg_cong [OF t(2), of length] less.prems(2-4) ukl kl
      by (auto simp: word_le_nat_alt unat_sub unat_word_ariths)
    ultimately obtain ms' new n' where IH: "select_loop ?ms (left - k) ?sels (n + k) = Some (ms', ?sels @ new, n')"
        "loop_result ?ms (left - k) ?sels (n + k) ms' new n'"
      using less.hyps [of ?ms "left - k" "n + k" ?sels] by blast
    show ?thesis
      using loop_result_step [OF less.prems(1) lt k kl(2) less.prems(4) _ IH(2) refl refl] True step IH(1)
      by (intro exI [of _ ms'] exI [of _ "if k > 0 then ?sel # new else new"] exI [of _ n']) auto
  qed
qed

section \<open>The rows of a request\<close>

text \<open>
  The rows a request asks for, in the order of its slices, when no other dimension is empty.
  no_wrap says that the end of a slice in dimension 0 is a 64-bit number.
\<close>

definition requested_rows :: "nat \<Rightarrow> nat \<Rightarrow> hsize list \<Rightarrow> hsize list \<Rightarrow> nat list" where
  "requested_rows rank nr_slices starts counts =
     (if \<exists>i \<in> {1..<rank}. counts ! i = 0 then []
      else concat (map (slice_seg rank starts counts) [0..<nr_slices]))"

definition no_wrap :: "nat \<Rightarrow> nat \<Rightarrow> hsize list \<Rightarrow> hsize list \<Rightarrow> bool" where
  "no_wrap rank nr_slices starts counts \<longleftrightarrow>
     (\<forall>s < nr_slices. unat (starts ! (s * rank)) + unat (counts ! (s * rank)) < 2 ^ 64)"

lemma init_cases:
  assumes "multislice_init rank nr starts counts epb dims = Some ms"
  shows "0 \<le> rank" "rank \<le> 32" "1 \<le> nr" "nr \<le> 16777216"
    and "0 < rank \<Longrightarrow> s < nat nr \<Longrightarrow> slice_in_file (nat rank) starts counts dims s"
    and "0 < rank \<Longrightarrow> Suc s < nat nr \<Longrightarrow> slice_follows (nat rank) starts counts (Suc s)"
  using assms
  by (auto simp: multislice_init_def Let_def HDFSTREAM_MAX_DIMS_def HDFSTREAM_MAX_SLICES_def list_all_iff split: if_splits)

lemma slice_order:
  assumes i: "multislice_init rank nr starts counts epb dims = Some ms" and r: "0 < rank"
    and nw: "no_wrap (nat rank) (nat nr) starts counts" and s: "Suc s < nat nr"
  shows "unat (starts ! (s * nat rank)) + unat (counts ! (s * nat rank)) \<le> unat (starts ! (Suc s * nat rank))"
proof -
  have "unat (starts ! (s * nat rank)) + unat (counts ! (s * nat rank)) < 2 ^ 64"
    using nw s by (auto simp: no_wrap_def)
  then have "unat (starts ! (s * nat rank) + counts ! (s * nat rank)) = unat (starts ! (s * nat rank)) + unat (counts ! (s * nat rank))"
    by (simp add: unat_word_ariths)
  moreover have "\<not> starts ! (s * nat rank) + counts ! (s * nat rank) > starts ! (Suc s * nat rank)"
    using init_cases(6) [OF i r s] by (simp add: slice_follows_def Let_def mult.commute)
  ultimately show ?thesis by (simp add: word_less_nat_alt not_less)
qed


text \<open>The rows of the first m slices ascend and end before the end of the last of them.\<close>

lemma rows_sorted:
  assumes i: "multislice_init rank nr starts counts epb dims = Some ms" and r: "0 < rank"
    and nw: "no_wrap (nat rank) (nat nr) starts counts"
  shows "m \<le> nat nr \<Longrightarrow>
    sorted_wrt (<) (concat (map (slice_seg (nat rank) starts counts) [0..<m])) \<and>
    (\<forall>x \<in> set (concat (map (slice_seg (nat rank) starts counts) [0..<m])).
       0 < m \<and> x < unat (starts ! ((m - 1) * nat rank)) + unat (counts ! ((m - 1) * nat rank)))"
proof (induction m)
  case 0
  then show ?case by simp
next
  case (Suc m)
  show ?case
  proof (cases m)
    case 0
    then show ?thesis by (simp add: slice_seg_def)
  next
    case (Suc m')
    have o: "unat (starts ! (m' * nat rank)) + unat (counts ! (m' * nat rank)) \<le> unat (starts ! (m * nat rank))"
      using slice_order [OF i r nw, of m'] Suc.prems Suc by simp
    define R where "R = concat (map (slice_seg (nat rank) starts counts) [0..<m])"
    have R: "concat (map (slice_seg (nat rank) starts counts) [0..<Suc m]) = R @ slice_seg (nat rank) starts counts m"
      by (simp add: R_def)
    have IH: "sorted_wrt (<) R" "\<forall>x \<in> set R. x < unat (starts ! (m' * nat rank)) + unat (counts ! (m' * nat rank))"
      using Suc.IH Suc.prems Suc unfolding R_def [symmetric] by auto
    then have "\<forall>x \<in> set R. x < unat (starts ! (m * nat rank))" using o by fastforce
    then show ?thesis
      using IH(1) unfolding R sorted_wrt_append by fastforce
  qed
qed

lemma sorted_below_length: "sorted_wrt (<) (xs :: nat list) \<Longrightarrow> \<forall>x \<in> set xs. x < b \<Longrightarrow> length xs \<le> b"
proof -
  assume s: "sorted_wrt (<) xs" and b: "\<forall>x \<in> set xs. x < b"
  have "length xs = card (set xs)" using s by (simp add: distinct_card strict_sorted_iff)
  also have "\<dots> \<le> card {..<b}" using b by (intro card_mono) auto
  finally show ?thesis by simp
qed

text \<open>The sum of the counts does not wrap, so the number of elements left is the number of rows.\<close>

lemma total_count_rows:
  assumes i: "multislice_init rank nr starts counts epb dims = Some ms" and r: "0 < rank"
    and nw: "no_wrap (nat rank) (nat nr) starts counts"
  shows "m \<le> nat nr \<Longrightarrow> unat (fold (\<lambda>i t. t + counts ! (i * nat rank)) [0..<m] 0) =
    length (concat (map (slice_seg (nat rank) starts counts) [0..<m]))"
proof (induction m)
  case 0
  then show ?case by simp
next
  case (Suc m)
  let ?rows = "\<lambda>m. concat (map (slice_seg (nat rank) starts counts) [0..<m])"
  have "length (?rows (Suc m)) \<le> unat (starts ! (m * nat rank)) + unat (counts ! (m * nat rank))"
    using rows_sorted [OF i r nw Suc.prems] by (intro sorted_below_length) auto
  also have "\<dots> < 2 ^ 64" using nw Suc.prems by (auto simp: no_wrap_def)
  finally have "length (?rows m) + unat (counts ! (m * nat rank)) < 2 ^ 64" by simp
  then show ?case using Suc.IH Suc.prems by (simp add: unat_word_ariths)
qed

section \<open>Calling the iterator until it ends\<close>

text \<open>
  reading rows n ms: n of the rows have been read.  The iterator holds the other ones, unless
  there is nothing to read.
\<close>

definition reading :: "nat list \<Rightarrow> nat \<Rightarrow> multislice \<Rightarrow> bool" where
  "reading rows n ms \<longleftrightarrow>
     n \<le> length rows \<and> unat (ms_elements_left_total ms) = length rows - n \<and>
     (ms_elements_left_total ms \<noteq> 0 \<longrightarrow> ms_ok ms \<and> remaining ms = drop n rows)"

lemma init_eq:
  assumes "multislice_init rank nr starts counts epb dims = Some ms" "0 < rank"
  shows "ms = (let total_count = fold (\<lambda>i t. t + counts ! (i * nat rank)) [0..<nat nr] 0 # map ((!) counts) [1..<nat rank] in
     \<lparr>ms_rank = nat rank, ms_nr_slices = nat nr, ms_starts = starts, ms_counts = counts,
      ms_elements_per_buffer = epb,
      ms_elements_left_total = (if list_all (\<lambda>c. c \<noteq> 0) total_count then total_count ! 0 else 0),
      ms_slice_nr = 0, ms_offset_in_slice = 0, ms_total_count = total_count,
      ms_start = 0 # map ((!) starts) [1..<nat rank], ms_count = 0 # map ((!) counts) [1..<nat rank]\<rparr>)"
  using assms unfolding multislice_init_def Let_def by (simp split: if_split_asm) auto

lemma init_fields:
  assumes "multislice_init rank nr starts counts epb dims = Some ms" "0 < rank"
  shows "ms_rank ms = nat rank" "ms_nr_slices ms = nat nr" "ms_starts ms = starts" "ms_counts ms = counts"
    and "ms_slice_nr ms = 0" "ms_offset_in_slice ms = 0" "ms_elements_per_buffer ms = epb"
    and "ms_start ms = 0 # map ((!) starts) [1..<nat rank]" "ms_count ms = 0 # map ((!) counts) [1..<nat rank]"
    and "ms_elements_left_total ms =
      (let t = fold (\<lambda>i t. t + counts ! (i * nat rank)) [0..<nat nr] 0
       in if \<exists>i \<in> {1..<nat rank}. counts ! i = 0 then 0 else t)"
    and "ms_total_count ms = fold (\<lambda>i t. t + counts ! (i * nat rank)) [0..<nat nr] 0 # map ((!) counts) [1..<nat rank]"
  by (auto simp: init_eq [OF assms] Let_def list_all_iff)

lemma init_reading:
  assumes i: "multislice_init rank nr starts counts epb dims = Some ms" and r: "0 < rank"
    and nw: "no_wrap (nat rank) (nat nr) starts counts"
  shows "reading (requested_rows (nat rank) (nat nr) starts counts) 0 ms"
proof -
  note f = init_fields [OF i r]
  have "ms_ok ms"
    using nw r by (auto simp: ms_ok_def f no_wrap_def)
  moreover have "remaining ms = concat (map (slice_seg (nat rank) starts counts) [0..<nat nr])"
    by (simp add: remaining_def slice_rows_def f)
  ultimately show ?thesis
    using total_count_rows [OF i r nw order_refl]
    by (auto simp: reading_def requested_rows_def f(10) Let_def)
qed

text \<open>
  The selection of a batch: all points whose row is in the batch and whose other coordinates are
  in the slab that the slices share.
\<close>

definition batch_points :: "nat \<Rightarrow> hsize list \<Rightarrow> hsize list \<Rightarrow> nat list \<Rightarrow> point set" where
  "batch_points rank starts counts rows =
     {p. length p = rank \<and> p ! 0 \<in> set rows \<and>
         (\<forall>i \<in> {1..<rank}. unat (starts ! i) \<le> p ! i \<and> p ! i < unat (starts ! i) + unat (counts ! i))}"

lemma all_less_two: "(\<forall>s < nat 2. P s) \<longleftrightarrow> P 0 \<and> P (Suc 0)"
  by (auto simp: numeral_2_eq_2 less_Suc_eq)

lemma nth_tail: "Suc 0 \<le> i \<Longrightarrow> i < r \<Longrightarrow> map ((!) xs) [Suc 0..<r] ! (i - Suc 0) = xs ! i"
  by simp

lemma slabs_batch:
  assumes "0 < rank"
  shows "slabs (0 # map ((!) starts) [1..<rank]) (0 # map ((!) counts) [1..<rank]) sels = batch_points rank starts counts (sel_rows sels)"
proof -
  have all: "(\<forall>i < rank. P i) \<longleftrightarrow> P 0 \<and> (\<forall>i \<in> {1..<rank}. P i)" for P
    using assms by (metis One_nat_def Suc_leI atLeastLessThan_iff not_gr_zero)
  have "box (x # map ((!) starts) [1..<rank]) (c # map ((!) counts) [1..<rank]) = batch_points rank starts counts [unat x..<unat x + unat c]" for x c
    using assms by (auto simp: box_def batch_points_def all nth_tail simp del: nth_map)
  then show ?thesis by (auto simp: slabs_def slab_def sel_rows_def batch_points_def)
qed

lemma ms_request_fields:
  assumes "ms_request ms' = ms_request ms"
  shows "ms_rank ms' = ms_rank ms" "ms_start ms' = ms_start ms" "ms_count ms' = ms_count ms"
    and "ms_elements_per_buffer ms' = ms_elements_per_buffer ms"
  using arg_cong [OF assms, of ms_rank] arg_cong [OF assms, of ms_start] arg_cong [OF assms, of ms_count]
    arg_cong [OF assms, of ms_elements_per_buffer]
  by (simp_all add: ms_request_def)

text \<open>One call, from a state in which n rows have been read.\<close>

definition batch :: "nat list \<Rightarrow> nat \<Rightarrow> hsize \<Rightarrow> nat list" where
  "batch rows n k = take (unat k) (drop n rows)"

lemma next_end:
  assumes "reading rows n ms" "n = length rows"
  shows "multislice_select_next_buffer_data lib debug ms sid w = Some (1, ms, 0, w)"
proof -
  have "ms_elements_left_total ms = 0" using assms by (simp add: reading_def unat_eq_0)
  then show ?thesis by (simp add: multislice_select_next_buffer_data_def)
qed

lemma next_loop:
  assumes rd: "reading rows n ms" and lt: "n < length rows" and b: "ms_elements_per_buffer ms \<noteq> 0"
  obtains ms' sels k where
    "select_loop ms (min_size (ms_elements_per_buffer ms) (ms_elements_left_total ms)) [] 0 = Some (ms', sels, k)"
    "reading rows (n + unat k) ms'" "ms_request ms' = ms_request ms"
    "sel_rows sels = batch rows n k" "0 < k" "k \<le> ms_elements_per_buffer ms" "n + unat k \<le> length rows"
    "length sels \<le> MAX_SELECTIONS_PER_BUFFER" "0 < ms_rank ms"
proof -
  let ?l = "min_size (ms_elements_per_buffer ms) (ms_elements_left_total ms)"
  have left: "unat (ms_elements_left_total ms) = length rows - n" "ms_elements_left_total ms \<noteq> 0"
    using rd lt by (auto simp: reading_def)
  then have ok: "ms_ok ms" "remaining ms = drop n rows" using rd by (auto simp: reading_def)
  have l: "unat ?l \<le> length (remaining ms)" "?l \<le> ms_elements_left_total ms"
    using ok left by (auto simp: word_le_nat_alt)
  have "unat (0 :: hsize) + unat ?l < 2 ^ 64" by (simp del: unat_min_size) (use unsigned_less [where 'a = nat and w = ?l] in simp)
  from select_loop_rows [OF ok(1) l this, of "[]"] obtain ms' new k where
    s: "select_loop ms ?l [] 0 = Some (ms', [] @ new, k)" and r: "loop_result ms ?l [] 0 ms' new k"
    by blast
  have uk: "unat k = length (sel_rows new)" using r by (simp add: loop_result_def)
  then have rows: "sel_rows new = batch rows n k" "remaining ms' = drop (n + unat k) rows"
    using r ok unfolding loop_result_def batch_def
    by (metis append_eq_conv_conj, metis append_eq_conv_conj drop_drop add.commute)
  have kl: "unat k \<le> unat ?l" "unat (ms_elements_left_total ms) = unat (ms_elements_left_total ms') + unat k"
    using r uk by (auto simp: loop_result_def)
  have "?l > 0" using left b by (auto simp: min_size_def word_neq_0_conv)
  then have "sel_rows new \<noteq> []"
    using r by (auto simp: loop_result_def MAX_SELECTIONS_PER_BUFFER_def)
  then have "0 < k" using uk by (simp add: word_less_nat_alt)
  moreover have "k \<le> ms_elements_per_buffer ms" using kl(1) by (simp add: word_le_nat_alt)
  moreover have "n + unat k \<le> length rows" using kl left lt by simp
  moreover have "reading rows (n + unat k) ms'"
    using kl left lt r rows by (auto simp: reading_def loop_result_def)
  ultimately show thesis
    using that [of ms' new k] s r rows ok by (auto simp: loop_result_def ms_ok_def)
qed

lemma next_batch:
  assumes ok: "h5s_ok lib sp" and P: "sp w sid = Some P"
    and rd: "reading rows n ms" and lt: "n < length rows" and b: "ms_elements_per_buffer ms \<noteq> 0"
  obtains rc ms' k w' Q where
    "multislice_select_next_buffer_data lib debug ms sid w = Some (rc, ms', k, w')"
    "reading rows (n + unat k) ms'" "ms_request ms' = ms_request ms"
    "0 < k" "k \<le> ms_elements_per_buffer ms" "n + unat k \<le> length rows"
    "rc = 0 \<or> rc = -1" "sp w' = (sp w)(sid \<mapsto> Q)"
    "rc = 0 \<longrightarrow> (\<exists>sels. Q = slabs (ms_start ms) (ms_count ms) sels \<and> sel_rows sels = batch rows n k)"
proof -
  obtain ms' sels k where s: "select_loop ms (min_size (ms_elements_per_buffer ms) (ms_elements_left_total ms)) [] 0 = Some (ms', sels, k)"
    "reading rows (n + unat k) ms'" "ms_request ms' = ms_request ms"
    "sel_rows sels = batch rows n k" "0 < k" "k \<le> ms_elements_per_buffer ms" "n + unat k \<le> length rows"
    "length sels \<le> MAX_SELECTIONS_PER_BUFFER" "0 < ms_rank ms"
    using next_loop [OF rd lt b] by blast
  have left: "ms_elements_left_total ms \<noteq> 0" using rd lt by (auto simp: reading_def)
  obtain e w1 where n: "H5Sselect_none lib sid w = (e, w1)" by (cases "H5Sselect_none lib sid w")
  obtain Q1 where Q1: "sp w1 = (sp w)(sid \<mapsto> Q1)" using h5s_none [OF ok P n] by blast
  then have o1: "sp w1 sid = Some Q1" by simp
  obtain e2 w2 where c: "select_slices lib debug sid sels (ms_start ms) (ms_count ms) w1 = (e2, w2)"
    by (cases "select_slices lib debug sid sels (ms_start ms) (ms_count ms) w1")
  obtain Q where Q: "sp w2 = (sp w1)(sid \<mapsto> Q)" "0 \<le> e2 \<longrightarrow> Q = slabs (ms_start ms) (ms_count ms) sels"
    using select_slices_spec [OF ok o1 c] by blast
  have "multislice_select_next_buffer_data lib debug ms sid w = Some (if e2 < 0 then -1 else 0, ms', k, w2)"
    using left s(1,9) n c ms_request_fields [OF s(3)] by (simp add: multislice_select_next_buffer_data_def)
  then show thesis
    using that [of "if e2 < 0 then -1 else 0" ms' k w2 Q] s Q Q1 by (auto split: if_splits)
qed

section \<open>Properties\<close>

text \<open>The states an iterator can be in after a request was accepted, and the number of rows read so far.\<close>

inductive iterating :: "'w h5s \<Rightarrow> ('w \<Rightarrow> hid \<Rightarrow> point set option) \<Rightarrow> bool \<Rightarrow> hid \<Rightarrow> multislice \<Rightarrow> nat \<Rightarrow> multislice \<Rightarrow> bool"
  for lib sp debug sid ms0 where
  start: "iterating lib sp debug sid ms0 0 ms0"
| call: "iterating lib sp debug sid ms0 n ms \<Longrightarrow> sp w sid = Some P \<Longrightarrow>
     multislice_select_next_buffer_data lib debug ms sid w = Some (0, ms', k, w') \<Longrightarrow>
     iterating lib sp debug sid ms0 (n + unat k) ms'"

lemma iterating_reading:
  assumes it: "iterating lib sp debug sid ms0 n ms" and ok: "h5s_ok lib sp"
    and rd: "reading rows 0 ms0" and b: "ms_elements_per_buffer ms0 \<noteq> 0"
  shows "reading rows n ms \<and> ms_request ms = ms_request ms0"
  using it
proof induction
  case start
  then show ?case using rd by simp
next
  case (call n ms w P ms' k w')
  have rd': "reading rows n ms" and eq: "ms_request ms = ms_request ms0" using call by auto
  have b': "ms_elements_per_buffer ms \<noteq> 0" using ms_request_fields(4) [OF eq] b by simp
  have "n \<noteq> length rows"
  proof
    assume "n = length rows"
    then show False using next_end [OF rd', of lib debug sid w] call.hyps(3) by simp
  qed
  then have "n < length rows" using rd' by (simp add: reading_def)
  from next_batch [OF ok call.hyps(2) rd' this b', of debug] call.hyps(3) eq show ?case by fastforce
qed

text \<open>
  C15. The iterator delivers the requested rows in order, without a gap and without repeating one.
  After n rows have been read, a call ends the iteration exactly when n is the number of rows
  requested.  Otherwise it selects in the file dataspace exactly the points of the next rows, at
  least one and at most elements_per_buffer of them (or reports that the library failed).  No
  assertion of the code fails, and because every batch has at least one row the iteration ends.
\<close>

theorem multislice_next_rows:
  assumes "h5s_ok lib sp"
    and "multislice_init rank nr_slices starts counts epb file_dims = Some ms0" and "0 < rank" and "epb \<noteq> 0"
    and "no_wrap (nat rank) (nat nr_slices) starts counts"
    and "rows = requested_rows (nat rank) (nat nr_slices) starts counts"
    and "iterating lib sp debug sid ms0 n ms" and "sp w sid = Some P"
  shows "\<exists>rc ms' k w'. multislice_select_next_buffer_data lib debug ms sid w = Some (rc, ms', k, w') \<and>
    (rc = 1 \<longleftrightarrow> n = length rows) \<and> (rc = 1 \<or> rc = 0 \<or> rc = -1) \<and>
    (rc = 0 \<longrightarrow> 0 < k \<and> k \<le> epb \<and> n + unat k \<le> length rows \<and>
       sp w' sid = Some (batch_points (nat rank) starts counts (take (unat k) (drop n rows))))"
proof -
  note f = init_fields [OF assms(2,3)]
  have rd: "reading rows n ms" and eq: "ms_request ms = ms_request ms0"
    using iterating_reading [OF assms(7,1) init_reading [OF assms(2,3,5)]] assms(4,6) f by auto
  have b: "ms_elements_per_buffer ms = epb" and st: "ms_start ms = 0 # map ((!) starts) [1..<nat rank]"
     "ms_count ms = 0 # map ((!) counts) [1..<nat rank]"
    using ms_request_fields [OF eq] f by simp_all
  show ?thesis
  proof (cases "n = length rows")
    case True
    then show ?thesis using next_end [OF rd True, of lib debug sid w] by simp
  next
    case False
    then have "n < length rows" using rd by (simp add: reading_def)
    from next_batch [OF assms(1,8) rd this, of debug] assms(4) b obtain rc ms' k w' Q where
      c: "multislice_select_next_buffer_data lib debug ms sid w = Some (rc, ms', k, w')"
      "0 < k" "k \<le> epb" "n + unat k \<le> length rows" "rc = 0 \<or> rc = -1" "sp w' = (sp w)(sid \<mapsto> Q)"
      "rc = 0 \<longrightarrow> (\<exists>sels. Q = slabs (ms_start ms) (ms_count ms) sels \<and> sel_rows sels = batch rows n k)"
      by metis
    have "rc = 0 \<Longrightarrow> Q = batch_points (nat rank) starts counts (take (unat k) (drop n rows))"
      using c(7) slabs_batch [of "nat rank" starts counts] assms(3) by (auto simp: st batch_def)
    then show ?thesis
      using c False by (intro exI [of _ rc] exI [of _ ms'] exI [of _ k] exI [of _ w']) auto
  qed
qed

text \<open>Two slices of rows 1..2 and 4..6 of a dataset with eight rows of three columns, two rows at a time.\<close>

definition two_slices :: multislice where
  "two_slices = \<lparr>ms_rank = 2, ms_nr_slices = 2, ms_starts = [1, 0, 4, 0], ms_counts = [2, 3, 3, 3],
     ms_elements_per_buffer = 2, ms_elements_left_total = 5, ms_slice_nr = 0, ms_offset_in_slice = 0,
     ms_total_count = [5, 3], ms_start = [0, 0], ms_count = [0, 3]\<rparr>"

lemma two_slices_init: "multislice_init 2 2 [1, 0, 4, 0] [2, 3, 3, 3] 2 [8, 3] = Some two_slices"
  by code_simp

lemma two_slices_no_wrap: "no_wrap (nat 2) (nat 2) [1, 0, 4, 0] [2, 3, 3, 3]"
  unfolding no_wrap_def all_less_two by simp

lemma two_slices_rows: "requested_rows 2 2 [1, 0, 4, 0] [2, 3, 3, 3] = [1, 2, 4, 5, 6]"
  by code_simp

lemma two_slices_next:
  "(case multislice_select_next_buffer_data mem_lib True two_slices 0 mem_start of
      None \<Rightarrow> False | Some (rc, ms', k, w) \<Rightarrow> rc = 0 \<and> k = 2)"
  by code_simp

theorem multislice_next_rows_witness:
  "\<exists>ms' w'. multislice_select_next_buffer_data mem_lib True two_slices 0 mem_start = Some (0, ms', 2, w') \<and>
     mem_view w' 0 = Some (batch_points 2 [1, 0, 4, 0] [2, 3, 3, 3] [1, 2])"
  using multislice_next_rows [OF mem_lib_ok two_slices_init _ _ two_slices_no_wrap refl iterating.start mem_start_view, of True]
    two_slices_next
  by (auto simp: two_slices_rows split: option.splits)



lemma init_guard:
  "multislice_init rank nr_slices starts counts epb file_dims \<noteq> None \<longleftrightarrow>
     0 \<le> rank \<and> rank \<le> HDFSTREAM_MAX_DIMS \<and> 1 \<le> nr_slices \<and> nr_slices \<le> HDFSTREAM_MAX_SLICES \<and>
     list_all (\<lambda>s. slice_in_file (nat rank) starts counts file_dims s \<and>
                   (if s > 0 then slice_follows (nat rank) starts counts s else True))
       (if rank = 0 then [] else [0..<nat nr_slices])"
  unfolding multislice_init_def Let_def
  by (cases "rank = 0") auto

text \<open>
  Refusals.  A request that multislice_init() accepts has between 0 and 32 dimensions and
  between 1 and HDFSTREAM_MAX_SLICES slices, and the end of each slice, computed as the code
  computes it, is inside the dataset; slices ascend in dimension 0 and are the same in the others.
\<close>

theorem multislice_init_accepts:
  "multislice_init rank nr_slices starts counts epb file_dims \<noteq> None \<longleftrightarrow>
     0 \<le> rank \<and> rank \<le> HDFSTREAM_MAX_DIMS \<and> 1 \<le> nr_slices \<and> nr_slices \<le> HDFSTREAM_MAX_SLICES \<and>
     list_all (\<lambda>s.
       list_all (\<lambda>d. starts ! (nat rank * s + d) + counts ! (nat rank * s + d) \<le> file_dims ! d) [0..<nat rank] \<and>
       (s = 0 \<or>
        starts ! (nat rank * (s - 1)) \<le> starts ! (nat rank * s) \<and>
        starts ! (nat rank * (s - 1)) + counts ! (nat rank * (s - 1)) \<le> starts ! (nat rank * s) \<and>
        list_all (\<lambda>d. starts ! (nat rank * (s - 1) + d) = starts ! (nat rank * s + d) \<and>
                      counts ! (nat rank * (s - 1) + d) = counts ! (nat rank * s + d)) [1..<nat rank]))
       (if rank = 0 then [] else [0..<nat nr_slices])"
proof -
  have "slice_in_file r starts counts file_dims s \<and> (if s > 0 then slice_follows r starts counts s else True) \<longleftrightarrow>
     list_all (\<lambda>d. starts ! (r * s + d) + counts ! (r * s + d) \<le> file_dims ! d) [0..<r] \<and>
       (s = 0 \<or>
        starts ! (r * (s - 1)) \<le> starts ! (r * s) \<and>
        starts ! (r * (s - 1)) + counts ! (r * (s - 1)) \<le> starts ! (r * s) \<and>
        list_all (\<lambda>d. starts ! (r * (s - 1) + d) = starts ! (r * s + d) \<and>
                      counts ! (r * (s - 1) + d) = counts ! (r * s + d)) [1..<r])" for r s
    by (simp add: slice_in_file_def slice_follows_def Let_def not_less)
  note slice = this
  show ?thesis unfolding init_guard unfolding slice by (rule refl)
qed



end
