(* ===== verification/Protocol.thy ===== *)
theory Protocol
  imports WorkerProcess CacheMirror DataStream Multislice
begin

text \<open>
  Requests: how hdfstream_dataset_multi_slice_open() and hdfstream_object_open() of
  src/src/lib/hdfstream.c send a request to a reader process, and how the reader,
  src/src/reader/hdfstream_reader.c, receives and answers it.

  The numbers are sent as they are in memory: a little-endian machine with an int of 4 bytes and
  size_t and hsize_t of 8 bytes.  A name is sent with its terminating zero.
\<close>

section \<open>Values in memory\<close>

definition word_bytes :: "nat \<Rightarrow> 'a::len word \<Rightarrow> byte list" where
  "word_bytes n w = map (\<lambda>i. ucast (drop_bit (8 * i) w)) [0..<n]"

fun bytes_word :: "byte list \<Rightarrow> 'a::len word" where
  "bytes_word [] = 0"
| "bytes_word (b # bs) = or (ucast b) (push_bit 8 (bytes_word bs))"

definition int_bytes :: "int \<Rightarrow> byte list" where
  "int_bytes x = word_bytes 4 (word_of_int x :: 32 word)"

definition bytes_int :: "byte list \<Rightarrow> int" where
  "bytes_int bs = sint (bytes_word bs :: 32 word)"

definition size_bytes :: "nat \<Rightarrow> byte list" where
  "size_bytes n = word_bytes 8 (of_nat n :: 64 word)"

definition bytes_size :: "byte list \<Rightarrow> nat" where
  "bytes_size bs = unat (bytes_word bs :: 64 word)"

definition hsizes_bytes :: "hsize list \<Rightarrow> byte list" where
  "hsizes_bytes hs = concat (map (word_bytes 8) hs)"

fun bytes_hsizes :: "nat \<Rightarrow> byte list \<Rightarrow> hsize list" where
  "bytes_hsizes 0 bs = []"
| "bytes_hsizes (Suc n) bs = bytes_word (take 8 bs) # bytes_hsizes n (drop 8 bs)"

definition string_bytes :: "string \<Rightarrow> byte list" where
  "string_bytes s = map (\<lambda>c. of_nat (of_char c :: nat)) s @ [0]"

definition bytes_string :: "byte list \<Rightarrow> string" where
  "bytes_string bs = map (\<lambda>b. char_of (unat b)) (takeWhile (\<lambda>b. b \<noteq> 0) bs)"

text \<open>A C string, whose length fits into size_t.\<close>

definition c_string :: "string \<Rightarrow> bool" where
  "c_string s \<longleftrightarrow> CHR 0x00 \<notin> set s \<and> length s + 1 < 2 ^ 64"

lemma length_bytes [simp]:
  "length (word_bytes n w) = n" "length (int_bytes x) = 4" "length (size_bytes m) = 8"
  "length (hsizes_bytes hs) = 8 * length hs" "length (string_bytes s) = length s + 1"
  by (simp_all add: word_bytes_def int_bytes_def size_bytes_def hsizes_bytes_def string_bytes_def
      length_concat comp_def sum_list_triv)

lemma bit_bytes_word:
  "bit (bytes_word bs :: 'a::len word) i \<longleftrightarrow>
   i < LENGTH('a) \<and> i < 8 * length bs \<and> bit (bs ! (i div 8)) (i mod 8)"
proof (induction bs arbitrary: i)
  case Nil
  then show ?case by simp
next
  case (Cons b bs)
  show ?case
  proof (cases "i < 8")
    case True
    then show ?thesis by (auto simp: bit_or_iff bit_push_bit_iff bit_ucast_iff)
  next
    case False
    then obtain k where k: "i = 8 + k" using le_Suc_ex not_less by blast
    have "bit b i = False" using False bit_imp_le_length [of b i] by (auto simp: not_less)
    moreover have "(8 + k) div 8 = Suc (k div 8)" "(8 + k) mod 8 = k mod 8" by auto
    ultimately show ?thesis
      using Cons.IH [of k] unfolding k by (auto simp: bit_or_iff bit_push_bit_iff bit_ucast_iff)
  qed
qed

lemma word_bytes_roundtrip:
  assumes "LENGTH('a) \<le> 8 * n"
  shows "bytes_word (word_bytes n w) = (w :: 'a::len word)"
proof (rule bit_eqI)
  fix i assume "possible_bit TYPE('a word) i"
  then have i: "i < LENGTH('a)" by simp
  then have "i div 8 < n" using assms by linarith
  then have "bit (word_bytes n w ! (i div 8)) (i mod 8) = bit w i"
    by (simp add: word_bytes_def bit_ucast_iff bit_drop_bit_eq)
  then show "bit (bytes_word (word_bytes n w) :: 'a word) i = bit w i"
    using i assms by (simp add: bit_bytes_word)
qed

lemma int_roundtrip: "- (2 ^ 31) \<le> x \<Longrightarrow> x < 2 ^ 31 \<Longrightarrow> bytes_int (int_bytes x) = x"
  by (simp add: bytes_int_def int_bytes_def word_bytes_roundtrip int_word_sint)

lemma size_roundtrip: "n < 2 ^ 64 \<Longrightarrow> bytes_size (size_bytes n) = n"
  by (simp add: bytes_size_def size_bytes_def word_bytes_roundtrip unat_of_nat)

lemma hsizes_roundtrip: "bytes_hsizes (length hs) (hsizes_bytes hs) = hs"
  by (induction hs) (simp_all add: hsizes_bytes_def word_bytes_roundtrip)

lemma byte_of_char: "unat (of_nat (of_char c :: nat) :: byte) = of_char c"
  using of_char_mod_256 [of c, where ?'a = nat] by (simp add: unat_of_nat)

lemma string_roundtrip:
  assumes "c_string s"
  shows "bytes_string (string_bytes s) = s"
proof -
  have nz: "(of_nat (of_char c :: nat) :: byte) \<noteq> 0" if "c \<in> set s" for c
  proof
    assume "(of_nat (of_char c :: nat) :: byte) = 0"
    then have "(of_char c :: nat) = of_char (CHR 0x00)"
      using byte_of_char [of c] by simp
    then have "c = CHR 0x00" by (rule of_char_eqI)
    then show False using that assms by (simp add: c_string_def)
  qed
  then have "takeWhile (\<lambda>b. b \<noteq> 0) (string_bytes s) = map (\<lambda>c. of_nat (of_char c :: nat)) s"
    unfolding string_bytes_def by (subst takeWhile_append2) auto
  then show ?thesis by (simp add: bytes_string_def byte_of_char comp_def)
qed

section \<open>The parent\<close>

definition COMMAND_EXIT :: int where "COMMAND_EXIT = 1000"
definition COMMAND_OPEN_DATASET :: int where "COMMAND_OPEN_DATASET = 1001"
definition COMMAND_OPEN_OBJECT :: int where "COMMAND_OPEN_OBJECT = 1002"

record dataset_request =
  dr_file_name :: string
  dr_dataset_name :: string
  dr_rank :: int
  dr_nr_slices :: int
  dr_start :: "hsize list"
  dr_count :: "hsize list"
  dr_buffer_size :: nat

record object_request =
  or_file_name :: string
  or_object_name :: string
  or_max_depth :: int
  or_data_size_limit :: nat
  or_buffer_size :: nat

text \<open>What is sent, one list for each call of worker_process_send().\<close>

definition dataset_messages :: "dataset_request \<Rightarrow> byte list list" where
  "dataset_messages req =
     [int_bytes COMMAND_OPEN_DATASET,
      size_bytes (length (dr_file_name req) + 1), string_bytes (dr_file_name req),
      size_bytes (length (dr_dataset_name req) + 1), string_bytes (dr_dataset_name req),
      int_bytes (dr_rank req), int_bytes (dr_nr_slices req),
      hsizes_bytes (take (nat (dr_nr_slices req * dr_rank req)) (dr_start req)),
      hsizes_bytes (take (nat (dr_nr_slices req * dr_rank req)) (dr_count req)),
      size_bytes (dr_buffer_size req)]"

definition object_messages :: "object_request \<Rightarrow> byte list list" where
  "object_messages req =
     [int_bytes COMMAND_OPEN_OBJECT,
      size_bytes (length (or_file_name req) + 1), string_bytes (or_file_name req),
      size_bytes (length (or_object_name req) + 1), string_bytes (or_object_name req),
      int_bytes (or_max_depth req), size_bytes (or_data_size_limit req), size_bytes (or_buffer_size req)]"

text \<open>The calls check(worker_process_send(...)): the first failure ends the sequence.\<close>

fun send_messages :: "int \<Rightarrow> write_answer list \<Rightarrow> worker_process \<Rightarrow> byte list list \<Rightarrow>
    (worker_process \<times> int \<times> byte list \<times> write_answer list) option" where
  "send_messages st ws wp [] = Some (wp, 0, [], ws)"
| "send_messages st ws wp (m # ms) = do {
     (wp, rc, out, ws) \<leftarrow> worker_process_send st ws wp m;
     (if rc \<noteq> 0 then Some (wp, rc, out, ws)
      else do {
        (wp, rc, out', ws) \<leftarrow> send_messages st ws wp ms;
        Some (wp, rc, out @ out', ws) }) }"

text \<open>
  What the parent keeps for a reader process: the worker, the shadow copy of its cache and the
  shared memory.
\<close>

record reader_handle =
  rh_worker :: worker_process
  rh_cache :: file_cache
  rh_srd :: shared_reader_data

definition start_stream :: "reader_handle \<Rightarrow> reader_handle \<times> data_stream" where
  "start_stream h =
     (h\<lparr>rh_srd := shared_data_init_semaphores ((rh_srd h)\<lparr>srd_status := 0\<rparr>)\<rparr>,
      \<lparr>ds_next_buffer = 0, ds_ended = False\<rparr>)"

text \<open>
  The exchange of a request: the messages are sent and the return code of the reader is received
  from reply, the pipe of its output.  The return code is None when a call failed.
\<close>

definition exchange :: "int \<Rightarrow> write_answer list \<Rightarrow> read_answer list \<Rightarrow> byte list \<Rightarrow> reader_handle \<Rightarrow> byte list list \<Rightarrow>
    (reader_handle \<times> int option \<times> byte list) option" where
  "exchange st ws rs reply h msgs = do {
     (wp, rc, out, ws) \<leftarrow> send_messages st ws (rh_worker h) msgs;
     (if rc \<noteq> 0 then Some (h\<lparr>rh_worker := wp\<rparr>, None, out)
      else do {
        (wp, rc, inp, pipe, rs) \<leftarrow> worker_process_recv st rs wp reply 4;
        Some (h\<lparr>rh_worker := wp\<rparr>, if rc \<noteq> 0 then None else Some (bytes_int inp), out) }) }"

text \<open>
  The result of opening a stream.  Refused and NoWorker return NULL without a worker; Released
  returns NULL after the worker was given back to the pool; Started returns the stream.
\<close>

datatype open_result = Refused | NoWorker | Released reader_handle | Started reader_handle data_stream

definition valid_dataset_request ::
  "string option \<Rightarrow> string option \<Rightarrow> int \<Rightarrow> int \<Rightarrow> hsize list option \<Rightarrow> hsize list option \<Rightarrow> nat \<Rightarrow> bool" where
  "valid_dataset_request file_name dataset_name nr_slices rank starts counts buffer_size \<longleftrightarrow>
     \<not> file_name = None \<and> \<not> dataset_name = None \<and>
     \<not> (rank < 0 \<or> rank > HDFSTREAM_MAX_DIMS) \<and>
     \<not> (nr_slices < 1 \<or> nr_slices > HDFSTREAM_MAX_SLICES) \<and>
     \<not> starts = None \<and> \<not> counts = None \<and> \<not> buffer_size = 0"

text \<open>
  handle is the reader that process_pool_get_worker_by_score() returns, with the shadow cache it is
  scored by; st, ws and rs are the answers of the system and now is the time.  The second result
  is what was sent.
\<close>

definition hdfstream_dataset_multi_slice_open ::
  "int \<Rightarrow> write_answer list \<Rightarrow> read_answer list \<Rightarrow> int \<Rightarrow> byte list \<Rightarrow> reader_handle option \<Rightarrow>
     string option \<Rightarrow> string option \<Rightarrow> int \<Rightarrow> int \<Rightarrow> hsize list option \<Rightarrow> hsize list option \<Rightarrow> nat \<Rightarrow>
     (open_result \<times> byte list) option" where
  "hdfstream_dataset_multi_slice_open st ws rs now reply handle file_name dataset_name nr_slices rank starts counts buffer_size =
     (if \<not> valid_dataset_request file_name dataset_name nr_slices rank starts counts buffer_size then Some (Refused, [])
      else (case handle of
        None \<Rightarrow> Some (NoWorker, [])
      | Some h \<Rightarrow> do {
          let (h, stream) = start_stream h;
          (h, retcode, out) \<leftarrow> exchange st ws rs reply h (dataset_messages
             \<lparr>dr_file_name = the file_name, dr_dataset_name = the dataset_name, dr_rank = rank, dr_nr_slices = nr_slices,
              dr_start = the starts, dr_count = the counts, dr_buffer_size = buffer_size\<rparr>);
          (case retcode of
             None \<Rightarrow> Some (Released h, out)
           | Some retcode \<Rightarrow> do {
               cache \<leftarrow> shadow_dataset_request retcode now (rh_cache h) (the file_name) (the dataset_name);
               let h = h\<lparr>rh_cache := cache\<rparr>;
               Some (if retcode \<noteq> RESULT_FILE_OPENED + RESULT_DATASET_OPENED then Released h else Started h stream, out) }) }))"

definition valid_object_request :: "string option \<Rightarrow> string option \<Rightarrow> int \<Rightarrow> nat \<Rightarrow> bool" where
  "valid_object_request file_name object_name max_depth buffer_size \<longleftrightarrow>
     \<not> file_name = None \<and> \<not> object_name = None \<and> \<not> max_depth < 0 \<and> \<not> buffer_size = 0"

definition hdfstream_object_open ::
  "int \<Rightarrow> write_answer list \<Rightarrow> read_answer list \<Rightarrow> int \<Rightarrow> byte list \<Rightarrow> reader_handle option \<Rightarrow>
     string option \<Rightarrow> string option \<Rightarrow> int \<Rightarrow> nat \<Rightarrow> nat \<Rightarrow> (open_result \<times> byte list) option" where
  "hdfstream_object_open st ws rs now reply handle file_name object_name max_depth buffer_size data_size_limit =
     (if \<not> valid_object_request file_name object_name max_depth buffer_size then Some (Refused, [])
      else (case handle of
        None \<Rightarrow> Some (NoWorker, [])
      | Some h \<Rightarrow> do {
          let (h, stream) = start_stream h;
          (h, retcode, out) \<leftarrow> exchange st ws rs reply h (object_messages
             \<lparr>or_file_name = the file_name, or_object_name = the object_name, or_max_depth = max_depth,
              or_data_size_limit = data_size_limit, or_buffer_size = buffer_size\<rparr>);
          (case retcode of
             None \<Rightarrow> Some (Released h, out)
           | Some retcode \<Rightarrow> do {
               cache \<leftarrow> shadow_object_request retcode now (rh_cache h) (the file_name);
               let h = h\<lparr>rh_cache := cache\<rparr>;
               Some (if \<not> file_bit retcode then Released h else Started h stream, out) }) }))"

section \<open>The reader\<close>

text \<open>
  The pipe of the reader's input, with the answers of read() that are still to come.  recv is a
  call of worker_recv() whose return code is not checked.
\<close>

type_synonym input = "read_answer list \<times> byte list"

definition recv :: "nat \<Rightarrow> input \<Rightarrow> (byte list \<times> input) option" where
  "recv n inp = do {
     (rc, data, pipe, rs) \<leftarrow> worker_recv (fst inp) (snd inp) n;
     (if rc \<noteq> 0 then None else Some (data, (rs, pipe))) }"

definition recv_name :: "input \<Rightarrow> (string \<times> input) option" where
  "recv_name inp = do {
     (len, inp) \<leftarrow> recv 8 inp;
     (name, inp) \<leftarrow> recv (bytes_size len) inp;
     Some (bytes_string name, inp) }"

definition clamp :: "nat \<Rightarrow> nat \<Rightarrow> nat" where
  "clamp limit buffer_size = (if buffer_size > limit then limit else buffer_size)"

definition receive_dataset_request :: "nat \<Rightarrow> input \<Rightarrow> (dataset_request \<times> input) option" where
  "receive_dataset_request limit inp = do {
     (filename, inp) \<leftarrow> recv_name inp;
     (datasetname, inp) \<leftarrow> recv_name inp;
     (rank, inp) \<leftarrow> recv 4 inp;
     (nr_slices, inp) \<leftarrow> recv 4 inp;
     let n = nat (bytes_int rank * bytes_int nr_slices);
     (starts, inp) \<leftarrow> recv (8 * n) inp;
     (counts, inp) \<leftarrow> recv (8 * n) inp;
     (buffer_size, inp) \<leftarrow> recv 8 inp;
     Some (\<lparr>dr_file_name = filename, dr_dataset_name = datasetname, dr_rank = bytes_int rank,
            dr_nr_slices = bytes_int nr_slices, dr_start = bytes_hsizes n starts, dr_count = bytes_hsizes n counts,
            dr_buffer_size = clamp limit (bytes_size buffer_size)\<rparr>, inp) }"

definition receive_object_request :: "nat \<Rightarrow> input \<Rightarrow> (object_request \<times> input) option" where
  "receive_object_request limit inp = do {
     (file_name, inp) \<leftarrow> recv_name inp;
     (object_name, inp) \<leftarrow> recv_name inp;
     (max_depth, inp) \<leftarrow> recv 4 inp;
     (data_size_limit, inp) \<leftarrow> recv 8 inp;
     (buffer_size, inp) \<leftarrow> recv 8 inp;
     Some (\<lparr>or_file_name = file_name, or_object_name = object_name, or_max_depth = bytes_int max_depth,
            or_data_size_limit = bytes_size data_size_limit,
            or_buffer_size = clamp limit (bytes_size buffer_size)\<rparr>, inp) }"

text \<open>
  do_read_dataset() up to the call of the packer: the request is received, the file and the dataset
  are opened through the cache, and the status is sent.  file_opened and ds_opened are the results
  of H5Fopen() and H5Dopen().  The result has the cache, the shared header, the status, the bytes
  sent and, when the packer is called, its chunk buffer, the dataset and the request.
\<close>

definition do_read_dataset ::
  "int \<Rightarrow> int \<Rightarrow> int \<Rightarrow> write_answer list \<Rightarrow> file_cache \<Rightarrow> shared_reader_data \<Rightarrow> input \<Rightarrow>
     (file_cache \<times> shared_reader_data \<times> int \<times> byte list \<times> (msgpack_chunkbuffer \<times> int \<times> dataset_request) option \<times> input) option" where
  "do_read_dataset file_opened ds_opened now ws fc srd inp = do {
     (req, inp) \<leftarrow> receive_dataset_request (srd_buffer_size srd) inp;
     (fc, status, dataset_id) \<leftarrow> reader_open_dataset file_opened ds_opened now fc (dr_file_name req) (dr_dataset_name req);
     let srd = (if file_bit status then srd\<lparr>srd_nr_file_cache_hits := fc_nr_cache_hits fc,
                                             srd_nr_file_cache_misses := fc_nr_cache_misses fc\<rparr> else srd);
     (_, out, ws) \<leftarrow> worker_send ws (int_bytes status);
     Some (fc, srd, status, out,
           if dataset_bit status
           then map_option (\<lambda>cb. (cb, dataset_id, req)) (msgpack_chunkbuffer_init (dr_buffer_size req) srd) else None, inp) }"

text \<open>do_read_object() likewise.\<close>

definition do_read_object ::
  "int \<Rightarrow> int \<Rightarrow> write_answer list \<Rightarrow> file_cache \<Rightarrow> shared_reader_data \<Rightarrow> input \<Rightarrow>
     (file_cache \<times> shared_reader_data \<times> int \<times> byte list \<times> (msgpack_chunkbuffer \<times> object_request) option \<times> input) option" where
  "do_read_object file_opened now ws fc srd inp = do {
     (req, inp) \<leftarrow> receive_object_request (srd_buffer_size srd) inp;
     (fc, status) \<leftarrow> reader_open_object file_opened now fc (or_file_name req);
     let srd = srd\<lparr>srd_nr_file_cache_hits := fc_nr_cache_hits fc, srd_nr_file_cache_misses := fc_nr_cache_misses fc\<rparr>;
     (_, out, ws) \<leftarrow> worker_send ws (int_bytes status);
     Some (fc, srd, status, out,
           if file_bit status
           then map_option (\<lambda>cb. (cb, req)) (msgpack_chunkbuffer_init (or_buffer_size req) srd) else None, inp) }"

text \<open>
  The main loop.  ReadDataset and ReadObject go on with the functions above, Expire calls
  file_cache_expire_entries() and waits again, Leave frees the cache and returns 0, Exit1 is
  exit(1) and Abort is abort().
\<close>

definition main_arguments :: "int \<Rightarrow> int \<Rightarrow> int \<Rightarrow> int \<Rightarrow> int \<Rightarrow> bool" where
  "main_arguments argc max_open_files max_open_datasets check_interval expiry_interval \<longleftrightarrow>
     argc = 5 \<and> \<not> (max_open_files < 1 \<or> max_open_datasets < 1) \<and> \<not> check_interval < 0 \<and> \<not> expiry_interval < 0"

datatype main_action = Expire | Exit1 | ReadDataset | ReadObject | Leave | Abort

definition main_step :: "int \<Rightarrow> int \<Rightarrow> int option list \<Rightarrow> input \<Rightarrow> (main_action \<times> input) option" where
  "main_step check_interval expiry_interval polls inp = do {
     let timed = check_interval > 0 \<and> expiry_interval > 0;
     (result, data, pipe, rs) \<leftarrow>
       (if timed then worker_recv_with_timeout polls (fst inp) (snd inp) 4 else worker_recv (fst inp) (snd inp) 4);
     let command = bytes_int data;
     Some (if timed \<and> result > 0 then Expire
           else if result < 0 then Exit1
           else if command = COMMAND_OPEN_DATASET then ReadDataset
           else if command = COMMAND_OPEN_OBJECT then ReadObject
           else if command = COMMAND_EXIT then Leave
           else Abort, (rs, pipe)) }"

section \<open>The reader receives what was sent\<close>

lemma send_messages_exact:
  assumes "\<not> wp_is_dead wp"
  shows "writes ws (length (concat msgs) + m) \<Longrightarrow>
    \<exists>ws'. send_messages st ws wp msgs = Some (wp, 0, concat msgs, ws') \<and> writes ws' m"
proof (induction msgs arbitrary: ws)
  case Nil
  then show ?case by simp
next
  case (Cons msg msgs)
  have "writes ws (length msg + (length (concat msgs) + m))" using Cons.prems by (simp add: add.assoc)
  from worker_process_send_exact [OF this assms] obtain ws1 where
    1: "worker_process_send st ws wp msg = Some (wp, 0, msg, ws1)" "writes ws1 (length (concat msgs) + m)"
    by blast
  from Cons.IH [OF 1(2)] 1(1) show ?case by auto
qed

lemma recv_exact:
  assumes "reads rs (n + m)" "length d = n"
  obtains rs' where "recv n (rs, d @ rest) = Some (d, (rs', rest))" "reads rs' m"
proof -
  obtain rs' where "worker_recv rs (d @ rest) n = Some (0, take n (d @ rest), drop n (d @ rest), rs')" "reads rs' m"
    by (rule worker_recv_exact [OF assms(1), of "d @ rest"]) (simp add: assms(2), rule that)
  then show thesis using that [of rs'] assms(2) by (simp add: recv_def)
qed

lemma recv_name_exact:
  assumes "reads rs (length s + 9 + m)" "c_string s"
  obtains rs' where "recv_name (rs, size_bytes (length s + 1) @ string_bytes s @ rest) = Some (s, (rs', rest))" "reads rs' m"
proof -
  have l: "bytes_size (size_bytes (length s + 1)) = length s + 1"
    using assms(2) by (intro size_roundtrip) (simp add: c_string_def)
  have "length s + 9 + m = 8 + (length s + 1 + m)" by simp
  with assms(1) have "reads rs (8 + (length s + 1 + m))" by (simp only:)
  then obtain rs1 where 1: "recv 8 (rs, size_bytes (length s + 1) @ string_bytes s @ rest) =
      Some (size_bytes (length s + 1), (rs1, string_bytes s @ rest))" "reads rs1 (length s + 1 + m)"
    by (rule recv_exact) (rule length_bytes)
  from 1(2) obtain rs2 where 2: "recv (length s + 1) (rs1, string_bytes s @ rest) = Some (string_bytes s, (rs2, rest))" "reads rs2 m"
    by (rule recv_exact) (rule length_bytes)
  show thesis using that [of rs2] 1(1) 2 l string_roundtrip [OF assms(2)] by (simp add: recv_name_def)
qed

text \<open>The requests that the parent sends.\<close>

definition dataset_request_ok :: "dataset_request \<Rightarrow> bool" where
  "dataset_request_ok req \<longleftrightarrow>
     c_string (dr_file_name req) \<and> c_string (dr_dataset_name req) \<and>
     0 \<le> dr_rank req \<and> dr_rank req \<le> HDFSTREAM_MAX_DIMS \<and>
     1 \<le> dr_nr_slices req \<and> dr_nr_slices req \<le> HDFSTREAM_MAX_SLICES \<and>
     length (dr_start req) = nat (dr_rank req * dr_nr_slices req) \<and>
     length (dr_count req) = nat (dr_rank req * dr_nr_slices req) \<and>
     0 < dr_buffer_size req \<and> dr_buffer_size req < 2 ^ 64"

definition object_request_ok :: "object_request \<Rightarrow> bool" where
  "object_request_ok req \<longleftrightarrow>
     c_string (or_file_name req) \<and> c_string (or_object_name req) \<and>
     0 \<le> or_max_depth req \<and> or_max_depth req < 2 ^ 31 \<and> or_data_size_limit req < 2 ^ 64 \<and>
     0 < or_buffer_size req \<and> or_buffer_size req < 2 ^ 64"

lemma receive_dataset_exact:
  assumes ok: "dataset_request_ok req" and rd: "reads rs (length (concat (tl (dataset_messages req))) + m)"
  shows "\<exists>rs'. receive_dataset_request limit (rs, concat (tl (dataset_messages req)) @ rest) =
      Some (req\<lparr>dr_buffer_size := clamp limit (dr_buffer_size req)\<rparr>, (rs', rest)) \<and> reads rs' m"
proof -
  let ?n = "nat (dr_rank req * dr_nr_slices req)"
  let ?S = "hsizes_bytes (dr_start req)" and ?C = "hsizes_bytes (dr_count req)"
  let ?f = "dr_file_name req" and ?d = "dr_dataset_name req"
  let ?T6 = "size_bytes (dr_buffer_size req) @ rest"
  let ?T5 = "?C @ ?T6"
  let ?T4 = "?S @ ?T5"
  let ?T3 = "int_bytes (dr_nr_slices req) @ ?T4"
  let ?T2 = "int_bytes (dr_rank req) @ ?T3"
  let ?T1 = "size_bytes (length ?d + 1) @ string_bytes ?d @ ?T2"
  have names: "c_string ?f" "c_string ?d" and len: "length (dr_start req) = ?n" "length (dr_count req) = ?n"
    using ok by (simp_all add: dataset_request_ok_def)
  have ints: "bytes_int (int_bytes (dr_rank req)) = dr_rank req" "bytes_int (int_bytes (dr_nr_slices req)) = dr_nr_slices req"
    using ok by (auto intro!: int_roundtrip simp: dataset_request_ok_def HDFSTREAM_MAX_DIMS_def HDFSTREAM_MAX_SLICES_def)
  have size: "bytes_size (size_bytes (dr_buffer_size req)) = dr_buffer_size req"
    using ok by (simp add: dataset_request_ok_def size_roundtrip)
  have c: "concat (tl (dataset_messages req)) =
      size_bytes (length ?f + 1) @ string_bytes ?f @ size_bytes (length ?d + 1) @ string_bytes ?d @
      int_bytes (dr_rank req) @ int_bytes (dr_nr_slices req) @ ?S @ ?C @ size_bytes (dr_buffer_size req)"
    using len by (simp add: dataset_messages_def mult.commute)
  have "length (concat (tl (dataset_messages req))) + m =
      length ?f + 9 + (length ?d + 9 + (4 + (4 + (8 * ?n + (8 * ?n + (8 + m))))))"
    unfolding c by (simp add: len)
  with rd have "reads rs (length ?f + 9 + (length ?d + 9 + (4 + (4 + (8 * ?n + (8 * ?n + (8 + m)))))))"
    by (simp only:)
  then obtain rs1 where 1: "recv_name (rs, size_bytes (length ?f + 1) @ string_bytes ?f @ ?T1) = Some (?f, (rs1, ?T1))"
      "reads rs1 (length ?d + 9 + (4 + (4 + (8 * ?n + (8 * ?n + (8 + m))))))"
    by (rule recv_name_exact) (rule names)
  from 1(2) obtain rs2 where 2: "recv_name (rs1, ?T1) = Some (?d, (rs2, ?T2))"
      "reads rs2 (4 + (4 + (8 * ?n + (8 * ?n + (8 + m)))))"
    by (rule recv_name_exact) (rule names)
  from 2(2) obtain rs3 where 3: "recv 4 (rs2, ?T2) = Some (int_bytes (dr_rank req), (rs3, ?T3))"
      "reads rs3 (4 + (8 * ?n + (8 * ?n + (8 + m))))"
    by (rule recv_exact) (rule length_bytes)
  from 3(2) obtain rs4 where 4: "recv 4 (rs3, ?T3) = Some (int_bytes (dr_nr_slices req), (rs4, ?T4))"
      "reads rs4 (8 * ?n + (8 * ?n + (8 + m)))"
    by (rule recv_exact) (rule length_bytes)
  from 4(2) obtain rs5 where 5: "recv (8 * ?n) (rs4, ?T4) = Some (?S, (rs5, ?T5))"
      "reads rs5 (8 * ?n + (8 + m))"
    by (rule recv_exact [where d = "?S"]) (simp only: length_bytes len)
  from 5(2) obtain rs6 where 6: "recv (8 * ?n) (rs5, ?T5) = Some (?C, (rs6, ?T6))" "reads rs6 (8 + m)"
    by (rule recv_exact [where d = "?C"]) (simp only: length_bytes len)
  from 6(2) obtain rs7 where 7: "recv 8 (rs6, ?T6) = Some (size_bytes (dr_buffer_size req), (rs7, rest))" "reads rs7 m"
    by (rule recv_exact) (rule length_bytes)
  have hs: "bytes_hsizes ?n ?S = dr_start req" "bytes_hsizes ?n ?C = dr_count req"
    using hsizes_roundtrip [of "dr_start req"] hsizes_roundtrip [of "dr_count req"] len by simp_all
  have "receive_dataset_request limit (rs, size_bytes (length ?f + 1) @ string_bytes ?f @ ?T1) =
      Some (req\<lparr>dr_buffer_size := clamp limit (dr_buffer_size req)\<rparr>, (rs7, rest))"
    unfolding receive_dataset_request_def
    by (simp only: 1(1) 2(1) 3(1) 4(1) 5(1) 6(1) 7(1) bind.bind_lunit prod.case Let_def ints hs size) simp
  then show ?thesis using 7(2) c by auto
qed

lemma receive_object_exact:
  assumes ok: "object_request_ok req" and rd: "reads rs (length (concat (tl (object_messages req))) + m)"
  shows "\<exists>rs'. receive_object_request limit (rs, concat (tl (object_messages req)) @ rest) =
      Some (req\<lparr>or_buffer_size := clamp limit (or_buffer_size req)\<rparr>, (rs', rest)) \<and> reads rs' m"
proof -
  let ?f = "or_file_name req" and ?d = "or_object_name req"
  let ?T4 = "size_bytes (or_buffer_size req) @ rest"
  let ?T3 = "size_bytes (or_data_size_limit req) @ ?T4"
  let ?T2 = "int_bytes (or_max_depth req) @ ?T3"
  let ?T1 = "size_bytes (length ?d + 1) @ string_bytes ?d @ ?T2"
  have names: "c_string ?f" "c_string ?d" using ok by (simp_all add: object_request_ok_def)
  have ints: "bytes_int (int_bytes (or_max_depth req)) = or_max_depth req"
    using ok by (auto intro!: int_roundtrip simp: object_request_ok_def)
  have size: "bytes_size (size_bytes (or_buffer_size req)) = or_buffer_size req"
      "bytes_size (size_bytes (or_data_size_limit req)) = or_data_size_limit req"
    using ok by (simp_all add: object_request_ok_def size_roundtrip)
  have c: "concat (tl (object_messages req)) =
      size_bytes (length ?f + 1) @ string_bytes ?f @ size_bytes (length ?d + 1) @ string_bytes ?d @
      int_bytes (or_max_depth req) @ size_bytes (or_data_size_limit req) @ size_bytes (or_buffer_size req)"
    by (simp add: object_messages_def)
  have "length (concat (tl (object_messages req))) + m = length ?f + 9 + (length ?d + 9 + (4 + (8 + (8 + m))))"
    unfolding c by simp
  with rd have "reads rs (length ?f + 9 + (length ?d + 9 + (4 + (8 + (8 + m)))))"
    by (simp only:)
  then obtain rs1 where 1: "recv_name (rs, size_bytes (length ?f + 1) @ string_bytes ?f @ ?T1) = Some (?f, (rs1, ?T1))"
      "reads rs1 (length ?d + 9 + (4 + (8 + (8 + m))))"
    by (rule recv_name_exact) (rule names)
  from 1(2) obtain rs2 where 2: "recv_name (rs1, ?T1) = Some (?d, (rs2, ?T2))" "reads rs2 (4 + (8 + (8 + m)))"
    by (rule recv_name_exact) (rule names)
  from 2(2) obtain rs3 where 3: "recv 4 (rs2, ?T2) = Some (int_bytes (or_max_depth req), (rs3, ?T3))" "reads rs3 (8 + (8 + m))"
    by (rule recv_exact) (rule length_bytes)
  from 3(2) obtain rs4 where 4: "recv 8 (rs3, ?T3) = Some (size_bytes (or_data_size_limit req), (rs4, ?T4))" "reads rs4 (8 + m)"
    by (rule recv_exact) (rule length_bytes)
  from 4(2) obtain rs5 where 5: "recv 8 (rs4, ?T4) = Some (size_bytes (or_buffer_size req), (rs5, rest))" "reads rs5 m"
    by (rule recv_exact) (rule length_bytes)
  have "receive_object_request limit (rs, size_bytes (length ?f + 1) @ string_bytes ?f @ ?T1) =
      Some (req\<lparr>or_buffer_size := clamp limit (or_buffer_size req)\<rparr>, (rs5, rest))"
    unfolding receive_object_request_def
    by (simp only: 1(1) 2(1) 3(1) 4(1) 5(1) bind.bind_lunit prod.case Let_def ints size) simp
  then show ?thesis using 5(2) c by auto
qed

lemma main_step_command:
  assumes "reads rs (4 + m)" and c: "c = COMMAND_OPEN_DATASET \<or> c = COMMAND_OPEN_OBJECT"
  obtains rs' where "main_step 0 e polls (rs, int_bytes c @ rest) =
      Some (if c = COMMAND_OPEN_DATASET then ReadDataset else ReadObject, (rs', rest))" "reads rs' m"
proof -
  obtain rs' where r: "worker_recv rs (int_bytes c @ rest) 4 = Some (0, take 4 (int_bytes c @ rest), drop 4 (int_bytes c @ rest), rs')" "reads rs' m"
    by (rule worker_recv_exact [OF assms(1), of "int_bytes c @ rest"]) (simp, rule that)
  have "bytes_int (int_bytes c) = c"
    using c by (auto intro!: int_roundtrip simp: COMMAND_OPEN_DATASET_def COMMAND_OPEN_OBJECT_def)
  then show thesis using that [of rs'] r c by (auto simp: main_step_def)
qed

lemma dataset_request_received:
  assumes "dataset_request_ok req" "reads rs (length (concat (dataset_messages req)))"
  obtains inp inp' where "main_step 0 e polls (rs, concat (dataset_messages req) @ later) = Some (ReadDataset, inp)"
    "receive_dataset_request limit inp = Some (req\<lparr>dr_buffer_size := clamp limit (dr_buffer_size req)\<rparr>, inp')" "snd inp' = later"
proof -
  let ?tl = "concat (tl (dataset_messages req))"
  have split: "concat (dataset_messages req) = int_bytes COMMAND_OPEN_DATASET @ ?tl"
    by (simp add: dataset_messages_def)
  have "reads rs (4 + (length ?tl + 0))" using assms(2) by (simp add: split)
  then obtain rs1 where m: "main_step 0 e polls (rs, int_bytes COMMAND_OPEN_DATASET @ (?tl @ later)) = Some (ReadDataset, (rs1, ?tl @ later))"
      "reads rs1 (length ?tl + 0)"
    by (rule main_step_command [where c = COMMAND_OPEN_DATASET]) auto
  from receive_dataset_exact [OF assms(1) m(2), of limit later] m(1) that show ?thesis by (auto simp: split)
qed

lemma object_request_received:
  assumes "object_request_ok req" "reads rs (length (concat (object_messages req)))"
  obtains inp inp' where "main_step 0 e polls (rs, concat (object_messages req) @ later) = Some (ReadObject, inp)"
    "receive_object_request limit inp = Some (req\<lparr>or_buffer_size := clamp limit (or_buffer_size req)\<rparr>, inp')" "snd inp' = later"
proof -
  let ?tl = "concat (tl (object_messages req))"
  have split: "concat (object_messages req) = int_bytes COMMAND_OPEN_OBJECT @ ?tl"
    by (simp add: object_messages_def)
  have ne: "COMMAND_OPEN_OBJECT \<noteq> COMMAND_OPEN_DATASET"
    by (simp add: COMMAND_OPEN_OBJECT_def COMMAND_OPEN_DATASET_def)
  have "reads rs (4 + (length ?tl + 0))" using assms(2) by (simp add: split)
  then obtain rs1 where m: "main_step 0 e polls (rs, int_bytes COMMAND_OPEN_OBJECT @ (?tl @ later)) = Some (ReadObject, (rs1, ?tl @ later))"
      "reads rs1 (length ?tl + 0)"
    by (rule main_step_command [where c = COMMAND_OPEN_OBJECT]) (use ne in auto)
  from receive_object_exact [OF assms(1) m(2), of limit later] m(1) that show ?thesis by (auto simp: split)
qed

section \<open>Properties\<close>

text \<open>
  C11. A request for slices of a dataset arrives as it was sent: with any partial writes and reads,
  the reader's main loop takes the command, and do_read_dataset() receives the names, the rank,
  the slices and the buffer size (limited to the size of the shared buffers) and leaves the pipe
  exactly behind the request, so the next command is read from its beginning.
\<close>

theorem dataset_request_roundtrip:
  assumes "dataset_request_ok req" and "\<not> wp_is_dead wp"
    and "writes ws (length (concat (dataset_messages req)))"
    and "reads rs (length (concat (dataset_messages req)))"
  shows "\<exists>out ws' inp inp'. send_messages st ws wp (dataset_messages req) = Some (wp, 0, out, ws') \<and>
    main_step 0 e polls (rs, out @ later) = Some (ReadDataset, inp) \<and>
    receive_dataset_request limit inp = Some (req\<lparr>dr_buffer_size := clamp limit (dr_buffer_size req)\<rparr>, inp') \<and>
    snd inp' = later"
proof -
  obtain ws' where s: "send_messages st ws wp (dataset_messages req) = Some (wp, 0, concat (dataset_messages req), ws')"
    using send_messages_exact [OF assms(2), of ws "dataset_messages req" 0] assms(3) by auto
  show ?thesis
    by (rule dataset_request_received [OF assms(1,4), of e polls later limit], rule exI, rule exI, rule exI, rule exI)
      (intro conjI, rule s)
qed

definition sample_request :: dataset_request where
  "sample_request = \<lparr>dr_file_name = ''f'', dr_dataset_name = ''d'', dr_rank = 1, dr_nr_slices = 1,
     dr_start = [3], dr_count = [2], dr_buffer_size = 4096\<rparr>"

lemma sample_request_ok: "dataset_request_ok sample_request"
  by (simp add: sample_request_def dataset_request_ok_def c_string_def HDFSTREAM_MAX_DIMS_def HDFSTREAM_MAX_SLICES_def)

lemma sample_answers:
  "writes (replicate 60 (Written 3)) (length (concat (dataset_messages sample_request)))"
  "reads (replicate 60 (Got 5)) (length (concat (dataset_messages sample_request)))"
  by code_simp+

theorem dataset_request_roundtrip_witness:
  "\<exists>inp'. receive_dataset_request 1024 (case main_step 0 0 [] (replicate 60 (Got 5),
       concat (dataset_messages sample_request) @ [1, 2]) of Some (_, inp) \<Rightarrow> inp) =
     Some (sample_request\<lparr>dr_buffer_size := 1024\<rparr>, inp') \<and> snd inp' = [1, 2]"
proof -
  have "\<not> wp_is_dead sample_worker" by (simp add: sample_worker_def)
  from dataset_request_roundtrip [OF sample_request_ok this sample_answers, of 0 0 "[]" "[1, 2]" 1024]
  obtain out ws' inp inp' where s: "send_messages 0 (replicate 60 (Written 3)) sample_worker (dataset_messages sample_request) =
      Some (sample_worker, 0, out, ws')"
    and r: "main_step 0 0 [] (replicate 60 (Got 5), out @ [1, 2]) = Some (ReadDataset, inp)"
      "receive_dataset_request 1024 inp = Some (sample_request\<lparr>dr_buffer_size := clamp 1024 (dr_buffer_size sample_request)\<rparr>, inp')"
      "snd inp' = [1, 2]"
    by blast
  have "out = concat (dataset_messages sample_request)"
    using send_messages_exact [of sample_worker "replicate 60 (Written 3)" "dataset_messages sample_request" 0 0] s sample_answers(1)
    by (auto simp: sample_worker_def)
  then show ?thesis using r by (auto simp: clamp_def sample_request_def)
qed

definition sample_object :: object_request where
  "sample_object = \<lparr>or_file_name = ''f'', or_object_name = ''g'', or_max_depth = 2, or_data_size_limit = 10, or_buffer_size = 4096\<rparr>"

lemma sample_object_ok: "object_request_ok sample_object"
  by (simp add: sample_object_def object_request_ok_def c_string_def)

lemma sample_object_answers:
  "writes (replicate 60 (Written 3)) (length (concat (object_messages sample_object)))"
  "reads (replicate 60 (Got 5)) (length (concat (object_messages sample_object)))"
  by code_simp+

end
