(* ===== verification/RingProof.thy ===== *)
theory RingProof
  imports DataStream
begin

text \<open>
  The producer and the consumer keep the shared ring a queue: each piece of code between two
  waits is an operation on the queue, every reachable state satisfies the invariant stream_inv,
  and the properties of a stream (nothing lost or reordered, chunk sizes, no deadlock, the state
  left for the next request) follow from it.
\<close>

section \<open>The pieces of code as queue operations\<close>

lemma ring_tail:
  assumes "ring base S sh R (ring_of qs t)" "length qs < NR_BUFFERS"
  shows "role_ok S sh (slot R (length qs)) t"
  using assms by (simp add: ring_def) (metis nth_ring_of less_irrefl)

lemma ring_head:
  assumes "ring base S sh R (ring_of (q # qs) t)"
  shows "role_ok S sh (slot R 0) (Full q)"
proof -
  have "role_ok S sh (slot R 0) (ring_of (q # qs) t ! 0)" using assms unfolding ring_def by simp
  then show ?thesis using nth_ring_of[of 0 "q # qs" t] by simp
qed

lemma ring_set_tail:
  assumes r: "ring base S sh R (ring_of qs t)" and l: "length qs < NR_BUFFERS" and off: "\<And>b. bd_offset (f b) = bd_offset b"
    and new: "role_ok S (upd_buffer (slot R (length qs)) f sh) (slot R (length qs)) t'"
  shows "ring base S (upd_buffer (slot R (length qs)) f sh) R (ring_of qs t')"
  using ring_upd[OF r l off new] by (simp add: ring_of_update[OF l])

lemma buffer_slot_upd:
  "ring base S sh R rs \<Longrightarrow> buffer (upd_buffer (slot R j) f sh) (slot R j) = f (buffer sh (slot R j))"
  by (simp add: buffer_upd_same ring_length)

lemma wait_free:
  assumes r: "ring base S sh R (ring_of qs Free)" and l: "length qs < NR_BUFFERS"
    and nr: "cb_buffer_nr cb = int (slot R (length qs))"
  obtains sh' where "wait_writable sh cb = Some sh'" "ring base S sh' R (ring_of qs (Held []))"
    "srd_status (sh_srd sh') = srd_status (sh_srd sh)"
proof -
  let ?i = "slot R (length qs)"
  let ?sh = "upd_buffer ?i (bd_ready_for_write_update (\<lambda>_. 0)) sh"
  from ring_tail[OF r l] have b: "bd_ready_for_write (buffer sh ?i) = 1" "bd_ready_for_read (buffer sh ?i) = 0"
    "bd_used (buffer sh ?i) = 0" by simp_all
  have "wait_writable sh cb = Some ?sh" using b nr by (simp add: wait_writable_def sem_trywait_def)
  moreover have "ring base S ?sh R (ring_of qs (Held []))"
    using r l b by (intro ring_set_tail) (simp_all add: buffer_slot_upd[OF r] mem_read_def)
  ultimately show thesis by (rule that) simp
qed

lemma wait_blocked:
  assumes r: "ring base S sh R (ring_of qs Free)" and l: "length qs = NR_BUFFERS"
    and nr: "cb_buffer_nr cb = int (slot R (length qs))"
  shows "wait_writable sh cb = None"
proof -
  from l obtain q qs' where q: "qs = q # qs'" using NR_BUFFERS_pos by (cases qs) auto
  have "bd_ready_for_write (buffer sh (slot R 0)) = 0" using ring_head[OF r[unfolded q]] by simp
  moreover have "cb_buffer_nr cb = int (slot R 0)" using nr l slot_wrap[of R] by simp
  ultimately show ?thesis by (simp add: wait_writable_def sem_trywait_def)
qed

lemma zero_used:
  assumes r: "ring base S sh R (ring_of qs (Held []))" and l: "length qs < NR_BUFFERS"
  shows "ring base S (upd_buffer (slot R (length qs)) (bd_used_update (\<lambda>_. 0)) sh) R (ring_of qs (Held []))"
  using ring_tail[OF r l] r l by (intro ring_set_tail[OF r l]) (simp_all add: buffer_slot_upd[OF r])

lemma write_some_held:
  assumes r: "ring base S sh R (ring_of qs (Held cur))" and l: "length qs < NR_BUFFERS"
    and nr: "cb_buffer_nr cb = int (slot R (length qs))" and S: "cb_buffer_size cb = S" "S < 2 ^ 64"
    and cur: "length cur < S" and b: "b \<noteq> []"
  defines "n \<equiv> min (length b) (S - length cur)"
  obtains sh' where "write_some sh cb b = (sh', drop n b, length cur + n \<ge> S div 2)"
    "ring base S sh' R (ring_of qs (Held (cur @ take n b)))" "srd_status (sh_srd sh') = srd_status (sh_srd sh)"
    "n > 0" "length cur + n \<le> S"
proof -
  let ?i = "slot R (length qs)"
  let ?sh1 = "sh\<lparr>sh_mem := mem_write (sh_mem sh) (bd_offset (buffer sh ?i) + length cur) (take n b)\<rparr>"
  let ?sh2 = "upd_buffer ?i (bd_used_update (\<lambda>u. u + n)) ?sh1"
  from ring_tail[OF r l] have h: "bd_ready_for_write (buffer sh ?i) = 0" "bd_ready_for_read (buffer sh ?i) = 0"
    "bd_used (buffer sh ?i) = length cur" "mem_read (sh_mem sh) (bd_offset (buffer sh ?i)) (length cur) = cur" by simp_all
  have n: "n > 0" "length cur + n \<le> S" using cur b by (auto simp: n_def)
  have ln: "length (take n b) = n" by (simp add: n_def)
  have free: "sub_size_t S (length cur) = S - length cur"
    using S cur by (simp add: sub_size_t_le)
  have old: "mem_read (sh_mem ?sh1) (bd_offset (buffer sh ?i)) (length cur) = cur"
    using h(4) by (simp add: mem_read_write_other)
  have r1: "ring base S ?sh1 R (ring_of qs (Held cur))"
  proof -
    have "ring base S ?sh1 R ((ring_of qs (Held cur))[length qs := Held cur])"
      by (rule ring_write[OF r l _ refl]) (use ln n h old cur in simp_all)
    then show ?thesis by (simp add: ring_of_update[OF l])
  qed
  have new: "mem_read (sh_mem ?sh1) (bd_offset (buffer sh ?i)) (length (cur @ take n b)) = cur @ take n b"
    using old mem_read_write_same[of "sh_mem sh" "bd_offset (buffer sh ?i) + length cur" "take n b"] ln
    by (simp add: mem_read_append)
  have r2: "ring base S ?sh2 R (ring_of qs (Held (cur @ take n b)))"
    by (rule ring_set_tail[OF r1 l]) (use h n new ln in \<open>simp_all add: buffer_slot_upd[OF r1]\<close>)
  have "write_some sh cb b = (?sh2, drop n b, length cur + n \<ge> S div 2)"
  proof -
    have m: "(if S - length cur < length b then S - length cur else length b) = n" by (simp add: n_def)
    have "bd_used (buffer ?sh2 ?i) = length cur + n" using h(3) by (simp add: buffer_slot_upd[OF r1])
    then show ?thesis
      unfolding write_some_def Let_def nr nat_int h(3) S(1) free m by simp
  qed
  with r2 n show thesis by (intro that[of ?sh2]) simp_all
qed

lemma flush_held:
  assumes r: "ring base S sh R (ring_of qs (Held cur))" and l: "length qs < NR_BUFFERS"
    and nr: "cb_buffer_nr cb = int (slot R (length qs))" and st: "srd_status (sh_srd sh) = BUFFER_STATUS_OK" and cur: "cur \<noteq> []"
  obtains sh' where "msgpack_chunkbuffer_flush sh cb = (sh', cb\<lparr>cb_buffer_nr := int (slot R (length (qs @ [cur])))\<rparr>, None)"
    "ring base S sh' R (ring_of (qs @ [cur]) Free)" "srd_status (sh_srd sh') = srd_status (sh_srd sh)"
proof -
  let ?i = "slot R (length qs)"
  let ?sh = "upd_buffer ?i (bd_ready_for_read_update sem_post) sh"
  from ring_tail[OF r l] have h: "bd_ready_for_write (buffer sh ?i) = 0" "bd_ready_for_read (buffer sh ?i) = 0"
    "bd_used (buffer sh ?i) = length cur" "length cur \<le> S" "mem_read (sh_mem sh) (bd_offset (buffer sh ?i)) (length cur) = cur" by simp_all
  have "ring base S ?sh R (ring_of qs (Full cur))"
    using h cur by (intro ring_set_tail[OF r l]) (simp_all add: buffer_slot_upd[OF r] sem_post_def)
  then have "ring base S ?sh R (ring_of (qs @ [cur]) Free)" by (simp add: ring_of_push)
  moreover have "(int ?i + 1) mod int NR_BUFFERS = int (slot R (length (qs @ [cur])))"
    by (simp add: slot_def zmod_int mod_simps ac_simps)
  ultimately show thesis
    using that[of ?sh] st nr cur h(3) by (simp add: msgpack_chunkbuffer_flush_def Let_def)
qed

lemma send_end_held:
  assumes r: "ring base S sh R (ring_of qs (Held cur))" and l: "length qs < NR_BUFFERS"
    and nr: "cb_buffer_nr cb = int (slot R (length qs))"
  obtains sh' where "send_end c sh cb = (sh', cb\<lparr>cb_buffer_size := 0\<rparr>)" "ring base S sh' R (ring_of qs (Sentinel c))"
    "srd_status (sh_srd sh') = srd_status (sh_srd sh)"
proof -
  let ?i = "slot R (length qs)"
  let ?f = "bd_ready_for_read_update sem_post \<circ> (bd_status_update (\<lambda>_. c) \<circ> bd_used_update (\<lambda>_. 0))"
  from ring_tail[OF r l] have h: "bd_ready_for_write (buffer sh ?i) = 0" "bd_ready_for_read (buffer sh ?i) = 0" by simp_all
  have "ring base S (upd_buffer ?i ?f sh) R (ring_of qs (Sentinel c))"
    using h by (intro ring_set_tail[OF r l]) (simp_all add: buffer_slot_upd[OF r] sem_post_def)
  then show thesis using that[of "upd_buffer ?i ?f sh"] nr by (simp add: send_end_def Let_def upd_buffer_twice comp_assoc)
qed

lemma read_full:
  assumes r: "ring base S sh R (ring_of (q # qs) t)" and l: "length (q # qs) < NR_BUFFERS \<or> length (q # qs) = NR_BUFFERS \<and> t = Free"
    and st: "ds_next_buffer st = R mod NR_BUFFERS" "\<not> ds_ended st"
  obtains sh' where "hdfstream_read_chunk False sh st = Some (sh', st\<lparr>ds_next_buffer := Suc R mod NR_BUFFERS\<rparr>, q, Some 0)"
    "ring base S sh' (Suc R) (ring_of qs t)" "srd_status (sh_srd sh') = srd_status (sh_srd sh)" "q \<noteq> []" "length q \<le> S"
proof -
  let ?i = "slot R 0"
  let ?f = "bd_ready_for_write_update sem_post \<circ> (bd_used_update (\<lambda>_. 0) \<circ> bd_ready_for_read_update (\<lambda>_. 0))"
  have i: "?i = R mod NR_BUFFERS" by (simp add: slot_def)
  from ring_head[OF r] have h: "bd_ready_for_write (buffer sh ?i) = 0" "bd_ready_for_read (buffer sh ?i) = 1"
    "bd_used (buffer sh ?i) = length q" "q \<noteq> []" "length q \<le> S" "mem_read (sh_mem sh) (bd_offset (buffer sh ?i)) (length q) = q" by simp_all
  have "ring base S (upd_buffer ?i ?f sh) R ((ring_of (q # qs) t)[0 := Free])"
    using h by (intro ring_upd[OF r]) (simp_all add: buffer_slot_upd[OF r] sem_post_def)
  moreover have "(ring_of (q # qs) t)[0 := Free] = Free # tl (ring_of (q # qs) t)"
    using length_ring_of[of "q # qs" t] NR_BUFFERS_pos by (cases "ring_of (q # qs) t") auto
  ultimately have "ring base S (upd_buffer ?i ?f sh) R (Free # tl (ring_of (q # qs) t))" by simp
  from ring_rotate[OF this] have "ring base S (upd_buffer ?i ?f sh) (Suc R) (ring_of qs t)"
    by (simp only: ring_of_pop[OF l])
  moreover have "hdfstream_read_chunk False sh st =
      Some (upd_buffer ?i ?f sh, st\<lparr>ds_next_buffer := Suc R mod NR_BUFFERS\<rparr>, q, Some 0)"
    using st h by (simp add: read_chunk_live Let_def sem_trywait_def upd_buffer_twice i[symmetric]
        buffer_slot_upd[OF r]) (simp add: i mod_Suc_eq)
  ultimately show thesis using that h(4,5) by simp
qed

lemma read_sentinel:
  assumes r: "ring base S sh R (ring_of [] (Sentinel c))" and st: "ds_next_buffer st = R mod NR_BUFFERS" "\<not> ds_ended st"
  obtains sh' where "hdfstream_read_chunk False sh st = Some (sh', st\<lparr>ds_ended := True\<rparr>, [], Some c)"
    "ring base S sh' R (ring_of [] Spent)" "srd_status (sh_srd sh') = srd_status (sh_srd sh)"
proof -
  let ?i = "slot R 0" and ?f = "bd_ready_for_read_update (\<lambda>_. 0)"
  have i: "?i = R mod NR_BUFFERS" by (simp add: slot_def)
  from ring_tail[OF r] have h: "bd_ready_for_write (buffer sh ?i) = 0" "bd_ready_for_read (buffer sh ?i) = 1"
    "bd_used (buffer sh ?i) = 0" "bd_status (buffer sh ?i) = c" by simp_all
  have "ring base S (upd_buffer ?i ?f sh) R (ring_of [] Spent)"
    using ring_set_tail[OF r, of ?f Spent] h by (simp add: buffer_slot_upd[OF r])
  moreover have "hdfstream_read_chunk False sh st = Some (upd_buffer ?i ?f sh, st\<lparr>ds_ended := True\<rparr>, [], Some c)"
    using st h by (simp add: read_chunk_live Let_def sem_trywait_def i[symmetric] buffer_slot_upd[OF r])
  ultimately show thesis using that by simp
qed

lemma read_blocked:
  assumes r: "ring base S sh R (ring_of [] t)" and t: "t = Free \<or> t = Held cur"
    and st: "ds_next_buffer st = R mod NR_BUFFERS" "\<not> ds_ended st"
  shows "hdfstream_read_chunk False sh st = None"
proof -
  have i: "slot R 0 = R mod NR_BUFFERS" by (simp add: slot_def)
  from ring_tail[OF r] t have "bd_ready_for_read (buffer sh (slot R 0)) = 0" by auto
  with st i show ?thesis by (simp add: read_chunk_live Let_def sem_trywait_def)
qed

lemma ring_cancel: "ring base S (cancel sh) R rs = ring base S sh R rs"
proof -
  have "role_ok S (cancel sh) i x = role_ok S sh i x" for i x
    by (rule role_ok_cong) (simp_all add: cancel_def)
  then show ?thesis by (simp add: ring_def layout_def) (simp add: cancel_def)
qed


section \<open>The invariant\<close>

fun tail_bytes :: "role \<Rightarrow> byte list" where
  "tail_bytes (Held q) = q"
| "tail_bytes _ = []"

fun unsent :: "producer \<Rightarrow> byte list" where
  "unsent (WNext calls) = concat calls"
| "unsent (WClaim b calls) = b @ concat calls"
| "unsent (WLoop b calls) = b @ concat calls"
| "unsent (WWait b calls) = b @ concat calls"
| "unsent _ = []"

text \<open>Where the producer stands: what its chunk buffer says and which role the tail buffer has.\<close>

definition unclaimed :: "nat \<Rightarrow> msgpack_chunkbuffer \<Rightarrow> nat \<Rightarrow> byte list list \<Rightarrow> role \<Rightarrow> bool" where
  "unclaimed S cb R qs t \<longleftrightarrow> cb_buffer_nr cb = -1 \<and> cb_buffer_size cb = S \<and> R = 0 \<and> qs = [] \<and> t = Free"

definition waiting :: "nat \<Rightarrow> msgpack_chunkbuffer \<Rightarrow> nat \<Rightarrow> byte list list \<Rightarrow> role \<Rightarrow> bool" where
  "waiting S cb R qs t \<longleftrightarrow> cb_buffer_nr cb = int (slot R (length qs)) \<and> cb_buffer_size cb = S \<and> t = Free"

definition holding :: "nat \<Rightarrow> msgpack_chunkbuffer \<Rightarrow> nat \<Rightarrow> byte list list \<Rightarrow> role \<Rightarrow> bool" where
  "holding S cb R qs t \<longleftrightarrow> cb_buffer_nr cb = int (slot R (length qs)) \<and> cb_buffer_size cb = S \<and>
     length qs < NR_BUFFERS \<and> (\<exists>cur. t = Held cur)"

fun at_pc :: "nat \<Rightarrow> msgpack_chunkbuffer \<Rightarrow> nat \<Rightarrow> byte list list \<Rightarrow> role \<Rightarrow> producer \<Rightarrow> bool" where
  "at_pc S cb R qs t (WNext calls) \<longleftrightarrow> unclaimed S cb R qs t \<or> holding S cb R qs t \<and> length (tail_bytes t) < S"
| "at_pc S cb R qs t (WLoop b calls) \<longleftrightarrow> holding S cb R qs t \<and> length (tail_bytes t) < S"
| "at_pc S cb R qs t (WEnd c) \<longleftrightarrow> unclaimed S cb R qs t \<or> holding S cb R qs t"
| "at_pc S cb R qs t (WClaim b calls) \<longleftrightarrow> waiting S cb R qs t \<and> R = 0 \<and> qs = []"
| "at_pc S cb R qs t (WEndClaim c) \<longleftrightarrow> waiting S cb R qs t \<and> R = 0 \<and> qs = []"
| "at_pc S cb R qs t (WWait b calls) \<longleftrightarrow> waiting S cb R qs t"
| "at_pc S cb R qs t (WEndWait c) \<longleftrightarrow> waiting S cb R qs t"
| "at_pc S cb R qs t WDone \<longleftrightarrow> length qs < NR_BUFFERS \<and> ((\<exists>c. t = Sentinel c) \<or> t = Spent)"

text \<open>What has left the producer so far, and what it still owes, make up the data D of the request.\<close>

fun owed :: "byte list \<Rightarrow> int \<Rightarrow> bool \<Rightarrow> byte list \<Rightarrow> role \<Rightarrow> int option \<Rightarrow> producer \<Rightarrow> bool" where
  "owed D c_end ok sent t res (WEnd c) \<longleftrightarrow> (ok \<longrightarrow> sent = D \<and> c = c_end)"
| "owed D c_end ok sent t res (WEndClaim c) \<longleftrightarrow> (ok \<longrightarrow> sent = D \<and> c = c_end)"
| "owed D c_end ok sent t res (WEndWait c) \<longleftrightarrow> (ok \<longrightarrow> sent = D \<and> c = c_end)"
| "owed D c_end ok sent t res WDone \<longleftrightarrow> (ok \<longrightarrow> sent = D \<and> (t = Sentinel c_end \<or> t = Spent \<and> res = Some c_end))"
| "owed D c_end ok sent t res pc \<longleftrightarrow> sent @ unsent pc = D"

definition stream_inv_at :: "nat \<Rightarrow> nat \<Rightarrow> byte list \<Rightarrow> int \<Rightarrow> nat \<Rightarrow> byte list list \<Rightarrow> role \<Rightarrow> system \<Rightarrow> bool" where
  "stream_inv_at base S D c_end R qs t s \<longleftrightarrow>
     0 < S \<and> S < 2 ^ 64 \<and>
     ring base S (sys_sh s) R (ring_of qs t) \<and> (length qs < NR_BUFFERS \<or> length qs = NR_BUFFERS \<and> t = Free) \<and>
     at_pc S (sys_cb s) R qs t (sys_pc s) \<and>
     ds_next_buffer (sys_stream s) = R mod NR_BUFFERS \<and>
     (ds_ended (sys_stream s) \<longleftrightarrow> t = Spent) \<and> (t = Spent \<longrightarrow> qs = [] \<and> sys_pc s = WDone) \<and>
     (\<forall>q \<in> set (sys_out s). q \<noteq> [] \<and> length q \<le> S) \<and>
     prefix (concat (sys_out s) @ concat qs @ tail_bytes t) D \<and>
     owed D c_end (srd_status (sh_srd (sys_sh s)) = BUFFER_STATUS_OK)
       (concat (sys_out s) @ concat qs @ tail_bytes t) t (sys_result s) (sys_pc s)"

definition stream_inv :: "nat \<Rightarrow> nat \<Rightarrow> byte list \<Rightarrow> int \<Rightarrow> system \<Rightarrow> bool" where
  "stream_inv base S D c_end s \<longleftrightarrow> (\<exists>R qs t. stream_inv_at base S D c_end R qs t s)"

lemma stream_invI: "stream_inv_at base S D c_end R qs t s \<Longrightarrow> stream_inv base S D c_end s"
  by (auto simp: stream_inv_def)

lemma sys_init_inv:
  assumes "layout base (sh_srd sh)" "\<forall>b \<in> set (srd_buffer (sh_srd sh)). bd_ready_for_write b \<le> 1"
    and cb: "msgpack_chunkbuffer_init S (sh_srd sh) = Some cb" and "S < 2 ^ 64"
  shows "stream_inv base S (concat calls) c_end (sys_init sh cb calls)"
proof -
  let ?sh = "sys_sh (sys_init sh cb calls)"
  have len: "length (srd_buffer (sh_srd sh)) = NR_BUFFERS" using assms(1) by (simp add: layout_def)
  have rd: "ready (shared_data_init_semaphores (sh_srd sh))"
    and l: "layout base (shared_data_init_semaphores (sh_srd sh))"
    using init_semaphores_ready[OF len assms(2)] assms(1) by blast+
  from cb have S: "0 < S" "S \<le> srd_buffer_size (sh_srd sh)" "cb = \<lparr>cb_buffer_nr = -1, cb_buffer_size = S\<rparr>"
    by (auto simp: msgpack_chunkbuffer_init_def c_assert_def split: if_splits)
  have "role_ok S ?sh (slot 0 j) (ring_of [] Free ! j)" if "j < NR_BUFFERS" for j
  proof -
    have "buffer ?sh (slot 0 j) \<in> set (srd_buffer (shared_data_init_semaphores (sh_srd sh)))"
      using rd by (simp add: sys_init_def ready_def)
    with rd have "role_ok S ?sh (slot 0 j) Free" by (simp add: ready_def)
    then show ?thesis using that by (simp add: nth_ring_of)
  qed
  moreover have "layout base (sh_srd ?sh)" using l by (simp add: sys_init_def layout_def)
  moreover have "srd_buffer_size (sh_srd ?sh) = srd_buffer_size (sh_srd sh)"
    by (simp add: sys_init_def shared_data_init_semaphores_def)
  ultimately have "ring base S ?sh 0 (ring_of [] Free)" using S(2) by (simp add: ring_def)
  then have "stream_inv_at base S (concat calls) c_end 0 [] Free (sys_init sh cb calls)"
    using S(1,3) assms(4) by (simp add: stream_inv_at_def sys_init_def unclaimed_def)
  then show ?thesis by (rule stream_invI)
qed

section \<open>Preservation\<close>

lemma inv_cancel:
  assumes "stream_inv_at base S D c_end R qs t s"
  shows "stream_inv_at base S D c_end R qs t (s\<lparr>sys_sh := cancel (sys_sh s)\<rparr>)"
proof -
  have "srd_status (sh_srd (cancel (sys_sh s))) \<noteq> BUFFER_STATUS_OK"
    by (simp add: cancel_def BUFFER_STATUS_OK_def BUFFER_STATUS_CANCEL_def)
  with assms show ?thesis by (cases "sys_pc s") (auto simp: stream_inv_at_def ring_cancel)
qed

lemma owed_res: "t \<noteq> Spent \<Longrightarrow> owed D c ok sent t res pc = owed D c ok sent t res' pc"
  by (cases pc) simp_all

lemma inv_consumer:
  assumes inv: "stream_inv_at base S D c_end R qs t s" and e: "\<not> ds_ended (sys_stream s)"
    and rd: "hdfstream_read_chunk False (sys_sh s) (sys_stream s) = Some (sh, st, data, status)"
  shows "stream_inv base S D c_end (s\<lparr>sys_sh := sh, sys_stream := st,
      sys_out := sys_out s @ (if data = [] then [] else [data]),
      sys_result := (if ds_ended st then status else None)\<rparr>)"
proof -
  from inv have r: "ring base S (sys_sh s) R (ring_of qs t)"
    and l: "length qs < NR_BUFFERS \<or> length qs = NR_BUFFERS \<and> t = Free" and pc: "at_pc S (sys_cb s) R qs t (sys_pc s)"
    and nx: "ds_next_buffer (sys_stream s) = R mod NR_BUFFERS" and t: "t \<noteq> Spent" 
    using e by (auto simp: stream_inv_at_def)
  show ?thesis
  proof (cases qs)
    case (Cons q qs')
    obtain sh' where 1: "hdfstream_read_chunk False (sys_sh s) (sys_stream s) =
        Some (sh', (sys_stream s)\<lparr>ds_next_buffer := Suc R mod NR_BUFFERS\<rparr>, q, Some 0)"
      "ring base S sh' (Suc R) (ring_of qs' t)" "srd_status (sh_srd sh') = srd_status (sh_srd (sys_sh s))" "q \<noteq> []" "length q \<le> S"
      by (rule read_full[OF r[unfolded Cons] l[unfolded Cons] nx e]) (rule that)
    have pc': "at_pc S (sys_cb s) (Suc R) qs' t (sys_pc s)"
      using pc Cons by (cases "sys_pc s") (auto simp: unclaimed_def waiting_def holding_def slot_Suc)
    have "stream_inv_at base S D c_end (Suc R) qs' t (s\<lparr>sys_sh := sh, sys_stream := st,
      sys_out := sys_out s @ (if data = [] then [] else [data]), sys_result := (if ds_ended st then status else None)\<rparr>)"
    proof -
      have eq: "sh = sh'" "st = (sys_stream s)\<lparr>ds_next_buffer := Suc R mod NR_BUFFERS\<rparr>" "data = q"
        using 1(1) rd by simp_all
      have cq: "concat qs = q @ concat qs'" using Cons by simp
      have "owed D c_end (srd_status (sh_srd (sys_sh s)) = BUFFER_STATUS_OK)
          (concat (sys_out s) @ concat qs @ tail_bytes t) t None (sys_pc s)"
        using inv unfolding stream_inv_at_def by (metis owed_res[OF t])
      moreover have "length qs' < NR_BUFFERS" using l Cons by auto
      ultimately show ?thesis using inv 1(2-5) pc' t e eq cq by (simp add: stream_inv_at_def)
    qed
    then show ?thesis by (rule stream_invI)
  next
    case Nil
    have "t = Free \<or> (\<exists>cur. t = Held cur) \<or> (\<exists>c. t = Sentinel c)"
      using pc t by (cases "sys_pc s") (auto simp: unclaimed_def waiting_def holding_def)
    with read_blocked[OF r[unfolded Nil] _ nx e] rd obtain c where c: "t = Sentinel c" by fastforce
    with pc have pd: "sys_pc s = WDone" by (cases "sys_pc s") (auto simp: unclaimed_def waiting_def holding_def)
    obtain sh' where 1: "hdfstream_read_chunk False (sys_sh s) (sys_stream s) = Some (sh', (sys_stream s)\<lparr>ds_ended := True\<rparr>, [], Some c)"
      "ring base S sh' R (ring_of [] Spent)" "srd_status (sh_srd sh') = srd_status (sh_srd (sys_sh s))"
      by (rule read_sentinel[OF r[unfolded Nil c] nx e]) (rule that)
    have "stream_inv_at base S D c_end R [] Spent (s\<lparr>sys_sh := sh, sys_stream := st,
      sys_out := sys_out s @ (if data = [] then [] else [data]), sys_result := (if ds_ended st then status else None)\<rparr>)"
      using inv 1 rd Nil c pd by (auto simp: stream_inv_at_def)
    then show ?thesis by (rule stream_invI)
  qed
qed

text \<open>A wait of the producer that succeeds: the tail buffer becomes its own.\<close>

lemma inv_wait:
  assumes inv: "stream_inv_at base S D c_end R qs t s" and w: "waiting S (sys_cb s) R qs t"
    and run: "wait_writable (sys_sh s) (sys_cb s) = Some sh"
  shows "ring base S sh R (ring_of qs (Held []))" "srd_status (sh_srd sh) = srd_status (sh_srd (sys_sh s))"
    "length qs < NR_BUFFERS"
proof -
  from inv w have r: "ring base S (sys_sh s) R (ring_of qs Free)" and l: "length qs < NR_BUFFERS \<or> length qs = NR_BUFFERS"
    and nr: "cb_buffer_nr (sys_cb s) = int (slot R (length qs))"
    by (auto simp: stream_inv_at_def waiting_def)
  show len: "length qs < NR_BUFFERS"
    using l wait_blocked[OF r _ nr] run by auto
  obtain sh' where "wait_writable (sys_sh s) (sys_cb s) = Some sh'" "ring base S sh' R (ring_of qs (Held []))"
    "srd_status (sh_srd sh') = srd_status (sh_srd (sys_sh s))"
    by (rule wait_free[OF r len nr]) (rule that)
  with run show "ring base S sh R (ring_of qs (Held []))" "srd_status (sh_srd sh) = srd_status (sh_srd (sys_sh s))"
    by simp_all
qed

lemma inv_step_at:
  assumes inv: "stream_inv_at base S D c_end R qs t s"
    and "ring base S sh R (ring_of qs' t')" "length qs' < NR_BUFFERS \<or> length qs' = NR_BUFFERS \<and> t' = Free"
    and "srd_status (sh_srd sh) = srd_status (sh_srd (sys_sh s))" "at_pc S cb R qs' t' pc"
    and t: "t \<noteq> Spent" "t' \<noteq> Spent"
    and "prefix (concat (sys_out s) @ concat qs' @ tail_bytes t') D"
    and "owed D c_end (srd_status (sh_srd (sys_sh s)) = BUFFER_STATUS_OK)
       (concat (sys_out s) @ concat qs' @ tail_bytes t') t' (sys_result s) pc"
  shows "stream_inv base S D c_end (s\<lparr>sys_sh := sh, sys_cb := cb, sys_pc := pc\<rparr>)"
  using assms by (intro stream_invI[of _ _ _ _ R qs' t']) (simp add: stream_inv_at_def)

lemma inv_end:
  assumes inv: "stream_inv_at base S D c_end R qs t s" and t: "t \<noteq> Spent"
    and h: "ring base S sh R (ring_of qs (Held cur))" "length qs < NR_BUFFERS" "cb_buffer_nr cb = int (slot R (length qs))"
    and st: "srd_status (sh_srd sh) = srd_status (sh_srd (sys_sh s))"
    and pf: "prefix (concat (sys_out s) @ concat qs) D"
    and ow: "srd_status (sh_srd (sys_sh s)) = BUFFER_STATUS_OK \<Longrightarrow> concat (sys_out s) @ concat qs = D \<and> c = c_end"
  shows "case send_end c sh cb of (sh, cb) \<Rightarrow> stream_inv base S D c_end (s\<lparr>sys_sh := sh, sys_cb := cb, sys_pc := WDone\<rparr>)"
proof -
  obtain sh' where "send_end c sh cb = (sh', cb\<lparr>cb_buffer_size := 0\<rparr>)" "ring base S sh' R (ring_of qs (Sentinel c))"
    "srd_status (sh_srd sh') = srd_status (sh_srd sh)"
    by (rule send_end_held[OF h]) (rule that)
  with st h(2) t pf ow show ?thesis
    by (auto intro!: inv_step_at[OF inv, where qs' = qs and t' = "Sentinel c"])
qed


lemma stream_inv_atD:
  assumes "stream_inv_at base S D c_end R qs t s"
  shows "0 < S" "S < 2 ^ 64" "ring base S (sys_sh s) R (ring_of qs t)"
    "length qs < NR_BUFFERS \<or> length qs = NR_BUFFERS \<and> t = Free"
    "at_pc S (sys_cb s) R qs t (sys_pc s)" "sys_pc s \<noteq> WDone \<Longrightarrow> t \<noteq> Spent"
    "prefix (concat (sys_out s) @ concat qs @ tail_bytes t) D"
    "owed D c_end (srd_status (sh_srd (sys_sh s)) = BUFFER_STATUS_OK)
       (concat (sys_out s) @ concat qs @ tail_bytes t) t (sys_result s) (sys_pc s)"
  using assms by (auto simp: stream_inv_at_def)

lemma producer_next:
  assumes inv: "stream_inv_at base S D c_end R qs t s"
    and run: "produce c_end c_err (sys_sh s, sys_cb s, sys_pc s) = Some (sh, cb, pc)" and WNext: "sys_pc s = WNext calls"
  shows "stream_inv base S D c_end (s\<lparr>sys_sh := sh, sys_cb := cb, sys_pc := pc\<rparr>)"
proof -
  note S = stream_inv_atD(1,2)[OF inv] and r = stream_inv_atD(3)[OF inv] and l = stream_inv_atD(4)[OF inv]
    and at = stream_inv_atD(5)[OF inv] and pf = stream_inv_atD(7)[OF inv] and ow = stream_inv_atD(8)[OF inv]
    and go = inv_step_at[OF inv]
  have ts: "t \<noteq> Spent" using stream_inv_atD(6)[OF inv] WNext by simp
  show ?thesis
  proof (cases calls)
    case Nil
    with WNext run at pf ow ts r l show ?thesis by (intro go[where qs' = qs and t' = t]) auto
  next
    case (Cons b cs)
    show ?thesis
    proof (cases "cb_buffer_nr (sys_cb s) < 0")
      case True
      with WNext at have "unclaimed S (sys_cb s) R qs t" by (auto simp: holding_def)
      with True WNext Cons run at pf ow ts r show ?thesis
        by (intro go[where qs' = qs and t' = t]) (auto simp: unclaimed_def waiting_def slot_def)
    next
      case False
      with WNext at have "holding S (sys_cb s) R qs t" "length (tail_bytes t) < S" by (auto simp: unclaimed_def)
      with False WNext Cons run pf ow ts r l show ?thesis
        by (intro go[where qs' = qs and t' = t]) auto
    qed
  qed
qed

lemma producer_claim:
  assumes inv: "stream_inv_at base S D c_end R qs t s"
    and run: "produce c_end c_err (sys_sh s, sys_cb s, sys_pc s) = Some (sh, cb, pc)" and WClaim: "sys_pc s = WClaim b calls"
  shows "stream_inv base S D c_end (s\<lparr>sys_sh := sh, sys_cb := cb, sys_pc := pc\<rparr>)"
proof -
  note S = stream_inv_atD(1,2)[OF inv] and r = stream_inv_atD(3)[OF inv] and l = stream_inv_atD(4)[OF inv]
    and at = stream_inv_atD(5)[OF inv] and pf = stream_inv_atD(7)[OF inv] and ow = stream_inv_atD(8)[OF inv]
    and go = inv_step_at[OF inv]
  have ts: "t \<noteq> Spent" using stream_inv_atD(6)[OF inv] WClaim by simp
  from at WClaim have w: "waiting S (sys_cb s) R qs t" "R = 0" "qs = []" by auto
  from run WClaim obtain sh1 where 1: "wait_writable (sys_sh s) (sys_cb s) = Some sh1"
    "sh = upd_buffer (nat (cb_buffer_nr (sys_cb s))) (bd_used_update (\<lambda>_. 0)) sh1" "cb = sys_cb s" "pc = WLoop b calls"
    by (auto simp: bind_eq_Some_conv)
  note h = inv_wait[OF inv w(1) 1(1)]
  have "ring base S sh R (ring_of qs (Held []))"
    using zero_used[OF h(1,3)] 1(2) w(1) by (simp add: waiting_def)
  with h w 1 pf ow WClaim ts S show ?thesis
    by (intro go[where qs' = qs and t' = "Held []"]) (auto simp: holding_def waiting_def)
qed

lemma producer_wait:
  assumes inv: "stream_inv_at base S D c_end R qs t s"
    and run: "produce c_end c_err (sys_sh s, sys_cb s, sys_pc s) = Some (sh, cb, pc)" and WWait: "sys_pc s = WWait b calls"
  shows "stream_inv base S D c_end (s\<lparr>sys_sh := sh, sys_cb := cb, sys_pc := pc\<rparr>)"
proof -
  note S = stream_inv_atD(1,2)[OF inv] and r = stream_inv_atD(3)[OF inv] and l = stream_inv_atD(4)[OF inv]
    and at = stream_inv_atD(5)[OF inv] and pf = stream_inv_atD(7)[OF inv] and ow = stream_inv_atD(8)[OF inv]
    and go = inv_step_at[OF inv]
  have ts: "t \<noteq> Spent" using stream_inv_atD(6)[OF inv] WWait by simp
  from at WWait have w: "waiting S (sys_cb s) R qs t" by auto
  from run WWait have 1: "wait_writable (sys_sh s) (sys_cb s) = Some sh" "cb = sys_cb s" "pc = WLoop b calls"
    by (auto simp: bind_eq_Some_conv)
  note h = inv_wait[OF inv w(1) 1(1)]
  with w 1 pf ow WWait ts S show ?thesis
    by (intro go[where qs' = qs and t' = "Held []"]) (auto simp: holding_def waiting_def)
qed

lemma producer_loop:
  assumes inv: "stream_inv_at base S D c_end R qs t s"
    and run: "produce c_end c_err (sys_sh s, sys_cb s, sys_pc s) = Some (sh, cb, pc)" and WLoop: "sys_pc s = WLoop b calls"
  shows "stream_inv base S D c_end (s\<lparr>sys_sh := sh, sys_cb := cb, sys_pc := pc\<rparr>)"
proof -
  note S = stream_inv_atD(1,2)[OF inv] and r = stream_inv_atD(3)[OF inv] and l = stream_inv_atD(4)[OF inv]
    and at = stream_inv_atD(5)[OF inv] and pf = stream_inv_atD(7)[OF inv] and ow = stream_inv_atD(8)[OF inv]
    and go = inv_step_at[OF inv]
  have ts: "t \<noteq> Spent" using stream_inv_atD(6)[OF inv] WLoop by simp
  from at WLoop obtain cur where h: "t = Held cur" "cb_buffer_nr (sys_cb s) = int (slot R (length qs))"
    "cb_buffer_size (sys_cb s) = S" "length qs < NR_BUFFERS" "length cur < S" by (auto simp: holding_def)
  show ?thesis
  proof (cases "b = []")
    case True
    with WLoop run at pf ow ts r l show ?thesis by (intro go[where qs' = qs and t' = t]) auto
  next
    case False
    let ?n = "min (length b) (S - length cur)"
    obtain sh1 where 1: "write_some (sys_sh s) (sys_cb s) b = (sh1, drop ?n b, length cur + ?n \<ge> S div 2)"
      "ring base S sh1 R (ring_of qs (Held (cur @ take ?n b)))" "srd_status (sh_srd sh1) = srd_status (sh_srd (sys_sh s))"
      "?n > 0" "length cur + ?n \<le> S"
      using write_some_held[OF r[unfolded h(1)] h(4,2,3) S(2) h(5) False] .
    have ne: "cur @ take ?n b \<noteq> []" using 1(4) False by (cases b) auto
    have bytes: "concat (sys_out s) @ concat qs @ (cur @ take ?n b) @ drop ?n b @ concat calls = D"
      using ow WLoop h(1) by (simp add: append_assoc[symmetric] del: append_assoc) (simp only: append_assoc append_take_drop_id)
    then have pf': "prefix (concat (sys_out s) @ concat qs @ (cur @ take ?n b)) D"
      by (metis append.assoc prefixI)
    show ?thesis
    proof (cases "length cur + ?n \<ge> S div 2")
      case False
      have "length (cur @ take ?n b) < S" using False 1(5) S(1) by simp
      with False \<open>b \<noteq> []\<close> 1 run WLoop h bytes pf' ts show ?thesis
        by (intro go[where qs' = qs and t' = "Held (cur @ take ?n b)"]) (auto simp: holding_def)
    next
      case True
      show ?thesis
      proof (cases "srd_status (sh_srd (sys_sh s)) = BUFFER_STATUS_OK")
        case st: True
        obtain sh2 where 2: "msgpack_chunkbuffer_flush sh1 (sys_cb s) =
            (sh2, (sys_cb s)\<lparr>cb_buffer_nr := int (slot R (length (qs @ [cur @ take ?n b])))\<rparr>, None)"
          "ring base S sh2 R (ring_of (qs @ [cur @ take ?n b]) Free)" "srd_status (sh_srd sh2) = srd_status (sh_srd sh1)"
          using flush_held[OF 1(2) h(4,2) _ ne] st 1(3) by metis
        have "sh = sh2" "cb = (sys_cb s)\<lparr>cb_buffer_nr := int (slot R (length (qs @ [cur @ take ?n b])))\<rparr>" "pc = WWait (drop ?n b) calls"
          using run WLoop \<open>b \<noteq> []\<close> 1(1) True 2(1) by auto
        with 2 1(3) h bytes pf' ts show ?thesis
          by (intro go[where qs' = "qs @ [cur @ take ?n b]" and t' = Free]) (auto simp: waiting_def)
      next
        case st: False
        then have "msgpack_chunkbuffer_flush sh1 (sys_cb s) = (sh1, sys_cb s, Some (-1))"
          using 1(3) by (simp add: msgpack_chunkbuffer_flush_def)
        with run WLoop \<open>b \<noteq> []\<close> 1(1) True have "sh = sh1" "cb = sys_cb s" "pc = WEnd c_err" by auto
        with 1 h pf' ts st show ?thesis
          by (intro go[where qs' = qs and t' = "Held (cur @ take ?n b)"]) (auto simp: holding_def)
      qed
    qed
  qed
qed

lemma producer_end:
  assumes inv: "stream_inv_at base S D c_end R qs t s"
    and run: "produce c_end c_err (sys_sh s, sys_cb s, sys_pc s) = Some (sh, cb, pc)" and WEnd: "sys_pc s = WEnd c"
  shows "stream_inv base S D c_end (s\<lparr>sys_sh := sh, sys_cb := cb, sys_pc := pc\<rparr>)"
proof -
  note S = stream_inv_atD(1,2)[OF inv] and r = stream_inv_atD(3)[OF inv] and l = stream_inv_atD(4)[OF inv]
    and at = stream_inv_atD(5)[OF inv] and pf = stream_inv_atD(7)[OF inv] and ow = stream_inv_atD(8)[OF inv]
    and go = inv_step_at[OF inv]
  have ts: "t \<noteq> Spent" using stream_inv_atD(6)[OF inv] WEnd by simp
  show ?thesis
  proof (cases "cb_buffer_nr (sys_cb s) < 0")
    case True
    with WEnd at have u: "unclaimed S (sys_cb s) R qs t" by (auto simp: holding_def)
    have "msgpack_chunkbuffer_flush (sys_sh s) (sys_cb s) = (sys_sh s, sys_cb s, Some (-1)) \<or>
      msgpack_chunkbuffer_flush (sys_sh s) (sys_cb s) = (sys_sh s, sys_cb s, Some 0)"
      using True by (simp add: msgpack_chunkbuffer_flush_def)
    with True WEnd u run pf ow ts r show ?thesis
      by (intro go[where qs' = qs and t' = t]) (auto simp: unclaimed_def waiting_def slot_def)
  next
    case False
    with WEnd at obtain cur where h: "t = Held cur" "cb_buffer_nr (sys_cb s) = int (slot R (length qs))"
      "cb_buffer_size (sys_cb s) = S" "length qs < NR_BUFFERS" by (auto simp: holding_def unclaimed_def)
    note r' = r[unfolded h(1)]
    have pf0: "prefix (concat (sys_out s) @ concat qs) D"
      using pf h(1) by (metis append.assoc append_prefixD)
    show ?thesis
    proof (cases "srd_status (sh_srd (sys_sh s)) = BUFFER_STATUS_OK \<and> cur \<noteq> []")
      case True
      then obtain sh2 where 2: "msgpack_chunkbuffer_flush (sys_sh s) (sys_cb s) =
          (sh2, (sys_cb s)\<lparr>cb_buffer_nr := int (slot R (length (qs @ [cur])))\<rparr>, None)"
        "ring base S sh2 R (ring_of (qs @ [cur]) Free)" "srd_status (sh_srd sh2) = srd_status (sh_srd (sys_sh s))"
        using flush_held[OF r' h(4,2)] by metis
      with run WEnd have "sh = sh2" "cb = (sys_cb s)\<lparr>cb_buffer_nr := int (slot R (length (qs @ [cur])))\<rparr>" "pc = WEndWait c"
        by auto
      with 2 h pf ow WEnd ts show ?thesis
        by (intro go[where qs' = "qs @ [cur]" and t' = Free]) (auto simp: waiting_def)
    next
      case nf: False
      have "bd_used (buffer (sys_sh s) (slot R (length qs))) = length cur" using ring_tail[OF r' h(4)] by simp
      then obtain e where "msgpack_chunkbuffer_flush (sys_sh s) (sys_cb s) = (sys_sh s, sys_cb s, Some e)"
        using nf False h(2) by (cases "srd_status (sh_srd (sys_sh s)) = BUFFER_STATUS_OK")
          (simp_all add: msgpack_chunkbuffer_flush_def)
      with run WEnd False have "(case send_end c (sys_sh s) (sys_cb s) of (sh, cb) \<Rightarrow> Some (sh, cb, WDone)) = Some (sh, cb, pc)"
        by simp
      moreover have "concat (sys_out s) @ concat qs = D \<and> c = c_end" if "srd_status (sh_srd (sys_sh s)) = BUFFER_STATUS_OK"
        using that nf ow WEnd h(1) by simp
      note inv_end[OF inv ts r' h(4,2) refl pf0 this]
      ultimately show ?thesis by (auto split: prod.splits)
    qed
  qed
qed

lemma producer_end_claim:
  assumes inv: "stream_inv_at base S D c_end R qs t s"
    and run: "produce c_end c_err (sys_sh s, sys_cb s, sys_pc s) = Some (sh, cb, pc)" and WEndClaim: "sys_pc s = WEndClaim c"
  shows "stream_inv base S D c_end (s\<lparr>sys_sh := sh, sys_cb := cb, sys_pc := pc\<rparr>)"
proof -
  note S = stream_inv_atD(1,2)[OF inv] and r = stream_inv_atD(3)[OF inv] and l = stream_inv_atD(4)[OF inv]
    and at = stream_inv_atD(5)[OF inv] and pf = stream_inv_atD(7)[OF inv] and ow = stream_inv_atD(8)[OF inv]
    and go = inv_step_at[OF inv]
  have ts: "t \<noteq> Spent" using stream_inv_atD(6)[OF inv] WEndClaim by simp
  from at WEndClaim have w: "waiting S (sys_cb s) R qs t" "R = 0" "qs = []" by auto
  from run WEndClaim obtain sh1 where 1: "wait_writable (sys_sh s) (sys_cb s) = Some sh1"
    "(case send_end c (upd_buffer (nat (cb_buffer_nr (sys_cb s))) (bd_used_update (\<lambda>_. 0)) sh1) (sys_cb s) of (sh, cb) \<Rightarrow> Some (sh, cb, WDone)) = Some (sh, cb, pc)"
    by (auto simp: bind_eq_Some_conv)
  note h = inv_wait[OF inv w(1) 1(1)]
  have nr: "cb_buffer_nr (sys_cb s) = int (slot R (length qs))" and t: "t = Free" using w(1) by (auto simp: waiting_def)
  have rr: "ring base S (upd_buffer (nat (cb_buffer_nr (sys_cb s))) (bd_used_update (\<lambda>_. 0)) sh1) R (ring_of qs (Held []))"
    using zero_used[OF h(1,3)] nr by simp
  have ow': "concat (sys_out s) @ concat qs = D \<and> c = c_end" if "srd_status (sh_srd (sys_sh s)) = BUFFER_STATUS_OK"
    using that ow WEndClaim t by simp
  have pf': "prefix (concat (sys_out s) @ concat qs) D" using pf t by simp
  have st: "srd_status (sh_srd (upd_buffer (nat (cb_buffer_nr (sys_cb s))) (bd_used_update (\<lambda>_. 0)) sh1)) = srd_status (sh_srd (sys_sh s))"
    using h(2) by simp
  show ?thesis using inv_end[OF inv ts rr h(3) nr st pf' ow'] 1(2) by (auto split: prod.splits)
qed

lemma producer_end_wait:
  assumes inv: "stream_inv_at base S D c_end R qs t s"
    and run: "produce c_end c_err (sys_sh s, sys_cb s, sys_pc s) = Some (sh, cb, pc)" and WEndWait: "sys_pc s = WEndWait c"
  shows "stream_inv base S D c_end (s\<lparr>sys_sh := sh, sys_cb := cb, sys_pc := pc\<rparr>)"
proof -
  note S = stream_inv_atD(1,2)[OF inv] and r = stream_inv_atD(3)[OF inv] and l = stream_inv_atD(4)[OF inv]
    and at = stream_inv_atD(5)[OF inv] and pf = stream_inv_atD(7)[OF inv] and ow = stream_inv_atD(8)[OF inv]
    and go = inv_step_at[OF inv]
  have ts: "t \<noteq> Spent" using stream_inv_atD(6)[OF inv] WEndWait by simp
  from at WEndWait have w: "waiting S (sys_cb s) R qs t" by auto
  from run WEndWait obtain sh1 where 1: "wait_writable (sys_sh s) (sys_cb s) = Some sh1"
    "(case send_end c sh1 (sys_cb s) of (sh, cb) \<Rightarrow> Some (sh, cb, WDone)) = Some (sh, cb, pc)"
    by (auto simp: bind_eq_Some_conv)
  note h = inv_wait[OF inv w(1) 1(1)]
  have nr: "cb_buffer_nr (sys_cb s) = int (slot R (length qs))" and t: "t = Free" using w(1) by (auto simp: waiting_def)
  have ow': "concat (sys_out s) @ concat qs = D \<and> c = c_end" if "srd_status (sh_srd (sys_sh s)) = BUFFER_STATUS_OK"
    using that ow WEndWait t by simp
  have pf': "prefix (concat (sys_out s) @ concat qs) D" using pf t by simp
  show ?thesis using inv_end[OF inv ts h(1,3) nr h(2) pf' ow'] 1(2) by (auto split: prod.splits)
qed

lemma inv_producer:
  assumes "stream_inv_at base S D c_end R qs t s"
    and "produce c_end c_err (sys_sh s, sys_cb s, sys_pc s) = Some (sh, cb, pc)"
  shows "stream_inv base S D c_end (s\<lparr>sys_sh := sh, sys_cb := cb, sys_pc := pc\<rparr>)"
  using producer_next[OF assms] producer_claim[OF assms] producer_loop[OF assms] producer_wait[OF assms]
    producer_end[OF assms] producer_end_claim[OF assms] producer_end_wait[OF assms] assms(2)
  by (cases "sys_pc s") simp_all

section \<open>Properties of a stream\<close>

lemma run_step_inv:
  "run_step c_end c_err s s' \<Longrightarrow> stream_inv base S D c_end s \<Longrightarrow> stream_inv base S D c_end s'"
  by (auto simp: stream_inv_def elim!: run_stepE intro: inv_producer[unfolded stream_inv_def] inv_consumer[unfolded stream_inv_def])

lemma sys_step_inv:
  "sys_step c_end c_err s s' \<Longrightarrow> stream_inv base S D c_end s \<Longrightarrow> stream_inv base S D c_end s'"
  by (auto elim!: sys_stepE intro: run_step_inv) (auto simp: stream_inv_def intro: inv_cancel)

lemma sys_steps_inv:
  "(sys_step c_end c_err)\<^sup>*\<^sup>* s s' \<Longrightarrow> stream_inv base S D c_end s \<Longrightarrow> stream_inv base S D c_end s'"
  by (induction rule: rtranclp_induct) (auto intro: sys_step_inv)

lemma run_steps_inv:
  "(run_step c_end c_err)\<^sup>*\<^sup>* s s' \<Longrightarrow> stream_inv base S D c_end s \<Longrightarrow> stream_inv base S D c_end s'"
  by (induction rule: rtranclp_induct) (auto intro: run_step_inv)

lemma inv_prefix: "stream_inv base S D c_end s \<Longrightarrow> prefix (concat (sys_out s)) D"
  by (auto simp: stream_inv_def stream_inv_at_def dest: append_prefixD)

lemma inv_chunks: "stream_inv base S D c_end s \<Longrightarrow> q \<in> set (sys_out s) \<Longrightarrow> q \<noteq> [] \<and> length q \<le> S"
  by (auto simp: stream_inv_def stream_inv_at_def)

lemma inv_ended:
  assumes "stream_inv base S D c_end s" "ds_ended (sys_stream s)"
  shows "sys_pc s = WDone"
    and "srd_status (sh_srd (sys_sh s)) = BUFFER_STATUS_OK \<Longrightarrow> concat (sys_out s) = D \<and> sys_result s = Some c_end"
    and "layout base (sh_srd (sys_sh s)) \<and> (\<forall>b \<in> set (srd_buffer (sh_srd (sys_sh s))). bd_ready_for_write b \<le> 1)"
proof -
  from assms obtain R where i: "stream_inv_at base S D c_end R [] Spent s" and pc: "sys_pc s = WDone"
    by (auto simp: stream_inv_def stream_inv_at_def)
  then show "sys_pc s = WDone" by simp
  show "concat (sys_out s) = D \<and> sys_result s = Some c_end" if "srd_status (sh_srd (sys_sh s)) = BUFFER_STATUS_OK"
    using i pc that by (simp add: stream_inv_at_def)
  from i have r: "ring base S (sys_sh s) R (ring_of [] Spent)" by (simp add: stream_inv_at_def)
  have "bd_ready_for_write b \<le> 1" if b: "b \<in> set (srd_buffer (sh_srd (sys_sh s)))" for b
  proof -
    from b obtain i where i: "i < NR_BUFFERS" "b = buffer (sys_sh s) i"
      using ring_length[OF r] by (auto simp: in_set_conv_nth)
    define j where "j = (i + (NR_BUFFERS - R mod NR_BUFFERS)) mod NR_BUFFERS"
    have "slot R j = i"
    proof -
      have "slot R j = (R mod NR_BUFFERS + (i + (NR_BUFFERS - R mod NR_BUFFERS))) mod NR_BUFFERS"
        by (simp add: slot_def j_def mod_simps)
      also have "R mod NR_BUFFERS + (i + (NR_BUFFERS - R mod NR_BUFFERS)) = i + NR_BUFFERS"
        using mod_less_divisor[OF NR_BUFFERS_pos, of R] by linarith
      finally show ?thesis using i(1) by simp
    qed
    moreover have "j < NR_BUFFERS" by (simp add: j_def)
    ultimately have "role_ok S (sys_sh s) i (ring_of [] Spent ! j)" using r by (auto simp: ring_def)
    then show ?thesis using i(2) \<open>j < NR_BUFFERS\<close> by (cases "j = 0") (auto simp: nth_ring_of)
  qed
  then show "layout base (sh_srd (sys_sh s)) \<and> (\<forall>b \<in> set (srd_buffer (sh_srd (sys_sh s))). bd_ready_for_write b \<le> 1)"
    using r by (simp add: ring_def)
qed

text \<open>The producer stops only in a wait for a buffer that is not free.\<close>

lemma produce_enabled:
  assumes "at_pc S cb R qs t pc" "pc \<noteq> WDone" "waiting S cb R qs t \<Longrightarrow> \<exists>sh'. wait_writable sh cb = Some sh'"
  shows "produce c_end c_err (sh, cb, pc) \<noteq> None"
proof (cases pc)
  case (WNext calls)
  then show ?thesis by (cases calls) auto
next
  case (WLoop b calls)
  then show ?thesis by (simp split: prod.split option.split)
next
  case (WEnd c)
  then show ?thesis by (simp split: prod.split option.split)
next
  case (WClaim b calls)
  with assms show ?thesis by auto
next
  case (WWait b calls)
  with assms show ?thesis by auto
next
  case (WEndClaim c)
  with assms show ?thesis by (auto simp: Let_def split: prod.split)
next
  case (WEndWait c)
  with assms show ?thesis by (auto split: prod.split)
qed (use assms in simp)

text \<open>While the stream has not ended, the producer or the consumer can go on.\<close>

lemma inv_progress:
  assumes "stream_inv base S D c_end s" "\<not> ds_ended (sys_stream s)"
  shows "\<exists>s'. run_step c_end c_err s s'"
proof -
  from assms obtain R qs t where inv: "stream_inv_at base S D c_end R qs t s" by (auto simp: stream_inv_def)
  then have r: "ring base S (sys_sh s) R (ring_of qs t)"
    and l: "length qs < NR_BUFFERS \<or> length qs = NR_BUFFERS \<and> t = Free" and pc: "at_pc S (sys_cb s) R qs t (sys_pc s)"
    and nx: "ds_next_buffer (sys_stream s) = R mod NR_BUFFERS" and t: "t \<noteq> Spent"
    using assms(2) by (auto simp: stream_inv_at_def)
  have "(\<exists>r. produce c_end c_err (sys_sh s, sys_cb s, sys_pc s) = Some r) \<or>
    (\<exists>r. hdfstream_read_chunk False (sys_sh s) (sys_stream s) = Some r)"
  proof (cases qs)
    case (Cons q qs')
    show ?thesis using read_full[OF r[unfolded Cons] l[unfolded Cons] nx assms(2)] by blast
  next
    case Nil
    have w: "\<exists>sh. wait_writable (sys_sh s) (sys_cb s) = Some sh" if "waiting S (sys_cb s) R qs t"
    proof -
      from that r have rf: "ring base S (sys_sh s) R (ring_of qs Free)" and nr: "cb_buffer_nr (sys_cb s) = int (slot R (length qs))"
        by (auto simp: waiting_def)
      have len: "length qs < NR_BUFFERS" using Nil by simp
      show ?thesis by (rule wait_free[OF rf len nr]) blast
    qed
    show ?thesis
    proof (cases "sys_pc s = WDone")
      case True
      with pc t obtain c where "t = Sentinel c" by auto
      with read_sentinel[of base S "sys_sh s" R c "sys_stream s"] r Nil nx assms(2) show ?thesis by blast
    next
      case False
      have "produce c_end c_err (sys_sh s, sys_cb s, sys_pc s) \<noteq> None"
        using produce_enabled[OF pc False w] .
      then show ?thesis by blast
    qed
  qed
  then show ?thesis using assms(2) by (auto intro: run_step.producer run_step.consumer)
qed

section \<open>Termination\<close>


text \<open>Every step of a process brings the end of the stream closer.\<close>

fun producer_measure :: "producer \<Rightarrow> nat" where
  "producer_measure (WNext calls) = 3 * length (concat calls) + 3 * length calls + 4"
| "producer_measure (WClaim b calls) = 3 * length b + 3 * length (concat calls) + 3 * length calls + 6"
| "producer_measure (WLoop b calls) = 3 * length b + 3 * length (concat calls) + 3 * length calls + 5"
| "producer_measure (WWait b calls) = 3 * length b + 3 * length (concat calls) + 3 * length calls + 6"
| "producer_measure (WEnd c) = 3"
| "producer_measure (WEndClaim c) = 2"
| "producer_measure (WEndWait c) = 2"
| "producer_measure WDone = 0"

definition run_measure :: "nat \<Rightarrow> system \<Rightarrow> nat" where
  "run_measure n s = producer_measure (sys_pc s) + (n - length (concat (sys_out s))) +
     (if ds_ended (sys_stream s) then 0 else 1)"

lemma produce_measure:
  assumes inv: "stream_inv_at base S D c_end R qs t s"
    and run: "produce c_end c_err (sys_sh s, sys_cb s, sys_pc s) = Some (sh, cb, pc)"
  shows "producer_measure pc < producer_measure (sys_pc s)"
proof (cases "sys_pc s")
  case (WNext calls)
  with run show ?thesis by (cases calls) (auto split: if_splits)
next
  case (WLoop b calls)
  with inv obtain cur where h: "ring base S (sys_sh s) R (ring_of qs (Held cur))" "cb_buffer_nr (sys_cb s) = int (slot R (length qs))"
    "cb_buffer_size (sys_cb s) = S" "length qs < NR_BUFFERS" "length cur < S" "S < 2 ^ 64"
    by (auto simp: stream_inv_at_def holding_def)
  show ?thesis
  proof (cases "b = []")
    case True
    with run WLoop show ?thesis by auto
  next
    case False
    obtain sh1 n x where 1: "write_some (sys_sh s) (sys_cb s) b = (sh1, drop n b, x)" "n > 0"
      using write_some_held[OF h(1,4,2,3,6,5) False] by metis
    have "length (drop n b) < length b" using 1(2) False by simp
    with run WLoop False 1(1) show ?thesis by (auto split: prod.splits option.splits if_splits)
  qed
qed (use run in \<open>auto simp: bind_eq_Some_conv Let_def case_prod_beta split: option.splits if_splits\<close>)

lemma run_step_measure:
  assumes inv: "stream_inv base S D c_end s" and step: "run_step c_end c_err s s'"
  shows "run_measure (length D) s' < run_measure (length D) s"
  using step
proof (cases rule: run_step.cases)
  case (producer sh cb pc)
  from inv obtain R qs t where "stream_inv_at base S D c_end R qs t s" by (auto simp: stream_inv_def)
  from produce_measure[OF this producer(2)] producer(1) show ?thesis by (simp add: run_measure_def)
next
  case (consumer sh st data status)
  have "prefix (concat (sys_out s')) D" using inv_prefix[OF run_step_inv[OF step inv]] .
  then have le: "length (concat (sys_out s')) \<le> length D" by (rule prefix_length_le)
  have "ds_ended st \<or> data \<noteq> []"
    using consumer(2,3) by (auto simp: read_chunk_live Let_def bind_eq_Some_conv mem_read_def split: if_splits)
  then have "ds_ended st \<or> 0 < length data" by simp
  moreover have len: "length (concat (sys_out s')) = length (concat (sys_out s)) + length data"
    using consumer(1) by simp
  moreover have "\<not> ds_ended (sys_stream s)" "sys_pc s' = sys_pc s" "sys_stream s' = st"
    using consumer(1,2) by simp_all
  ultimately show ?thesis using le
    by (cases "ds_ended st") (simp_all only: run_measure_def if_True if_False simp_thms)
qed

theorem stream_terminates:
  assumes "stream_inv base S D c_end s"
  shows "\<exists>s'. (run_step c_end c_err)\<^sup>*\<^sup>* s s' \<and> ds_ended (sys_stream s')"
  using assms
proof (induction "run_measure (length D) s" arbitrary: s rule: less_induct)
  case less
  show ?case
  proof (cases "ds_ended (sys_stream s)")
    case True
    then show ?thesis by blast
  next
    case False
    from inv_progress[OF less.prems False] obtain s1 where s1: "run_step c_end c_err s s1" by blast
    from less.hyps[OF run_step_measure[OF less.prems s1] run_step_inv[OF s1 less.prems]]
    show ?thesis using s1 by (meson converse_rtranclp_into_rtranclp)
  qed
qed

end
