(* ===== verification/Streams.thy ===== *)
theory Streams
  imports RingProof
begin

text \<open>
  The properties of a stream, stated from the state in which a request starts: what the client
  receives, in which pieces, that it always receives the end, and that the ring can serve the
  next request.
\<close>

section \<open>The start of a request\<close>

text \<open>
  The shared data as shared_data_populate() laid it out and as the previous request left it, and
  a chunk buffer whose blocks have S bytes.
\<close>

definition request_ready :: "nat \<Rightarrow> nat \<Rightarrow> shared \<Rightarrow> msgpack_chunkbuffer \<Rightarrow> bool" where
  "request_ready base S sh cb \<longleftrightarrow> layout base (sh_srd sh) \<and>
     (\<forall>b \<in> set (srd_buffer (sh_srd sh)). bd_ready_for_write b \<le> 1) \<and>
     msgpack_chunkbuffer_init S (sh_srd sh) = Some cb \<and> S < 2 ^ 64"

lemma request_ready_inv:
  "request_ready base S sh cb \<Longrightarrow> stream_inv base S (concat calls) c_end (sys_init sh cb calls)"
  by (auto simp: request_ready_def intro: sys_init_inv)

lemma request_reachable_inv:
  "request_ready base S sh cb \<Longrightarrow> (sys_step c_end c_err)\<^sup>*\<^sup>* (sys_init sh cb calls) s \<Longrightarrow>
   stream_inv base S (concat calls) c_end s"
  by (rule sys_steps_inv[OF _ request_ready_inv])

lemma run_steps_sys: "(run_step c_end c_err)\<^sup>*\<^sup>* s s' \<Longrightarrow> (sys_step c_end c_err)\<^sup>*\<^sup>* s s'"
  by (induction rule: rtranclp_induct) (auto intro: sys_step.run rtranclp.rtrancl_into_rtrancl)

text \<open>The fields of the header that the two processes only read.\<close>

definition same_header :: "shared \<Rightarrow> shared \<Rightarrow> bool" where
  "same_header sh sh' \<longleftrightarrow> srd_status (sh_srd sh') = srd_status (sh_srd sh) \<and>
     srd_buffer_size (sh_srd sh') = srd_buffer_size (sh_srd sh)"

lemma wait_header: "wait_writable sh cb = Some sh' \<Longrightarrow> same_header sh sh'"
  by (auto simp: wait_writable_def bind_eq_Some_conv same_header_def)

lemma flush_header [simp]: "same_header a (fst (msgpack_chunkbuffer_flush sh cb)) = same_header a sh"
  by (auto simp: msgpack_chunkbuffer_flush_def Let_def same_header_def split: if_splits)

lemma same_header_refl [simp]: "same_header a a"
  by (simp add: same_header_def)

lemma send_end_header [simp]: "same_header a (fst (send_end c sh cb)) = same_header a sh"
  by (auto simp: send_end_def Let_def same_header_def)

lemma write_some_header [simp]: "same_header a (fst (write_some sh cb b)) = same_header a sh"
  by (auto simp: write_some_def Let_def same_header_def)

lemma same_header_trans: "same_header a b \<Longrightarrow> same_header b c \<Longrightarrow> same_header a c"
  by (simp add: same_header_def)

lemma same_header_upd [simp]: "same_header a (upd_buffer i f b) = same_header a b"
    "same_header (upd_buffer i f a) b = same_header a b"
  by (simp_all add: same_header_def)

lemma produce_header:
  "produce c_end c_err (sh, cb, pc) = Some (sh', cb', pc') \<Longrightarrow> same_header sh sh'"
  by (cases "(c_end, c_err, sh, cb, pc)" rule: produce.cases)
    (auto simp: bind_eq_Some_conv Let_def case_prod_beta split: if_splits option.splits
      dest: wait_header)

lemma read_header:
  "hdfstream_read_chunk False sh st = Some (sh', r) \<Longrightarrow> same_header sh sh'"
  by (auto simp: read_chunk_live bind_eq_Some_conv Let_def same_header_def split: if_splits)

lemma run_step_header: "run_step c_end c_err s s' \<Longrightarrow> same_header (sys_sh s) (sys_sh s')"
  by (auto elim!: run_stepE dest!: produce_header read_header)

lemma run_steps_status:
  "(run_step c_end c_err)\<^sup>*\<^sup>* s s' \<Longrightarrow> srd_status (sh_srd (sys_sh s')) = srd_status (sh_srd (sys_sh s))"
  by (induction rule: rtranclp_induct) (auto dest!: run_step_header simp: same_header_def)

lemma sys_steps_buffer_size:
  "(sys_step c_end c_err)\<^sup>*\<^sup>* s s' \<Longrightarrow> srd_buffer_size (sh_srd (sys_sh s')) = srd_buffer_size (sh_srd (sys_sh s))"
  by (induction rule: rtranclp_induct) (auto elim!: sys_stepE dest!: run_step_header simp: same_header_def cancel_def)

definition sample_shared :: shared where
  "sample_shared = \<lparr>sh_mem = (\<lambda>_. 0), sh_srd = shared_data_populate 100 8
     \<lparr>srd_status = 0, srd_total_size = 0, srd_buffer_size = 0, srd_buffer = [],
      srd_nr_file_cache_hits = 0, srd_nr_file_cache_misses = 0\<rparr>\<rparr>"

definition sample_cb :: msgpack_chunkbuffer where
  "sample_cb = \<lparr>cb_buffer_nr = -1, cb_buffer_size = 8\<rparr>"

lemma sample_ready: "request_ready 1024 8 sample_shared sample_cb"
proof -
  have "layout (header_size 100) (sh_srd sample_shared)" unfolding sample_shared_def
    by (simp add: shared_data_layout(1) ALIGNMENT_def NR_BUFFERS_def)
  moreover have "header_size 100 = 1024" by (simp add: header_size_def ALIGNMENT_def)
  ultimately show ?thesis
    by (simp add: request_ready_def sample_shared_def sample_cb_def shared_data_populate_def
        msgpack_chunkbuffer_init_def c_assert_def)
qed


section \<open>Properties\<close>

text \<open>A stream that was read to its end without a cancellation.\<close>

lemma complete_stream:
  assumes "request_ready base S sh cb" "(run_step c_end c_err)\<^sup>*\<^sup>* (sys_init sh cb calls) s" "ds_ended (sys_stream s)"
  shows "concat (sys_out s) = concat calls \<and> sys_result s = Some c_end \<and> sys_pc s = WDone"
proof -
  have inv: "stream_inv base S (concat calls) c_end s"
    by (rule request_reachable_inv[OF assms(1) run_steps_sys[OF assms(2)]])
  have "srd_status (sh_srd (sys_sh s)) = BUFFER_STATUS_OK"
    using run_steps_status[OF assms(2)] by (simp add: sys_init_def BUFFER_STATUS_OK_def)
  with inv_ended(1,2)[OF inv assms(3)] show ?thesis by blast
qed

text \<open>
  C1. What the client of a stream receives is what the reader packed: when neither side gives up,
  the bytes of the chunks, in the order of the calls of hdfstream_read_chunk(), are the
  concatenation of the write calls, and the status that ends the stream is the return code of
  the reader.
\<close>

theorem stream_delivers:
  assumes "request_ready base S sh cb" "(run_step c_end c_err)\<^sup>*\<^sup>* (sys_init sh cb calls) s" "ds_ended (sys_stream s)"
  shows "concat (sys_out s) = concat calls \<and> sys_result s = Some c_end \<and> sys_pc s = WDone"
  by (rule complete_stream[OF assms])

theorem stream_delivers_witness:
  "\<exists>s. (run_step 0 (-1))\<^sup>*\<^sup>* (sys_init sample_shared sample_cb [[1, 2, 3], [4, 5]]) s \<and> ds_ended (sys_stream s) \<and>
     concat (sys_out s) = [1, 2, 3, 4, 5]"
proof -
  obtain s where s: "(run_step 0 (-1))\<^sup>*\<^sup>* (sys_init sample_shared sample_cb [[1, 2, 3], [4, 5]]) s" "ds_ended (sys_stream s)"
    using stream_terminates[OF request_ready_inv[OF sample_ready]] by blast
  with stream_delivers[OF sample_ready s] show ?thesis by auto
qed

text \<open>
  C2. At every moment, cancelled or not, the client has received an initial part of the data, in
  chunks that are neither empty nor larger than the block size of the chunk buffer.
\<close>

theorem stream_in_order:
  assumes "request_ready base S sh cb" "(sys_step c_end c_err)\<^sup>*\<^sup>* (sys_init sh cb calls) s"
  shows "prefix (concat (sys_out s)) (concat calls) \<and> (\<forall>q \<in> set (sys_out s). q \<noteq> [] \<and> length q \<le> S)"
  using request_reachable_inv[OF assms] inv_prefix inv_chunks by blast

theorem stream_in_order_witness:
  "\<exists>s. (sys_step 0 (-1))\<^sup>*\<^sup>* (sys_init sample_shared sample_cb [[7, 8]]) s \<and> ds_ended (sys_stream s) \<and>
     prefix (concat (sys_out s)) [7, 8] \<and> list_all (\<lambda>q. q \<noteq> [] \<and> length q \<le> 8) (sys_out s)"
proof -
  obtain s where s: "(run_step 0 (-1))\<^sup>*\<^sup>* (sys_init sample_shared sample_cb [[7, 8]]) s" "ds_ended (sys_stream s)"
    using stream_terminates[OF request_ready_inv[OF sample_ready]] by blast
  from stream_in_order[OF sample_ready run_steps_sys[OF s(1)]] s run_steps_sys[OF s(1)] show ?thesis
    by (auto simp: list_all_iff)
qed

text \<open>
  C3. A stream always ends: from every reachable state, also after a cancellation, the two
  processes reach the end of the stream, and every run of them is finite (each step decreases a
  measure), so the loop of hdfstream_close_stream() that reads to the end returns.
\<close>

theorem stream_ends:
  assumes "request_ready base S sh cb" "(sys_step c_end c_err)\<^sup>*\<^sup>* (sys_init sh cb calls) s"
  shows "(\<exists>s'. (run_step c_end c_err)\<^sup>*\<^sup>* s s' \<and> ds_ended (sys_stream s')) \<and>
    (\<forall>s'. run_step c_end c_err s s' \<longrightarrow> run_measure (length (concat calls)) s' < run_measure (length (concat calls)) s)"
  using stream_terminates request_reachable_inv[OF assms] run_step_measure by blast

theorem stream_ends_witness:
  "\<exists>s'. (run_step 0 (-1))\<^sup>*\<^sup>* ((sys_init sample_shared sample_cb [[7]])\<lparr>sys_sh := cancel (sys_sh (sys_init sample_shared sample_cb [[7]]))\<rparr>) s' \<and>
     ds_ended (sys_stream s')"
proof -
  let ?s = "sys_init sample_shared sample_cb [[7]]"
  have "sys_step 0 (-1) ?s (?s\<lparr>sys_sh := cancel (sys_sh ?s)\<rparr>)"
    by (rule sys_step.cancel) (simp add: sys_init_def)
  then have "(sys_step 0 (-1))\<^sup>*\<^sup>* ?s (?s\<lparr>sys_sh := cancel (sys_sh ?s)\<rparr>)" by (rule r_into_rtranclp)
  with stream_ends[OF sample_ready] show ?thesis by blast
qed

text \<open>
  C4. No deadlock: in every reachable state in which the client has not seen the end, one of the
  two processes can go on.  The waits for ready_for_write and ready_for_read never block both.
\<close>

theorem stream_no_deadlock:
  assumes "request_ready base S sh cb" "(sys_step c_end c_err)\<^sup>*\<^sup>* (sys_init sh cb calls) s" "\<not> ds_ended (sys_stream s)"
  shows "produce c_end c_err (sys_sh s, sys_cb s, sys_pc s) \<noteq> None \<or> hdfstream_read_chunk False (sys_sh s) (sys_stream s) \<noteq> None"
proof -
  obtain s' where "run_step c_end c_err s s'"
    using inv_progress[OF request_reachable_inv[OF assms(1,2)] assms(3)] by blast
  then show ?thesis by (auto elim!: run_stepE)
qed

theorem stream_no_deadlock_witness:
  "\<not> (produce 0 (-1) (sys_sh (sys_init sample_shared sample_cb [[7]]), sys_cb (sys_init sample_shared sample_cb [[7]]),
     sys_pc (sys_init sample_shared sample_cb [[7]])) = None \<and>
   hdfstream_read_chunk False (sys_sh (sys_init sample_shared sample_cb [[7]])) (sys_stream (sys_init sample_shared sample_cb [[7]])) = None)"
  using stream_no_deadlock[OF sample_ready rtranclp.rtrancl_refl, of "[[7]]" 0 "-1"] by (simp add: sys_init_def)

text \<open>
  The end of a stream leaves the shared memory fit for the next request: whatever happened,
  and with any chunk buffer of a legal size, the next request starts in a ready state.
\<close>

theorem stream_next_request:
  assumes "request_ready base S sh cb" "(sys_step c_end c_err)\<^sup>*\<^sup>* (sys_init sh cb calls) s" "ds_ended (sys_stream s)"
    and "msgpack_chunkbuffer_init S' (sh_srd sh) = Some cb'" "S' < 2 ^ 64"
  shows "request_ready base S' (sys_sh s) cb'"
proof -
  have "srd_buffer_size (sh_srd (sys_sh s)) = srd_buffer_size (sh_srd sh)"
    using sys_steps_buffer_size[OF assms(2)] by (simp add: sys_init_def shared_data_init_semaphores_def)
  then have "msgpack_chunkbuffer_init S' (sh_srd (sys_sh s)) = Some cb'"
    using assms(4) by (simp add: msgpack_chunkbuffer_init_def)
  with inv_ended(3)[OF request_reachable_inv[OF assms(1,2)] assms(3)] assms(5) show ?thesis
    by (simp add: request_ready_def)
qed

theorem stream_next_request_witness:
  "\<exists>s. (run_step 0 (-1))\<^sup>*\<^sup>* (sys_init sample_shared sample_cb [[7]]) s \<and>
     request_ready 1024 5 (sys_sh s) \<lparr>cb_buffer_nr = -1, cb_buffer_size = 5\<rparr>"
proof -
  obtain s where s: "(run_step 0 (-1))\<^sup>*\<^sup>* (sys_init sample_shared sample_cb [[7]]) s" "ds_ended (sys_stream s)"
    using stream_terminates[OF request_ready_inv[OF sample_ready]] by blast
  have "msgpack_chunkbuffer_init 5 (sh_srd sample_shared) = Some \<lparr>cb_buffer_nr = -1, cb_buffer_size = 5\<rparr>"
    by (simp add: msgpack_chunkbuffer_init_def sample_shared_def shared_data_populate_def c_assert_def)
  from stream_next_request[OF sample_ready run_steps_sys[OF s(1)] s(2) this] s(1) show ?thesis by auto
qed


section \<open>A reader that dies\<close>

text \<open>
  The reader process may die at any moment (flag True): it does nothing more, and the waits of the
  client no longer block.
\<close>

inductive crash_step :: "int \<Rightarrow> int \<Rightarrow> system \<times> bool \<Rightarrow> system \<times> bool \<Rightarrow> bool" for c_end c_err where
  live: "sys_step c_end c_err s s' \<Longrightarrow> crash_step c_end c_err (s, False) (s', False)"
| die: "crash_step c_end c_err (s, False) (s, True)"
| drain: "\<not> ds_ended (sys_stream s) \<Longrightarrow>
    hdfstream_read_chunk True (sys_sh s) (sys_stream s) = Some (sh, st, data, status) \<Longrightarrow>
    crash_step c_end c_err (s, True) (s\<lparr>sys_sh := sh, sys_stream := st,
      sys_out := sys_out s @ (if data = [] then [] else [data]),
      sys_result := (if ds_ended st then status else None)\<rparr>, True)"
| cancel_dead: "\<not> ds_ended (sys_stream s) \<Longrightarrow>
    crash_step c_end c_err (s, True) (s\<lparr>sys_sh := cancel (sys_sh s)\<rparr>, True)"

inductive_cases crash_stepE: "crash_step c_end c_err s s'"

text \<open>A stream that the death of the reader ended: otherwise the state it was in before.\<close>

definition broken_off :: "system \<Rightarrow> system" where
  "broken_off s = s\<lparr>sys_stream := (sys_stream s)\<lparr>ds_ended := True\<rparr>, sys_result := Some BUFFER_STATUS_ERROR\<rparr>"

definition crash_inv :: "nat \<Rightarrow> nat \<Rightarrow> byte list \<Rightarrow> int \<Rightarrow> system \<times> bool \<Rightarrow> bool" where
  "crash_inv base S D c_end p \<longleftrightarrow> stream_inv base S D c_end (fst p) \<or>
     snd p \<and> (\<exists>s. stream_inv base S D c_end s \<and> fst p = broken_off s)"

lemma broken_off_ended [simp]: "ds_ended (sys_stream (broken_off s))"
  by (simp add: broken_off_def)

lemma crash_inv_step:
  assumes "crash_step c_end c_err p p'" "crash_inv base S D c_end p"
  shows "crash_inv base S D c_end p'"
  using assms(1)
proof cases
  case (live s s')
  with assms(2) sys_step_inv[OF live(3)] show ?thesis by (simp add: crash_inv_def)
next
  case (die s)
  with assms(2) show ?thesis by (simp add: crash_inv_def)
next
  case (drain s sh st data status)
  from drain(1,3) assms(2) have inv: "stream_inv base S D c_end s" by (auto simp: crash_inv_def)
  show ?thesis
  proof (cases "hdfstream_read_chunk False (sys_sh s) (sys_stream s)")
    case None
    with drain(4) have eq: "sh = sys_sh s" "st = (sys_stream s)\<lparr>ds_ended := True\<rparr>" "data = []" "status = Some BUFFER_STATUS_ERROR"
      by (simp_all add: read_chunk_dead)
    have "fst p' = broken_off s" by (simp add: drain(2) eq broken_off_def)
    with inv drain(2) show ?thesis by (auto simp: crash_inv_def)
  next
    case (Some r)
    with drain(4) have "hdfstream_read_chunk False (sys_sh s) (sys_stream s) = Some (sh, st, data, status)"
      by (simp add: read_chunk_dead)
    from run_step_inv[OF run_step.consumer[OF drain(3) this] inv] show ?thesis
      by (simp add: crash_inv_def drain(2))
  qed
next
  case (cancel_dead s)
  from cancel_dead(1,3) assms(2) have "stream_inv base S D c_end s" by (auto simp: crash_inv_def)
  from sys_step_inv[OF sys_step.cancel[OF cancel_dead(3)] this] cancel_dead(2) show ?thesis
    by (simp add: crash_inv_def)
qed

lemma crash_inv_steps:
  "(crash_step c_end c_err)\<^sup>*\<^sup>* p p' \<Longrightarrow> crash_inv base S D c_end p \<Longrightarrow> crash_inv base S D c_end p'"
  by (induction rule: rtranclp_induct) (auto intro: crash_inv_step)

lemma request_crash_inv:
  "request_ready base S sh cb \<Longrightarrow> (crash_step c_end c_err)\<^sup>*\<^sup>* (sys_init sh cb calls, False) p \<Longrightarrow>
   crash_inv base S (concat calls) c_end p"
  using crash_inv_steps request_ready_inv by (fastforce simp: crash_inv_def)

text \<open>
  C5. The death of the reader is never taken for the end of the data: whatever the moment it dies,
  the client has an initial part of the data, none of its calls blocks any more, and when the
  stream ends without a cancellation and its status is not BUFFER_STATUS_ERROR, all of the data
  was delivered.
\<close>

theorem crash_detected:
  assumes "request_ready base S sh cb" "(crash_step c_end c_err)\<^sup>*\<^sup>* (sys_init sh cb calls, False) (s, dead)"
  shows "prefix (concat (sys_out s)) (concat calls) \<and>
    (dead \<longrightarrow> hdfstream_read_chunk True (sys_sh s) (sys_stream s) \<noteq> None) \<and>
    (ds_ended (sys_stream s) \<and> srd_status (sh_srd (sys_sh s)) = BUFFER_STATUS_OK \<and> sys_result s \<noteq> Some BUFFER_STATUS_ERROR \<longrightarrow>
      concat (sys_out s) = concat calls \<and> sys_result s = Some c_end)"
proof -
  have inv: "crash_inv base S (concat calls) c_end (s, dead)" by (rule request_crash_inv[OF assms])
  have "prefix (concat (sys_out s)) (concat calls)"
    using inv inv_prefix by (fastforce simp: crash_inv_def broken_off_def)
  moreover have "hdfstream_read_chunk True (sys_sh s) (sys_stream s) \<noteq> None"
    by (simp add: read_chunk_dead split: option.split)
  moreover have "concat (sys_out s) = concat calls \<and> sys_result s = Some c_end"
    if "ds_ended (sys_stream s)" "srd_status (sh_srd (sys_sh s)) = BUFFER_STATUS_OK" "sys_result s \<noteq> Some BUFFER_STATUS_ERROR"
    using inv that inv_ended(2)[of base S "concat calls" c_end s] by (auto simp: crash_inv_def broken_off_def)
  ultimately show ?thesis by blast
qed

theorem crash_detected_witness:
  "\<exists>s. (crash_step 0 (-1))\<^sup>*\<^sup>* (sys_init sample_shared sample_cb [[7]], False) (s, True) \<and>
     hdfstream_read_chunk True (sys_sh s) (sys_stream s) \<noteq> None \<and> prefix (concat (sys_out s)) [7]"
proof -
  let ?s = "sys_init sample_shared sample_cb [[7]]"
  have r: "(crash_step 0 (-1))\<^sup>*\<^sup>* (?s, False) (?s, True)" by (rule r_into_rtranclp) (rule crash_step.die)
  from crash_detected[OF sample_ready r] r show ?thesis by auto
qed

end
