(* ===== verification/Service.thy ===== *)
theory Service
  imports Protocol Streams
begin

text \<open>
  Both sides of a request, from the call of the client to the call of the packer: the parent sends
  the request, the reader receives it, opens the file and the dataset through its cache and answers,
  and the parent brings its shadow cache up to date.  handle_ok is what one request needs and leaves
  behind for the next.
\<close>

lemma reader_status:
  "reader_open_dataset fo dopen now fc f d = Some (fc', status, did) \<Longrightarrow>
   status = 0 \<or> status = RESULT_FILE_OPENED \<or> (status = RESULT_FILE_OPENED + RESULT_DATASET_OPENED \<and> 0 \<le> did)"
  by (auto simp: reader_open_dataset_def bind_eq_Some_conv split: option.splits if_splits)

lemma reader_object_status:
  "reader_open_object fo now fc f = Some (fc', status) \<Longrightarrow> status = 0 \<or> status = RESULT_FILE_OPENED"
  by (auto simp: reader_open_object_def bind_eq_Some_conv split: if_splits)

lemma status_bytes:
  "status = 0 \<or> status = RESULT_FILE_OPENED \<or> status = RESULT_FILE_OPENED + RESULT_DATASET_OPENED \<Longrightarrow>
   bytes_int (int_bytes status) = status"
  by (rule int_roundtrip) (auto simp: RESULT_FILE_OPENED_def RESULT_DATASET_OPENED_def)

lemma exchange_exact:
  assumes "\<not> wp_is_dead (rh_worker h)" "writes ws (length (concat msgs))" "reads rs 4"
  shows "exchange st ws rs (int_bytes status) h msgs = Some (h, Some (bytes_int (int_bytes status)), concat msgs)"
proof -
  obtain ws' where s: "send_messages st ws (rh_worker h) msgs = Some (rh_worker h, 0, concat msgs, ws')"
    using send_messages_exact [OF assms(1), of ws msgs 0] assms(2) by auto
  obtain rs' where r: "worker_process_recv st rs (rh_worker h) (int_bytes status) 4 =
      Some (rh_worker h, 0, take 4 (int_bytes status), drop 4 (int_bytes status), rs')"
    by (rule worker_process_recv_exact [of rs 4 0 "int_bytes status" "rh_worker h" st]) (use assms in auto)
  show ?thesis using s r by (simp add: exchange_def)
qed

lemma start_stream_fields [simp]:
  "rh_worker (fst (start_stream h)) = rh_worker h" "rh_cache (fst (start_stream h)) = rh_cache h"
  "srd_buffer_size (rh_srd (fst (start_stream h))) = srd_buffer_size (rh_srd h)"
  by (simp_all add: start_stream_def shared_data_init_semaphores_def Let_def)

section \<open>The state between two requests\<close>

text \<open>
  fc is the cache of the reader and base the size of the header of the shared memory: the shadow
  copy mirrors the cache, the worker is alive, and the shared memory can take a stream.
\<close>

definition handle_ok :: "nat \<Rightarrow> file_cache \<Rightarrow> reader_handle \<Rightarrow> bool" where
  "handle_ok base fc h \<longleftrightarrow>
     mirrors prefix fc (rh_cache h) \<and> \<not> wp_is_dead (rh_worker h) \<and> layout base (rh_srd h) \<and>
     list_all (\<lambda>b. bd_ready_for_write b \<le> 1) (srd_buffer (rh_srd h)) \<and>
     0 < srd_buffer_size (rh_srd h) \<and> srd_buffer_size (rh_srd h) < 2 ^ 64"

abbreviation fresh_cb :: "nat \<Rightarrow> msgpack_chunkbuffer" where
  "fresh_cb n \<equiv> \<lparr>cb_buffer_nr = -1, cb_buffer_size = n\<rparr>"

lemma handle_ready:
  assumes "handle_ok base fc h" "0 < n"
  shows "msgpack_chunkbuffer_init (clamp (srd_buffer_size (rh_srd h)) n) (rh_srd h) = Some (fresh_cb (clamp (srd_buffer_size (rh_srd h)) n))"
    and "request_ready base (clamp (srd_buffer_size (rh_srd h)) n) \<lparr>sh_mem = mem, sh_srd = rh_srd h\<rparr>
      (fresh_cb (clamp (srd_buffer_size (rh_srd h)) n))"
proof -
  let ?S = "clamp (srd_buffer_size (rh_srd h)) n"
  have S: "0 < ?S" "?S \<le> srd_buffer_size (rh_srd h)" using assms by (auto simp: clamp_def handle_ok_def)
  then show 1: "msgpack_chunkbuffer_init ?S (rh_srd h) = Some (fresh_cb ?S)" by (simp add: msgpack_chunkbuffer_init_def)
  show "request_ready base ?S \<lparr>sh_mem = mem, sh_srd = rh_srd h\<rparr> (fresh_cb ?S)"
    using assms(1) S 1 by (auto simp: request_ready_def handle_ok_def list_all_iff)
qed

section \<open>A dataset\<close>

lemma reader_serves_dataset:
  assumes r: "receive_dataset_request (srd_buffer_size srd) inp = Some (req, inp')"
    and o: "reader_open_dataset fo dopen now fc (dr_file_name req) (dr_dataset_name req) = Some (fc', status, did)"
    and "writes ws 4" "0 < dr_buffer_size req" "dr_buffer_size req \<le> srd_buffer_size srd"
  obtains srd' where "do_read_dataset fo dopen now ws fc srd inp =
    Some (fc', srd', status, int_bytes status,
      if dataset_bit status then Some (fresh_cb (dr_buffer_size req), did, req) else None, inp')"
proof -
  obtain ws' where "worker_send ws (int_bytes status) = Some (0, int_bytes status, ws')"
    by (rule worker_send_exact [of ws "int_bytes status" 0]) (use assms(3) in auto)
  then show thesis
    using that r o assms(4,5) by (auto simp: do_read_dataset_def Let_def msgpack_chunkbuffer_init_def)
qed

lemma parent_opens_dataset:
  assumes "dataset_request_ok req" "\<not> wp_is_dead (rh_worker h)"
    and "writes ws (length (concat (dataset_messages req)))" "reads rs 4"
    and o: "shadow_dataset_request status now (rh_cache h) (dr_file_name req) (dr_dataset_name req) = Some cache"
    and sb: "bytes_int (int_bytes status) = status"
  shows "hdfstream_dataset_multi_slice_open st ws rs now (int_bytes status) (Some h) (Some (dr_file_name req))
      (Some (dr_dataset_name req)) (dr_nr_slices req) (dr_rank req) (Some (dr_start req)) (Some (dr_count req)) (dr_buffer_size req) =
    (let h' = (fst (start_stream h))\<lparr>rh_cache := cache\<rparr>
     in Some (if status \<noteq> RESULT_FILE_OPENED + RESULT_DATASET_OPENED then Released h' else Started h' (snd (start_stream h)),
          concat (dataset_messages req)))"
proof -
  have v: "valid_dataset_request (Some (dr_file_name req)) (Some (dr_dataset_name req)) (dr_nr_slices req) (dr_rank req)
      (Some (dr_start req)) (Some (dr_count req)) (dr_buffer_size req)"
    using assms(1) by (simp add: valid_dataset_request_def dataset_request_ok_def)
  have x: "exchange st ws rs (int_bytes status) (fst (start_stream h)) (dataset_messages req) =
      Some (fst (start_stream h), Some status, concat (dataset_messages req))"
    using exchange_exact [of "fst (start_stream h)" ws "dataset_messages req" rs st status] assms(2-4) sb by simp
  obtain h1 str where ss: "start_stream h = (h1, str)" by (cases "start_stream h")
  have eta: "\<lparr>dr_file_name = dr_file_name req, dr_dataset_name = dr_dataset_name req, dr_rank = dr_rank req,
      dr_nr_slices = dr_nr_slices req, dr_start = dr_start req, dr_count = dr_count req, dr_buffer_size = dr_buffer_size req\<rparr> = req"
    by (cases req) simp
  have "rh_cache h1 = rh_cache h" using ss start_stream_fields(2) [of h] by simp
  then show ?thesis using v x o by (simp add: hdfstream_dataset_multi_slice_open_def ss eta Let_def)
qed

text \<open>
  The parent and the reader agree on the outcome, and the caches mirror each other again.  fresh
  is the chunk buffer of the reader, and ready that a stream can start with it.
\<close>

lemma dataset_served:
  assumes h: "handle_ok base fc h" and ok: "dataset_request_ok req"
    and "writes ws (length (concat (dataset_messages req)))" and "reads rs (length (concat (dataset_messages req)))"
    and "writes ws_reply 4" and "reads rs_reply 4"
  defines "n \<equiv> clamp (srd_buffer_size (rh_srd h)) (dr_buffer_size req)"
  obtains inp fc' srd' status did inp' cache where
    "main_step 0 e polls (rs, concat (dataset_messages req)) = Some (ReadDataset, inp)"
    "do_read_dataset fo dopen now ws_reply fc (rh_srd (fst (start_stream h))) inp =
       Some (fc', srd', status, int_bytes status, if dataset_bit status then Some (fresh_cb n, did, req\<lparr>dr_buffer_size := n\<rparr>) else None, inp')"
    "hdfstream_dataset_multi_slice_open st ws rs_reply now' (int_bytes status) (Some h) (Some (dr_file_name req)) (Some (dr_dataset_name req))
      (dr_nr_slices req) (dr_rank req) (Some (dr_start req)) (Some (dr_count req)) (dr_buffer_size req) =
      (let h' = (fst (start_stream h))\<lparr>rh_cache := cache\<rparr>
       in Some (if \<not> dataset_bit status then Released h' else Started h' (snd (start_stream h)), concat (dataset_messages req)))"
    "snd inp' = []" "mirrors prefix fc' cache" "dataset_bit status \<longrightarrow> 0 \<le> did"
proof -
  have alive: "\<not> wp_is_dead (rh_worker h)" and m: "mirrors prefix fc (rh_cache h)" using h by (simp_all add: handle_ok_def)
  obtain inp inp' where r: "main_step 0 e polls (rs, concat (dataset_messages req) @ []) = Some (ReadDataset, inp)"
    "receive_dataset_request (srd_buffer_size (rh_srd h)) inp = Some (req\<lparr>dr_buffer_size := n\<rparr>, inp')" "snd inp' = []"
    unfolding n_def by (rule dataset_request_received [OF ok assms(4)])
  obtain fc' status did cache where o: "reader_open_dataset fo dopen now fc (dr_file_name req) (dr_dataset_name req) = Some (fc', status, did)"
    "shadow_dataset_request status now' (rh_cache h) (dr_file_name req) (dr_dataset_name req) = Some cache" "mirrors prefix fc' cache"
    by (rule prefix_mirror.mirrors_dataset_request [OF m])
  note st3 = reader_status [OF o(1)]
  have sb: "bytes_int (int_bytes status) = status" using st3 by (intro status_bytes) auto
  have bit: "dataset_bit status \<longleftrightarrow> status = RESULT_FILE_OPENED + RESULT_DATASET_OPENED" "dataset_bit status \<longrightarrow> 0 \<le> did"
    using st3 by (auto simp: bits dataset_bit_def RESULT_FILE_OPENED_def RESULT_DATASET_OPENED_def)
  have n: "0 < n" "n \<le> srd_buffer_size (rh_srd h)" using h ok by (auto simp: n_def clamp_def handle_ok_def dataset_request_ok_def)
  obtain srd' where reader: "do_read_dataset fo dopen now ws_reply fc (rh_srd (fst (start_stream h))) inp =
      Some (fc', srd', status, int_bytes status, if dataset_bit status then Some (fresh_cb n, did, req\<lparr>dr_buffer_size := n\<rparr>) else None, inp')"
    by (rule reader_serves_dataset [of "rh_srd (fst (start_stream h))" inp "req\<lparr>dr_buffer_size := n\<rparr>" inp'])
      (use r(2) o(1) assms(5) n in auto)
  show thesis
    using that [OF _ reader _ r(3) o(3) bit(2)] r(1) parent_opens_dataset [OF ok alive assms(3,6) o(2) sb] bit(1) by simp
qed

section \<open>An object\<close>

lemma reader_serves_object:
  assumes r: "receive_object_request (srd_buffer_size srd) inp = Some (req, inp')"
    and o: "reader_open_object fo now fc (or_file_name req) = Some (fc', status)"
    and "writes ws 4" "0 < or_buffer_size req" "or_buffer_size req \<le> srd_buffer_size srd"
  obtains srd' where "do_read_object fo now ws fc srd inp =
    Some (fc', srd', status, int_bytes status, if file_bit status then Some (fresh_cb (or_buffer_size req), req) else None, inp')"
proof -
  obtain ws' where "worker_send ws (int_bytes status) = Some (0, int_bytes status, ws')"
    by (rule worker_send_exact [of ws "int_bytes status" 0]) (use assms(3) in auto)
  then show thesis
    using that r o assms(4,5) by (auto simp: do_read_object_def Let_def msgpack_chunkbuffer_init_def)
qed

lemma parent_opens_object:
  assumes "object_request_ok req" "\<not> wp_is_dead (rh_worker h)"
    and "writes ws (length (concat (object_messages req)))" "reads rs 4"
    and o: "shadow_object_request status now (rh_cache h) (or_file_name req) = Some cache"
    and sb: "bytes_int (int_bytes status) = status"
  shows "hdfstream_object_open st ws rs now (int_bytes status) (Some h) (Some (or_file_name req)) (Some (or_object_name req))
      (or_max_depth req) (or_buffer_size req) (or_data_size_limit req) =
    (let h' = (fst (start_stream h))\<lparr>rh_cache := cache\<rparr>
     in Some (if \<not> file_bit status then Released h' else Started h' (snd (start_stream h)), concat (object_messages req)))"
proof -
  have v: "valid_object_request (Some (or_file_name req)) (Some (or_object_name req)) (or_max_depth req) (or_buffer_size req)"
    using assms(1) by (simp add: valid_object_request_def object_request_ok_def)
  have x: "exchange st ws rs (int_bytes status) (fst (start_stream h)) (object_messages req) =
      Some (fst (start_stream h), Some status, concat (object_messages req))"
    using exchange_exact [of "fst (start_stream h)" ws "object_messages req" rs st status] assms(2-4) sb by simp
  obtain h1 str where ss: "start_stream h = (h1, str)" by (cases "start_stream h")
  have eta: "\<lparr>or_file_name = or_file_name req, or_object_name = or_object_name req, or_max_depth = or_max_depth req,
      or_data_size_limit = or_data_size_limit req, or_buffer_size = or_buffer_size req\<rparr> = req"
    by (cases req) simp
  have "rh_cache h1 = rh_cache h" using ss start_stream_fields(2) [of h] by simp
  then show ?thesis using v x o by (simp add: hdfstream_object_open_def ss eta Let_def)
qed

lemma object_served:
  assumes h: "handle_ok base fc h" and ok: "object_request_ok req"
    and "writes ws (length (concat (object_messages req)))" and "reads rs (length (concat (object_messages req)))"
    and "writes ws_reply 4" and "reads rs_reply 4"
  defines "n \<equiv> clamp (srd_buffer_size (rh_srd h)) (or_buffer_size req)"
  obtains inp fc' srd' status inp' cache where
    "main_step 0 e polls (rs, concat (object_messages req)) = Some (ReadObject, inp)"
    "do_read_object fo now ws_reply fc (rh_srd (fst (start_stream h))) inp =
       Some (fc', srd', status, int_bytes status, if file_bit status then Some (fresh_cb n, req\<lparr>or_buffer_size := n\<rparr>) else None, inp')"
    "hdfstream_object_open st ws rs_reply now' (int_bytes status) (Some h) (Some (or_file_name req)) (Some (or_object_name req))
      (or_max_depth req) (or_buffer_size req) (or_data_size_limit req) =
      (let h' = (fst (start_stream h))\<lparr>rh_cache := cache\<rparr>
       in Some (if \<not> file_bit status then Released h' else Started h' (snd (start_stream h)), concat (object_messages req)))"
    "snd inp' = []" "mirrors prefix fc' cache"
proof -
  have alive: "\<not> wp_is_dead (rh_worker h)" and m: "mirrors prefix fc (rh_cache h)" using h by (simp_all add: handle_ok_def)
  obtain inp inp' where r: "main_step 0 e polls (rs, concat (object_messages req) @ []) = Some (ReadObject, inp)"
    "receive_object_request (srd_buffer_size (rh_srd h)) inp = Some (req\<lparr>or_buffer_size := n\<rparr>, inp')" "snd inp' = []"
    unfolding n_def by (rule object_request_received [OF ok assms(4)])
  obtain fc' status cache where o: "reader_open_object fo now fc (or_file_name req) = Some (fc', status)"
    "shadow_object_request status now' (rh_cache h) (or_file_name req) = Some cache" "mirrors prefix fc' cache"
    by (rule prefix_mirror.mirrors_object_request [OF m])
  have sb: "bytes_int (int_bytes status) = status" using reader_object_status [OF o(1)] by (intro status_bytes) auto
  have n: "0 < n" "n \<le> srd_buffer_size (rh_srd h)" using h ok by (auto simp: n_def clamp_def handle_ok_def object_request_ok_def)
  obtain srd' where reader: "do_read_object fo now ws_reply fc (rh_srd (fst (start_stream h))) inp =
      Some (fc', srd', status, int_bytes status, if file_bit status then Some (fresh_cb n, req\<lparr>or_buffer_size := n\<rparr>) else None, inp')"
    by (rule reader_serves_object [of "rh_srd (fst (start_stream h))" inp "req\<lparr>or_buffer_size := n\<rparr>" inp'])
      (use r(2) o(1) assms(5) n in auto)
  show thesis
    using that [OF _ reader _ r(3) o(3)] r(1) parent_opens_object [OF ok alive assms(3,6) o(2) sb] by simp
qed

end
