(* ===== verification/Msgpack.thy ===== *)
theory Msgpack
  imports SharedData
begin

text \<open>
  The interface of the packers to the msgpack library.

  A call of the library writes one token through the callback of the packer: the header of a map,
  an array, a string or a binary object, a scalar, or the raw bytes of a string or a binary
  object.  A msgpack_packer is a pair: the number of writes that still succeed, and the tokens
  written so far.  The callback is msgpack_chunkbuffer_write(), which keeps failing once the
  stream was cancelled, so a write that fails is followed only by writes that fail; a write of no
  bytes does nothing and always succeeds.
\<close>

section \<open>Tokens\<close>

datatype token =
    Map nat | Array nat | Str nat | Bin nat | Raw "byte list" | Tok_true | Nil_tok | UInt nat | SInt int

type_synonym msgpack_packer = "nat \<times> token list"
type_synonym action = "msgpack_packer \<Rightarrow> int \<times> msgpack_packer"

definition emit :: "token \<Rightarrow> action" where
  "emit t pk = (if t = Raw [] then (0, pk)
     else case fst pk of 0 \<Rightarrow> (-1, pk) | Suc b \<Rightarrow> (0, (b, snd pk @ [t])))"

definition char_bytes :: "string \<Rightarrow> byte list" where
  "char_bytes s = map (\<lambda>c. of_nat (of_char c :: nat)) s"

text \<open>
  A sequence of calls check(...): the first one that fails ends it with the code -1 of the cleanup
  block.  ignored is a sequence of calls whose results are ignored.
\<close>

fun checked :: "action list \<Rightarrow> action" where
  "checked [] pk = (0, pk)"
| "checked (a # as) pk = (case a pk of (rc, pk) \<Rightarrow> if rc \<noteq> 0 then (-1, pk) else checked as pk)"

fun ignored :: "action list \<Rightarrow> action" where
  "ignored [] pk = (0, pk)"
| "ignored (a # as) pk = ignored as (snd (a pk))"

definition pack_str :: "string \<Rightarrow> action list" where
  "pack_str s = [emit (Str (length s)), emit (Raw (char_bytes s))]"

section \<open>Well-formed output\<close>

text \<open>
  feed (k, r) ts: k objects and r raw bytes are missing; the result is what is missing after the
  tokens ts, and None if they do not fit, as when a map has more entries than it announced.
\<close>

fun feed :: "nat \<times> nat \<Rightarrow> token list \<Rightarrow> (nat \<times> nat) option" where
  "feed s [] = Some s"
| "feed (k, r) (Raw bs # ts) = (if length bs \<le> r then feed (k, r - length bs) ts else None)"
| "feed (k, r) (t # ts) =
     (if r > 0 \<or> k = 0 then None
      else feed (case t of Map n \<Rightarrow> (k - 1 + 2 * n, 0) | Array n \<Rightarrow> (k - 1 + n, 0)
                 | Str n \<Rightarrow> (k - 1, n) | Bin n \<Rightarrow> (k - 1, n) | _ \<Rightarrow> (k - 1, 0)) ts)"

text \<open>The tokens take what is missing from (i, r) to (j, s), whatever else is missing.\<close>

definition moves :: "nat \<times> nat \<Rightarrow> nat \<times> nat \<Rightarrow> token list \<Rightarrow> bool" where
  "moves a c ts \<longleftrightarrow> (\<forall>k. feed (k + fst a, snd a) ts = Some (k + fst c, snd c))"

text \<open>One complete msgpack object.\<close>

definition one_object :: "token list \<Rightarrow> bool" where
  "one_object ts \<longleftrightarrow> feed (1, 0) ts = Some (0, 0)"

lemma feed_append: "feed s (ts @ us) = Option.bind (feed s ts) (\<lambda>s. feed s us)"
  by (induction s ts rule: feed.induct) auto

lemma moves_trans: "moves a c ts \<Longrightarrow> moves c e us \<Longrightarrow> moves a e (ts @ us)"
  by (simp add: moves_def feed_append)

lemma moves_frame:
  assumes "moves (i, r) (j, s) ts"
  shows "moves (i + m, r) (j + m, s) ts"
  unfolding moves_def
proof
  fix k
  have "feed ((k + m) + i, r) ts = Some ((k + m) + j, s)" using assms by (simp add: moves_def)
  then show "feed (k + fst (i + m, r), snd (i + m, r)) ts = Some (k + fst (j + m, s), snd (j + m, s))"
    by (simp add: add.assoc add.commute add.left_commute)
qed

lemma moves_nil [simp]: "moves a a []"
  by (simp add: moves_def)

lemma moves_one: "moves (1, 0) (0, 0) ts \<Longrightarrow> one_object ts"
  using moves_def [of "(1, 0)" "(0, 0)" ts] by (auto simp: one_object_def dest: spec [of _ 0])

section \<open>What an action writes\<close>

text \<open>
  wrote pk pk' x y: from pk to pk' tokens were appended that take what is missing from x to y, and
  every write succeeded.  may_write is the same if writes can still succeed in pk'; otherwise the
  writes began to fail and nothing is said about the output.

  packs a x y: when the action a succeeds, it wrote x to y.  quiet_packs is weaker, for an action
  that ignores the results of its writes.  strict: the action does not succeed when writes fail.
\<close>

definition wrote :: "msgpack_packer \<Rightarrow> msgpack_packer \<Rightarrow> nat \<times> nat \<Rightarrow> nat \<times> nat \<Rightarrow> bool" where
  "wrote pk pk' x y \<longleftrightarrow> (\<exists>ts. snd pk' = snd pk @ ts \<and> fst pk = fst pk' + length ts \<and> moves x y ts)"

definition may_write :: "msgpack_packer \<Rightarrow> msgpack_packer \<Rightarrow> nat \<times> nat \<Rightarrow> nat \<times> nat \<Rightarrow> bool" where
  "may_write pk pk' x y \<longleftrightarrow> fst pk' = 0 \<or> wrote pk pk' x y"

definition packs :: "action \<Rightarrow> nat \<times> nat \<Rightarrow> nat \<times> nat \<Rightarrow> bool" where
  "packs a x y \<longleftrightarrow> (\<forall>pk pk'. a pk = (0, pk') \<longrightarrow> wrote pk pk' x y)"

definition quiet_packs :: "action \<Rightarrow> nat \<times> nat \<Rightarrow> nat \<times> nat \<Rightarrow> bool" where
  "quiet_packs a x y \<longleftrightarrow> (\<forall>pk pk'. a pk = (0, pk') \<longrightarrow> may_write pk pk' x y)"

definition strict :: "action \<Rightarrow> bool" where
  "strict a \<longleftrightarrow> (\<forall>pk. fst pk = 0 \<longrightarrow> fst (a pk) \<noteq> 0)"

lemma wrote_refl [simp]: "wrote pk pk x x"
  by (auto simp: wrote_def intro!: exI [of _ "[]"])

lemma wrote_trans: "wrote p q x y \<Longrightarrow> wrote q r y z \<Longrightarrow> wrote p r x z"
  unfolding wrote_def by (elim exE, rule_tac x = "ts @ tsa" in exI) (auto intro: moves_trans)

lemma wrote_frame: "wrote p q (i, r) (j, s) \<Longrightarrow> wrote p q (i + m, r) (j + m, s)"
  unfolding wrote_def using moves_frame by blast

lemma may_refl [simp]: "may_write pk pk x x"
  by (simp add: may_write_def)

lemma may_trans: "may_write p q x y \<Longrightarrow> may_write q r y z \<Longrightarrow> may_write p r x z"
  unfolding may_write_def by (metis add_is_0 wrote_def wrote_trans)

lemma may_frame: "may_write p q (i, r) (j, s) \<Longrightarrow> may_write p q (i + m, r) (j + m, s)"
  unfolding may_write_def using wrote_frame by blast

lemma packsD: "packs a x y \<Longrightarrow> a pk = (0, pk') \<Longrightarrow> wrote pk pk' x y"
  unfolding packs_def by blast

lemma quietD: "quiet_packs a x y \<Longrightarrow> a pk = (0, pk') \<Longrightarrow> may_write pk pk' x y"
  unfolding quiet_packs_def by blast

lemma strictD: "strict a \<Longrightarrow> a pk = (0, pk') \<Longrightarrow> fst pk \<noteq> 0"
  unfolding strict_def by (metis fst_conv)

lemma packs_quiet: "packs a x y \<Longrightarrow> quiet_packs a x y"
  unfolding packs_def quiet_packs_def may_write_def by blast

lemma emit_writes: "moves x y [t] \<Longrightarrow> may_write pk (snd (emit t pk)) x y"
  by (auto simp: may_write_def wrote_def emit_def moves_def split: nat.splits intro!: exI [of _ "[]"])

lemma packs_emit: "moves x y [t] \<Longrightarrow> packs (emit t) x y"
  by (auto simp: packs_def wrote_def emit_def moves_def split: nat.splits if_splits)

lemma strict_emit [simp]: "t \<noteq> Raw [] \<Longrightarrow> strict (emit t)"
  by (simp add: strict_def emit_def)

lemma packs_nil: "packs (checked []) x x"
  by (simp add: packs_def)

lemma checkedE:
  assumes "checked (a # as) pk = (0, pk')"
  obtains pk1 where "a pk = (0, pk1)" "checked as pk1 = (0, pk')"
  using assms by (auto split: prod.splits if_splits)

lemma packs_cons: "packs a x y \<Longrightarrow> packs (checked as) y z \<Longrightarrow> packs (checked (a # as)) x z"
  unfolding packs_def by (blast elim: checkedE intro: wrote_trans)

lemma packs_quiet_cons:
  "quiet_packs a x y \<Longrightarrow> packs (checked as) y z \<Longrightarrow> strict (checked as) \<Longrightarrow> packs (checked (a # as)) x z"
  unfolding packs_def quiet_packs_def may_write_def by (blast elim: checkedE intro: wrote_trans dest: strictD)

lemma checked_append:
  assumes "checked (as @ bs) pk = (0, pk')"
  obtains pk1 where "checked as pk = (0, pk1)" "checked bs pk1 = (0, pk')"
  using assms by (induction as arbitrary: pk) (auto split: prod.splits if_splits)

lemma packs_append: "packs (checked as) x y \<Longrightarrow> packs (checked bs) y z \<Longrightarrow> packs (checked (as @ bs)) x z"
  unfolding packs_def by (blast elim: checked_append intro: wrote_trans)

lemma strict_cons: "strict a \<Longrightarrow> strict (checked (a # as))"
  by (auto simp: strict_def split: prod.split) (metis fst_conv)

lemma packs_frame: "packs a (i, r) (j, s) \<Longrightarrow> packs a (i + m, r) (j + m, s)"
  unfolding packs_def using wrote_frame by blast

lemma quiet_frame: "quiet_packs a (i, r) (j, s) \<Longrightarrow> quiet_packs a (i + m, r) (j + m, s)"
  unfolding quiet_packs_def using may_frame by blast

text \<open>The tokens one by one, with k objects to follow.\<close>

lemma moves_tokens:
  "moves (Suc k, 0) (k + 2 * n, 0) [Map n]" "moves (Suc k, 0) (k + n, 0) [Array n]"
  "moves (Suc k, 0) (k, n) [Str n]" "moves (Suc k, 0) (k, n) [Bin n]"
  "length bs \<le> r \<Longrightarrow> moves (k, r) (k, r - length bs) [Raw bs]"
  "moves (Suc k, 0) (k, 0) [Tok_true]" "moves (Suc k, 0) (k, 0) [Nil_tok]"
  "moves (Suc k, 0) (k, 0) [UInt u]" "moves (Suc k, 0) (k, 0) [SInt i]"
  by (simp_all add: moves_def)

lemmas packs_token = moves_tokens [THEN packs_emit]

lemma length_char_bytes [simp]: "length (char_bytes s) = length s"
  by (simp add: char_bytes_def)

lemma packs_str: "packs (checked (pack_str s)) (Suc k, 0) (k, 0)"
proof -
  have "packs (emit (Raw (char_bytes s))) (k, length s) (k, 0)" using packs_token(5) [of "char_bytes s" "length s" k] by simp
  then show ?thesis unfolding pack_str_def by (intro packs_cons [OF packs_token(3)] packs_cons [OF _ packs_nil])
qed

lemma packs_str_append: "packs (checked as) (k, 0) y \<Longrightarrow> packs (checked (pack_str s @ as)) (Suc k, 0) y"
  by (rule packs_append [OF packs_str])

lemma strict_str [simp]: "strict (checked (pack_str s @ as))"
  by (simp add: pack_str_def strict_cons)

text \<open>
  A sequence of writes whose results are ignored; ignored_packs takes the states between them as
  the sum of what each of them writes.
\<close>

lemma ignored_nil [simp]: "may_write pk (snd (ignored [] pk)) x x"
  by simp

lemma ignored_cons:
  assumes "\<And>pk. may_write pk (snd (a pk)) x y" "\<And>pk. may_write pk (snd (ignored as pk)) y z"
  shows "may_write pk (snd (ignored (a # as) pk)) x z"
  using may_trans [OF assms(1) assms(2)] by simp

lemma ignored_append: "ignored (as @ bs) pk = ignored bs (snd (ignored as pk))"
  by (induction as arbitrary: pk) auto

lemma ignored_str: "may_write pk (snd (ignored (pack_str s) pk)) (Suc k, 0) (k, 0)"
proof -
  have "may_write pk (snd (emit (Raw (char_bytes s)) pk)) (k, length s) (k, 0)" for pk
    using emit_writes [OF moves_tokens(5), of "char_bytes s" "length s"] by simp
  then show ?thesis
    unfolding pack_str_def by (intro ignored_cons [OF emit_writes [OF moves_tokens(3)]] ignored_cons [OF _ ignored_nil])
qed

lemma ignored_result [simp]: "fst (ignored as pk) = 0"
  by (induction as arbitrary: pk) auto

lemma ignored_emits:
  assumes "\<And>x k. x \<in> set xs \<Longrightarrow> moves (Suc k, 0) (k, 0) [f x]"
  shows "may_write pk (snd (ignored (map (\<lambda>x. emit (f x)) xs) pk)) (k + length xs, 0) (k, 0)"
  using assms
proof (induction xs arbitrary: pk)
  case (Cons x xs)
  have "may_write pk (snd (emit (f x) pk)) (k + length (x # xs), 0) (k + length xs, 0)"
    using emit_writes [of "(Suc (k + length xs), 0)"] Cons.prems [of x] by simp
  moreover have "may_write pk1 (snd (ignored (map (\<lambda>x. emit (f x)) xs) pk1)) (k + length xs, 0) (k, 0)" for pk1
    using Cons by simp
  ultimately show ?case unfolding list.map ignored.simps by (blast intro: may_trans)
qed simp

text \<open>Sequences of objects.\<close>

lemma packs_map:
  assumes "\<And>x k. x \<in> set xs \<Longrightarrow> packs (f x) (k + n, 0) (k, 0)"
  shows "packs (checked (map f xs)) (k + n * length xs, 0) (k, 0)"
  using assms
proof (induction xs)
  case Nil
  show ?case using packs_nil [of "(k, 0)"] by (simp del: checked.simps)
next
  case (Cons x xs)
  have "packs (f x) (k + n * length xs + n, 0) (k + n * length xs, 0)" using Cons.prems by simp
  moreover have "packs (checked (map f xs)) (k + n * length xs, 0) (k, 0)" using Cons by simp
  ultimately have "packs (checked (f x # map f xs)) (k + n * length xs + n, 0) (k, 0)" by (rule packs_cons)
  then show ?case by (simp add: algebra_simps del: checked.simps)
qed

text \<open>Steps through a sequence of checked calls, for the proofs about the packers.\<close>

lemma packs_map_token: "packs (checked as) (k + 2 * n, 0) y \<Longrightarrow> packs (checked (emit (Map n) # as)) (Suc k, 0) y"
  by (rule packs_cons [OF packs_token(1)])

lemma packs_array_token: "packs (checked as) (k + n, 0) y \<Longrightarrow> packs (checked (emit (Array n) # as)) (Suc k, 0) y"
  by (rule packs_cons [OF packs_token(2)])

lemmas packs_steps = packs_str_append packs_nil packs_array_token
  packs_cons [OF packs_token(6)] packs_cons [OF packs_token(7)] packs_cons [OF packs_token(8)] packs_cons [OF packs_token(9)]

end
