(* ===== verification/NumpyType.thy ===== *)
theory NumpyType
  imports Msgpack Multislice
begin

text \<open>
  Data types: src/src/hdf5/type_mapping.c, pack_numpy_type.c and native_type.c.

  A HDF5 data type is what the H5T functions answer about it: its class, and for each class the
  properties that the code asks for.  H5Tget_native_type() and H5Tpack() are parameters of
  make_packed_native_type().
\<close>

section \<open>Types\<close>

datatype sign = Sign_none | Sign_2 | Sign_other
datatype order = Order_LE | Order_BE | Order_other

datatype h5type =
    Integer sign order hsize
  | Enum sign order hsize
  | Float order hsize
  | Fixed_string hsize
  | Var_string
  | Array_of h5type "hsize list"
  | Compound "(string \<times> h5type) list"
  | Vlen h5type
  | Other_class

section \<open>Descriptors of atomic types\<close>

fun show_nat :: "nat \<Rightarrow> string" where
  "show_nat n = (if n < 10 then [char_of (48 + n)] else show_nat (n div 10) @ [char_of (48 + n mod 10)])"

declare show_nat.simps [simp del]

definition show_int :: "int \<Rightarrow> string" where
  "show_int i = (if i < 0 then CHR ''-'' # show_nat (nat (- i)) else show_nat (nat i))"

text \<open>The cast (int) size, and snprintf() into a buffer of len characters with the final zero.\<close>

definition int_of_size :: "hsize \<Rightarrow> int" where
  "int_of_size s = sint (ucast s :: 32 word)"

definition snprintf :: "nat \<Rightarrow> string \<Rightarrow> string" where
  "snprintf len s = take (len - 1) s"

definition numpy_kind_char :: "h5type \<Rightarrow> char option" where
  "numpy_kind_char t = (case t of
       Integer s _ _ \<Rightarrow> (case s of Sign_none \<Rightarrow> Some CHR ''u'' | Sign_2 \<Rightarrow> Some CHR ''i'' | Sign_other \<Rightarrow> None)
     | Enum s _ _ \<Rightarrow> (case s of Sign_none \<Rightarrow> Some CHR ''u'' | Sign_2 \<Rightarrow> Some CHR ''i'' | Sign_other \<Rightarrow> None)
     | Float _ _ \<Rightarrow> Some CHR ''f''
     | Fixed_string _ \<Rightarrow> Some CHR ''S''
     | _ \<Rightarrow> None)"

definition numpy_number :: "nat \<Rightarrow> char \<Rightarrow> order \<Rightarrow> hsize \<Rightarrow> string option" where
  "numpy_number len kind ord sz =
     (case ord of
        Order_LE \<Rightarrow> Some (snprintf len (CHR ''<'' # kind # show_int (int_of_size sz)))
      | Order_BE \<Rightarrow> Some (snprintf len (CHR ''>'' # kind # show_int (int_of_size sz)))
      | Order_other \<Rightarrow> None)"

text \<open>None is the return code -1.\<close>

definition numpy_type_info :: "h5type \<Rightarrow> nat \<Rightarrow> string option" where
  "numpy_type_info t len =
     (case numpy_kind_char t of
        None \<Rightarrow> None
      | Some kind \<Rightarrow>
          (case t of
             Integer _ ord sz \<Rightarrow> numpy_number len kind ord sz
           | Float ord sz \<Rightarrow> numpy_number len kind ord sz
           | Enum _ ord sz \<Rightarrow> numpy_number len kind ord sz
           | Fixed_string sz \<Rightarrow> Some (snprintf len (CHR ''S'' # show_int (int_of_size sz)))
           | _ \<Rightarrow> None))"

section \<open>Packing a type\<close>

definition descr_len :: nat where
  "descr_len = 10"

text \<open>The code ignores the results of its calls of the msgpack library here.\<close>

definition pack_scalar_type :: "h5type \<Rightarrow> string option \<Rightarrow> action" where
  "pack_scalar_type t field_name pk =
     (if t = Var_string then ignored (pack_str ''str'') pk
      else case numpy_type_info t descr_len of
        None \<Rightarrow> (-1, pk)
      | Some descr \<Rightarrow>
          (case field_name of
             Some f \<Rightarrow> ignored (emit (Array 2) # pack_str f @ pack_str descr) pk
           | None \<Rightarrow> ignored (pack_str descr) pk))"

fun pack_numpy_type :: "h5type \<Rightarrow> string option \<Rightarrow> action"
  and pack_numpy_fields :: "(string \<times> h5type) list \<Rightarrow> action" where
  "pack_numpy_type (Array_of t dims) field_name pk =
     (let (_, pk) = ignored (case field_name of Some f \<Rightarrow> emit (Array 3) # pack_str f | None \<Rightarrow> [emit (Array 2)]) pk;
          (res, pk) = pack_numpy_type t field_name pk
      in if res < 0 then (-1, pk)
         else ignored (emit (Array (length dims)) # map (\<lambda>d. emit (SInt (sint d))) dims) pk)"
| "pack_numpy_type (Compound members) field_name pk =
     pack_numpy_fields members (snd (emit (Array (length members)) pk))"
| "pack_numpy_type (Vlen t) field_name pk = pack_numpy_type t None pk"
| "pack_numpy_type Other_class field_name pk = (-1, pk)"
| "pack_numpy_type t field_name pk = pack_scalar_type t field_name pk"
| "pack_numpy_fields [] pk = (0, pk)"
| "pack_numpy_fields (f # fs) pk =
     (let (res, pk) = pack_numpy_type (snd f) (Some (fst f)) pk
      in if res \<noteq> 0 then (-1, pk) else pack_numpy_fields fs pk)"

definition pack_numpy_kind :: "h5type \<Rightarrow> action" where
  "pack_numpy_kind t pk = (case t of
       Array_of _ _ \<Rightarrow> ignored (pack_str ''V'') pk
     | Compound _ \<Rightarrow> ignored (pack_str ''V'') pk
     | Vlen _ \<Rightarrow> ignored (pack_str ''V'') pk
     | Other_class \<Rightarrow> (-1, pk)
     | _ \<Rightarrow> ignored (pack_str '''') pk)"

fun detect_vlen_types :: "h5type \<Rightarrow> int" and detect_vlen_fields :: "(string \<times> h5type) list \<Rightarrow> int" where
  "detect_vlen_types Var_string = 1"
| "detect_vlen_types (Fixed_string _) = 0"
| "detect_vlen_types (Vlen _) = 1"
| "detect_vlen_types (Array_of t _) = detect_vlen_types t"
| "detect_vlen_types (Compound members) = detect_vlen_fields members"
| "detect_vlen_types (Integer _ _ _) = 0"
| "detect_vlen_types (Enum _ _ _) = 0"
| "detect_vlen_types (Float _ _) = 0"
| "detect_vlen_types Other_class = -1"
| "detect_vlen_fields [] = 0"
| "detect_vlen_fields (f # fs) =
     (let is_vlen = detect_vlen_types (snd f) in if is_vlen \<noteq> 0 then is_vlen else detect_vlen_fields fs)"

section \<open>Types in memory\<close>

text \<open>
  H5Tget_native_type and H5Tpack are the functions of the library.  Setting the padding of a string
  type changes none of the answers modelled here.  None is H5I_INVALID_HID, which H5Tarray_create()
  and H5Tvlen_create() refuse and return.
\<close>

definition native_type :: "(h5type \<Rightarrow> h5type option) \<Rightarrow> h5type \<Rightarrow> h5type option" where
  "native_type H5Tget_native_type t = H5Tget_native_type t"

fun make_packed_native_type ::
  "(h5type \<Rightarrow> h5type option) \<Rightarrow> (h5type \<Rightarrow> h5type) \<Rightarrow> h5type \<Rightarrow> h5type option" where
  "make_packed_native_type native pack (Array_of t dims) =
     (case make_packed_native_type native pack t of Some t' \<Rightarrow> Some (Array_of t' dims) | None \<Rightarrow> None)"
| "make_packed_native_type native pack (Compound members) = Some (pack (Compound members))"
| "make_packed_native_type native pack (Vlen t) =
     (case make_packed_native_type native pack t of Some t' \<Rightarrow> Some (Vlen t') | None \<Rightarrow> None)"
| "make_packed_native_type native pack Other_class = None"
| "make_packed_native_type native pack t = native_type native t"

section \<open>A type is one object\<close>

lemma numpy_type_result: "fst (pack_numpy_type t name pk) \<in> {0, -1}" "fst (pack_numpy_fields fs pk) \<in> {0, -1}"
  by (induction t name pk and fs pk rule: pack_numpy_type_pack_numpy_fields.induct)
    (auto simp: pack_scalar_type_def Let_def split: prod.splits option.splits)

lemma scalar_type_object: "quiet_packs (pack_scalar_type t name) (Suc k, 0) (k, 0)"
proof -
  have "may_write pk (snd (ignored (emit (Array 2) # pack_str f @ pack_str d) pk)) (Suc k, 0) (k, 0)" for pk f d
    using may_trans [OF ignored_str [of _ f "Suc k"] ignored_str [of _ d k]] moves_tokens(2) [of k 2]
    by (intro ignored_cons emit_writes) (auto simp: ignored_append)
  then show ?thesis
    using ignored_str [of _ _ k]
    by (auto simp: quiet_packs_def pack_scalar_type_def split: if_splits option.splits) (metis snd_conv)+
qed

lemma named_array: "may_write pk (snd (ignored (emit (Array 3) # pack_str f) pk)) (Suc k, 0) (Suc (Suc k), 0)"
proof (rule ignored_cons [OF _ ignored_str])
  fix pk
  show "may_write pk (snd (emit (Array 3) pk)) (Suc k, 0) (Suc (Suc (Suc k)), 0)"
    using emit_writes [OF moves_tokens(2) [of k 3]] by (simp add: numeral_3_eq_3)
qed

lemma fields_object:
  assumes "\<And>f name k. f \<in> set fs \<Longrightarrow> quiet_packs (pack_numpy_type (snd f) name) (Suc k, 0) (k, 0)"
  shows "quiet_packs (pack_numpy_fields fs) (k + length fs, 0) (k, 0)"
  using assms
proof (induction fs)
  case Nil
  then show ?case by (simp add: quiet_packs_def)
next
  case (Cons f fs)
  have "quiet_packs (pack_numpy_type (snd f) (Some (fst f))) (Suc (k + length fs), 0) (k + length fs, 0)"
    using Cons.prems by simp
  moreover have "quiet_packs (pack_numpy_fields fs) (k + length fs, 0) (k, 0)" using Cons by simp
  ultimately show ?case
    by (auto simp: quiet_packs_def split: prod.splits if_splits) (meson may_trans)
qed

lemma numpy_type_object: "quiet_packs (pack_numpy_type t name) (Suc k, 0) (k, 0)"
proof (induction t arbitrary: name k)
  case (Array_of t dims)
  show ?case
    unfolding quiet_packs_def
  proof (intro allI impI)
    fix pk pk' assume r: "pack_numpy_type (Array_of t dims) name pk = (0, pk')"
    define pk1 where "pk1 = snd (ignored (case name of Some f \<Rightarrow> emit (Array 3) # pack_str f | None \<Rightarrow> [emit (Array 2)]) pk)"
    obtain res pk2 where 2: "pack_numpy_type t name pk1 = (res, pk2)" by (metis surj_pair)
    have res: "res = 0" using r numpy_type_result(1) [of t name pk1] 2 by (auto simp: pk1_def Let_def split: if_splits prod.splits)
    have "may_write pk pk1 (Suc k, 0) (Suc (Suc k), 0)"
      unfolding pk1_def
      using named_array [of pk _ k] emit_writes [OF moves_tokens(2) [of k 2], of pk]
      by (cases name) (simp_all add: numeral_2_eq_2)
    moreover have "may_write pk1 pk2 (Suc (Suc k), 0) (Suc k, 0)" using Array_of 2 res by (auto dest: quietD)
    moreover have "may_write pk2 pk' (Suc k, 0) (k, 0)"
    proof -
      have "pk' = snd (ignored (emit (Array (length dims)) # map (\<lambda>d. emit (SInt (sint d))) dims) pk2)"
        using r 2 res by (auto simp: pk1_def split: prod.splits)
      then show ?thesis
        using ignored_cons [OF emit_writes [OF moves_tokens(2)] ignored_emits [where f = "\<lambda>d. SInt (sint d)"]] moves_tokens(9)
        by blast
    qed
    ultimately show "may_write pk pk' (Suc k, 0) (k, 0)" by (blast intro: may_trans)
  qed
next
  case (Compound members)
  have "quiet_packs (pack_numpy_fields members) (k + length members, 0) (k, 0)"
    using Compound by (intro fields_object) (auto simp: snds.simps)
  then show ?case
    unfolding quiet_packs_def pack_numpy_type.simps using may_trans [OF emit_writes [OF moves_tokens(2)]] by blast
next
  case (Vlen t)
  then show ?case by (simp add: quiet_packs_def)
next
  case Other_class
  then show ?case by (simp add: quiet_packs_def)
qed (use scalar_type_object in \<open>simp_all add: quiet_packs_def\<close>)

lemma numpy_kind_object: "quiet_packs (pack_numpy_kind t) (Suc k, 0) (k, 0)"
  using ignored_str [of _ _ k]
  by (auto simp: quiet_packs_def pack_numpy_kind_def split: h5type.splits) (metis snd_conv)+

section \<open>Reading a descriptor\<close>

definition read_nat :: "string \<Rightarrow> nat" where
  "read_nat s = foldl (\<lambda>n c. 10 * n + (of_char c - 48)) 0 s"

text \<open>What a client makes of a descriptor: the kind, the byte order and the size of an element.\<close>

definition read_descr :: "string \<Rightarrow> char \<times> order \<times> nat" where
  "read_descr d =
     (if hd d = CHR ''<'' then (d ! 1, Order_LE, read_nat (drop 2 d))
      else if hd d = CHR ''>'' then (d ! 1, Order_BE, read_nat (drop 2 d))
      else (d ! 0, Order_other, read_nat (drop 1 d)))"

definition byte_order :: "h5type \<Rightarrow> order" where
  "byte_order t = (case t of Integer _ b _ \<Rightarrow> b | Enum _ b _ \<Rightarrow> b | Float b _ \<Rightarrow> b | _ \<Rightarrow> Order_other)"

definition element_size :: "h5type \<Rightarrow> hsize" where
  "element_size t = (case t of Integer _ _ n \<Rightarrow> n | Enum _ _ n \<Rightarrow> n | Float _ n \<Rightarrow> n | Fixed_string n \<Rightarrow> n | _ \<Rightarrow> 0)"

lemma read_show_nat: "read_nat (show_nat n) = n"
proof (induction n rule: show_nat.induct)
  case (1 n)
  show ?case
  proof (cases "n < 10")
    case True
    then show ?thesis by (simp add: show_nat.simps [of n] read_nat_def)
  next
    case False
    then have "show_nat n = show_nat (n div 10) @ [char_of (48 + n mod 10)]" by (simp add: show_nat.simps [of n])
    moreover have "n mod 10 < 10" by simp
    ultimately show ?thesis using 1 False by (simp add: read_nat_def)
  qed
qed

lemma length_show_nat: "n < 10 ^ Suc k \<Longrightarrow> length (show_nat n) \<le> Suc k"
proof (induction k arbitrary: n)
  case 0
  then show ?case by (simp add: show_nat.simps)
next
  case (Suc k)
  then have "n div 10 < 10 ^ Suc k" by (simp add: less_mult_imp_div_less)
  then show ?case using Suc.IH [of "n div 10"] by (simp add: show_nat.simps [of n])
qed

lemma int_of_small_size:
  assumes "sz < 10 ^ 7"
  shows "int_of_size sz = int (unat sz)"
proof -
  have u: "0 \<le> uint sz" "uint sz < 10 ^ 7" using assms by (simp_all add: word_less_def)
  then have "uint (ucast sz :: 32 word) = uint sz" by (simp add: unsigned_ucast_eq take_bit_int_eq_self)
  moreover have "signed_take_bit 31 (uint sz) = uint sz"
    using order.trans [OF _ u(1), of "- (2 ^ 31)"] u(2) by (intro signed_take_bit_int_eq_self) auto
  ultimately show ?thesis by (simp add: int_of_size_def sint_uint)
qed

text \<open>
  C27. The numpy descriptor that the server sends for an atomic type tells the client the kind, the
  byte order and the size of its elements exactly: nothing of it is lost in the buffer of ten
  characters, as long as an element is smaller than ten million bytes.
\<close>

theorem descriptor_roundtrip:
  assumes "numpy_type_info t descr_len = Some d" and "element_size t < 10 ^ 7"
  shows "read_descr d = (the (numpy_kind_char t), byte_order t, unat (element_size t))"
proof -
  have n: "unat (element_size t) < 10 ^ Suc 6" using assms(2) by (simp add: word_less_nat_alt)
  have s: "show_int (int_of_size (element_size t)) = show_nat (unat (element_size t))"
    using int_of_small_size [OF assms(2)] by (simp add: show_int_def)
  have len: "length (show_nat (unat (element_size t))) \<le> 7" using length_show_nat [OF n] by simp
  show ?thesis
    using assms(1) s len read_show_nat [of "unat (element_size t)"]
    by (auto simp: numpy_type_info_def numpy_kind_char_def numpy_number_def byte_order_def element_size_def
        read_descr_def snprintf_def descr_len_def split: h5type.splits sign.splits order.splits)
qed

theorem descriptor_roundtrip_witness:
  "read_descr ''<f8'' = (CHR ''f'', Order_LE, 8) \<and> numpy_type_info (Float Order_LE 8) descr_len = Some ''<f8''"
proof -
  have "numpy_type_info (Float Order_LE 8) descr_len = Some ''<f8''" by code_simp
  then show ?thesis
    using descriptor_roundtrip [of "Float Order_LE 8" "''<f8''"]
    by (simp add: element_size_def byte_order_def numpy_kind_char_def)
qed

text \<open>The limit: the size of a string of 10^8 bytes is cut off, and the code reports success.\<close>

lemma long_string_truncated: "numpy_type_info (Fixed_string 100000000) descr_len = Some ''S10000000''"
  by (simp add: numpy_type_info_def numpy_kind_char_def snprintf_def show_int_def int_of_size_def show_nat.simps descr_len_def) code_simp


end
