(* ===== verification/PackContents.thy ===== *)
theory PackContents
  imports NumpyType
begin

text \<open>
  The packing of array data: src/src/hdf5/pack_contents.c.  A header announces the number of
  binary objects (fixed size types) or elements (types of variable length); then the contents
  follow in any number of calls.

  The contents of a read buffer are what the type says: bytes, the hvl_t structs of variable length
  arrays with the memory they point to, or pointers to strings, None for a null pointer.  The
  results are options: None stands for a failed assertion, a null pointer that is read, a read
  behind the end of the buffer, or a loop without end.
\<close>

section \<open>State\<close>

text \<open>The fields nr_arrays, total_nr_elements and nr_elements_written of the struct are never used.\<close>

record pack_contents_info =
  pci_max_size :: hsize
  pci_has_vlen :: int
  pci_nr_bins :: hsize
  pci_total_bytes_left :: hsize
  pci_bytes_left_in_bin :: hsize

datatype buffer = Bytes "byte list" | Vlens "(hsize \<times> buffer) list" | Strings "string option list"

text \<open>A struct that has not been initialised; none of its fields is read before it is written.\<close>

definition pci_new :: pack_contents_info where
  "pci_new = \<lparr>pci_max_size = 0, pci_has_vlen = 0, pci_nr_bins = 0, pci_total_bytes_left = 0, pci_bytes_left_in_bin = 0\<rparr>"

section \<open>Operations\<close>

definition nr_bins_needed :: "hsize \<Rightarrow> hsize \<Rightarrow> hsize option" where
  "nr_bins_needed max_size nr_bytes =
     (if \<not> max_size > 0 then None
      else let nr_bins = (nr_bytes + max_size - 1) div max_size
      in if \<not> nr_bins * max_size \<ge> nr_bytes then None else Some nr_bins)"

definition pack_shape :: "hsize list \<Rightarrow> action list" where
  "pack_shape dims = pack_str ''shape'' @ [emit (Array (length dims))] @ map (\<lambda>d. emit (UInt (unat d))) dims"

definition vlen_header :: "hsize list \<Rightarrow> hsize \<Rightarrow> action list" where
  "vlen_header dims nr_elements =
     [emit (Map 3)] @ pack_str ''vlen'' @ [emit Tok_true] @ pack_shape dims @
     pack_str ''data'' @ [emit (Array (unat nr_elements))]"

definition ndarray_header :: "h5type \<Rightarrow> hsize list \<Rightarrow> hsize \<Rightarrow> hsize \<Rightarrow> action list" where
  "ndarray_header dtype_id dims nr_bytes nr_bins =
     [emit (Map 6)] @ pack_str ''nd'' @ [emit Tok_true] @
     pack_str ''type'' @ [pack_numpy_type dtype_id None] @
     pack_str ''kind'' @ [pack_numpy_kind dtype_id] @ pack_shape dims @
     pack_str ''nbytes'' @ [emit (SInt (sint nr_bytes))] @
     pack_str ''data'' @ [emit (Array (unat nr_bins))]"

definition pack_contents_header ::
  "pack_contents_info \<Rightarrow> hsize \<Rightarrow> h5type \<Rightarrow> hsize list \<Rightarrow> hsize \<Rightarrow> msgpack_packer \<Rightarrow>
   (int \<times> pack_contents_info \<times> msgpack_packer) option" where
  "pack_contents_header pci max_size dtype_id dims nr_bytes pk =
     (let pci = pci\<lparr>pci_max_size := max_size, pci_has_vlen := detect_vlen_types dtype_id\<rparr> in
      if pci_has_vlen pci > 0 then
        (let nr_elements = fold (\<lambda>d n. n * d) dims 1 in
         if nr_elements > max_size then Some (-1, pci, pk)
         else case checked (vlen_header dims nr_elements) pk of (rc, pk) \<Rightarrow> Some (rc, pci, pk))
      else if pci_has_vlen pci = 0 then
        (case nr_bins_needed max_size nr_bytes of
           None \<Rightarrow> None
         | Some nr_bins \<Rightarrow>
             (let pci = pci\<lparr>pci_nr_bins := nr_bins\<rparr> in
              case checked (ndarray_header dtype_id dims nr_bytes nr_bins) pk of
                (rc, pk) \<Rightarrow>
                  if rc \<noteq> 0 then Some (-1, pci, pk)
                  else Some (0, pci\<lparr>pci_total_bytes_left := nr_bytes, pci_bytes_left_in_bin := 0\<rparr>, pk)))
      else Some (-1, pci, pk))"

text \<open>The header of the next binary object, when the current one is full.\<close>

definition new_bin :: "pack_contents_info \<Rightarrow> msgpack_packer \<Rightarrow> (int \<times> pack_contents_info \<times> msgpack_packer) option" where
  "new_bin pci pk =
     (if pci_bytes_left_in_bin pci = 0 then
        (if \<not> pci_nr_bins pci > 0 then None
         else let bin_size = min_size (pci_total_bytes_left pci) (pci_max_size pci);
                  pci = pci\<lparr>pci_bytes_left_in_bin := bin_size,
                            pci_total_bytes_left := pci_total_bytes_left pci - bin_size\<rparr>
              in case emit (Bin (unat bin_size)) pk of (rc, pk) \<Rightarrow> Some (rc, pci, pk))
      else Some (0, pci, pk))"

partial_function (option) bins_loop ::
  "byte list \<Rightarrow> hsize \<Rightarrow> pack_contents_info \<Rightarrow> hsize \<Rightarrow> hsize \<Rightarrow> msgpack_packer \<Rightarrow>
   (int \<times> pack_contents_info \<times> msgpack_packer) option" where
  "bins_loop buf buffer_len pci left offset pk =
     (if \<not> left > 0 then Some (0, pci, pk)
      else Option.bind (new_bin pci pk) (\<lambda>(rc, pci, pk).
        if rc \<noteq> 0 then Some (-1, pci, pk)
        else let n = min_size left (pci_bytes_left_in_bin pci) in
          if \<not> offset + n \<le> buffer_len then None
          else case emit (Raw (take (unat n) (drop (unat offset) buf))) pk of (rc, pk) \<Rightarrow>
            if rc \<noteq> 0 then Some (-1, pci, pk)
            else if \<not> left \<ge> n \<or> \<not> pci_bytes_left_in_bin pci \<ge> n then None
            else bins_loop buf buffer_len (pci\<lparr>pci_bytes_left_in_bin := pci_bytes_left_in_bin pci - n\<rparr>)
                   (left - n) (offset + n) pk))"

declare bins_loop.simps [code]

text \<open>The loops over the elements of a buffer of variable length arrays and of strings.\<close>

fun vlen_loop :: "(hsize \<Rightarrow> buffer \<Rightarrow> msgpack_packer \<Rightarrow> (int \<times> msgpack_packer) option) \<Rightarrow>
    (hsize \<times> buffer) list \<Rightarrow> msgpack_packer \<Rightarrow> (int \<times> msgpack_packer) option" where
  "vlen_loop element [] pk = Some (0, pk)"
| "vlen_loop element ((len, p) # hvl) pk =
     (case element len p pk of
        None \<Rightarrow> None
      | Some (rc, pk) \<Rightarrow> if rc \<noteq> 0 then Some (-1, pk) else vlen_loop element hvl pk)"

fun string_loop :: "string option list \<Rightarrow> msgpack_packer \<Rightarrow> (int \<times> msgpack_packer) option" where
  "string_loop [] pk = Some (0, pk)"
| "string_loop (None # strs) pk = None"
| "string_loop (Some s # strs) pk =
     (case checked (pack_str s) pk of (rc, pk) \<Rightarrow> if rc \<noteq> 0 then Some (-1, pk) else string_loop strs pk)"

text \<open>H5Tget_size is the function of the library.\<close>

fun pack_contents_body ::
  "(h5type \<Rightarrow> hsize) \<Rightarrow> pack_contents_info \<Rightarrow> h5type \<Rightarrow> hsize \<Rightarrow> buffer \<Rightarrow> hsize \<Rightarrow> msgpack_packer \<Rightarrow>
   (int \<times> pack_contents_info \<times> msgpack_packer) option" where
  "pack_contents_body H5Tget_size pci dtype_id cnt buffer buffer_len pk =
     (if pci_has_vlen pci > 0 then
        (case dtype_id of
           Vlen t \<Rightarrow>
             (case buffer of
                Vlens hvl \<Rightarrow>
                  if unat cnt > length hvl then None
                  else (case vlen_loop (\<lambda>vl_count p pk.
                       case pack_contents_header pci_new (pci_max_size pci) t [vl_count] (vl_count * H5Tget_size t) pk of
                         None \<Rightarrow> None
                       | Some (rc, element_pci, pk) \<Rightarrow>
                           if rc \<noteq> 0 then Some (-1, pk)
                           else case pack_contents_body H5Tget_size element_pci t vl_count p (vl_count * H5Tget_size t) pk of
                             None \<Rightarrow> None
                           | Some (rc, _, pk) \<Rightarrow> Some (rc, pk))
                     (take (unat cnt) hvl) pk of
                     None \<Rightarrow> None
                   | Some (rc, pk) \<Rightarrow> Some (rc, pci, pk))
              | _ \<Rightarrow> None)
         | Var_string \<Rightarrow>
             (case buffer of
                Strings strs \<Rightarrow>
                  if unat cnt > length strs then None
                  else (case string_loop (take (unat cnt) strs) pk of None \<Rightarrow> None | Some (rc, pk) \<Rightarrow> Some (rc, pci, pk))
              | _ \<Rightarrow> None)
         | Array_of _ _ \<Rightarrow> Some (-1, pci, pk)
         | Compound _ \<Rightarrow> Some (-1, pci, pk)
         | Other_class \<Rightarrow> Some (-1, pci, pk)
         | _ \<Rightarrow> None)
      else if pci_has_vlen pci = 0 then
        (case buffer of
           Bytes buf \<Rightarrow> if unat buffer_len > length buf then None else bins_loop buf buffer_len pci buffer_len 0 pk
         | _ \<Rightarrow> None)
      else Some (-1, pci, pk))"

declare pack_contents_body.simps [simp del]

section \<open>The header\<close>

lemma packs_shape: "packs (checked as) (k, 0) y \<Longrightarrow> packs (checked (pack_shape dims @ as)) (Suc (Suc k), 0) y"
proof -
  assume a: "packs (checked as) (k, 0) y"
  have "packs (checked (map (\<lambda>d. emit (UInt (unat d))) dims)) (k + length dims, 0) (k, 0)"
    using packs_map [where n = 1 and f = "\<lambda>d. emit (UInt (unat d))" and xs = dims and k = k] packs_token(8) by simp
  from packs_array_token [OF packs_append [OF this a]]
  show ?thesis unfolding pack_shape_def by (simp add: packs_str_append)
qed

lemma vlen_header_packs: "packs (checked (vlen_header dims n)) (Suc k, 0) (k + unat n, 0)"
proof -
  have "packs (checked (pack_str ''vlen'' @ emit Tok_true # pack_shape dims @ pack_str ''data'' @ [emit (Array (unat n))]))
     (Suc (Suc (Suc (Suc (Suc (Suc k))))), 0) (k + unat n, 0)"
    by (intro packs_shape packs_steps)
  then have "packs (checked (pack_str ''vlen'' @ emit Tok_true # pack_shape dims @ pack_str ''data'' @ [emit (Array (unat n))]))
     (k + 2 * 3, 0) (k + unat n, 0)" by (simp add: eval_nat_numeral del: checked.simps)
  then show ?thesis unfolding vlen_header_def append_Cons append_Nil by (rule packs_map_token)
qed

lemma strict_shape: "strict (checked (pack_shape dims @ as))"
  by (simp add: pack_shape_def del: checked.simps)

lemma ndarray_header_packs: "packs (checked (ndarray_header t dims nr_bytes n)) (Suc k, 0) (k + unat n, 0)"
proof -
  let ?rest = "pack_str ''nd'' @ emit Tok_true # pack_str ''type'' @ pack_numpy_type t None #
      pack_str ''kind'' @ pack_numpy_kind t # pack_shape dims @ pack_str ''nbytes'' @
      emit (SInt (sint nr_bytes)) # pack_str ''data'' @ [emit (Array (unat n))]"
  have "packs (checked ?rest) (Suc (Suc (Suc (Suc (Suc (Suc (Suc (Suc (Suc (Suc (Suc (Suc k))))))))))), 0) (k + unat n, 0)"
    by (intro packs_shape packs_steps packs_quiet_cons [OF numpy_type_object] packs_quiet_cons [OF numpy_kind_object]
        strict_str strict_shape)
  then have "packs (checked ?rest) (k + 2 * 6, 0) (k + unat n, 0)"
    by (simp add: eval_nat_numeral del: checked.simps)
  then show ?thesis unfolding ndarray_header_def append_Cons append_Nil by (rule packs_map_token)
qed

section \<open>The contents\<close>

text \<open>bins m x: the number of binary objects of at most m bytes for x bytes.\<close>

definition bins :: "nat \<Rightarrow> nat \<Rightarrow> nat" where
  "bins m x = (x + m - 1) div m"

definition in_bins :: "nat \<Rightarrow> token list \<Rightarrow> bool" where
  "in_bins m ts \<longleftrightarrow> list_all (\<lambda>t. case t of Bin n \<Rightarrow> n \<le> m | Raw _ \<Rightarrow> True | _ \<Rightarrow> False) ts"

definition raw_bytes :: "token list \<Rightarrow> byte list" where
  "raw_bytes ts = concat (map (\<lambda>t. case t of Raw bs \<Rightarrow> bs | _ \<Rightarrow> []) ts)"

text \<open>wrote, with binary objects of at most m bytes that hold the bytes bs.\<close>

definition wrote_bins :: "nat \<Rightarrow> msgpack_packer \<Rightarrow> msgpack_packer \<Rightarrow> nat \<times> nat \<Rightarrow> nat \<times> nat \<Rightarrow> byte list \<Rightarrow> bool" where
  "wrote_bins m pk pk' x y bs \<longleftrightarrow>
     (\<exists>ts. snd pk' = snd pk @ ts \<and> fst pk = fst pk' + length ts \<and> moves x y ts \<and> in_bins m ts \<and> raw_bytes ts = bs)"

lemma wrote_bins_refl [simp]: "wrote_bins m pk pk x x []"
  by (auto simp: wrote_bins_def in_bins_def raw_bytes_def intro!: exI [of _ "[]"])

lemma wrote_bins_trans: "wrote_bins m p q x y bs \<Longrightarrow> wrote_bins m q r y z cs \<Longrightarrow> wrote_bins m p r x z (bs @ cs)"
  unfolding wrote_bins_def
  by (elim exE, rule_tac x = "ts @ tsa" in exI) (auto intro: moves_trans simp: in_bins_def raw_bytes_def)

lemma wrote_bins_wrote: "wrote_bins m p q x y bs \<Longrightarrow> wrote p q x y"
  unfolding wrote_bins_def wrote_def by blast

lemma wrote_bins_emit:
  assumes "emit t pk = (0, pk')" "moves x y [t]" "in_bins m [t]"
  shows "wrote_bins m pk pk' x y (raw_bytes [t])"
proof (cases "t = Raw []")
  case True
  then have "pk' = pk" "x = y" using assms by (auto simp: emit_def moves_def prod_eq_iff)
  then show ?thesis using True by (simp add: raw_bytes_def)
next
  case False
  then show ?thesis
    using assms unfolding wrote_bins_def by (intro exI [of _ "[t]"]) (auto simp: emit_def split: nat.splits)
qed

lemma bins_0 [simp]: "0 < m \<Longrightarrow> bins m 0 = 0"
  by (simp add: bins_def)

lemma bins_step: "0 < m \<Longrightarrow> 0 < x \<Longrightarrow> bins m x = Suc (bins m (x - min x m))"
proof (cases "x \<le> m")
  case True
  assume "0 < m" "0 < x"
  then have "(x + m - 1) div m = 1" using True by (simp add: div_nat_eqI)
  then show ?thesis using True \<open>0 < m\<close> by (simp add: bins_def)
next
  case False
  assume "0 < m"
  then have "x + m - 1 = (x - m + m - 1) + m" using False by simp
  then have "bins m x = Suc (bins m (x - m))" using \<open>0 < m\<close> by (simp only: bins_def div_add_self2)
  then show ?thesis using False by simp
qed

text \<open>The bytes still expected, and the relation of the counters to the missing objects.\<close>

definition pci_left :: "pack_contents_info \<Rightarrow> nat" where
  "pci_left pci = unat (pci_total_bytes_left pci) + unat (pci_bytes_left_in_bin pci)"

definition pci_ok :: "hsize \<Rightarrow> pack_contents_info \<Rightarrow> bool" where
  "pci_ok m pci \<longleftrightarrow> pci_max_size pci = m \<and> m > 0 \<and> pci_has_vlen pci = 0 \<and>
     (pci_total_bytes_left pci > 0 \<longrightarrow> pci_nr_bins pci > 0)"

definition missing :: "nat \<Rightarrow> pack_contents_info \<Rightarrow> nat \<times> nat" where
  "missing k pci = (k + bins (unat (pci_max_size pci)) (unat (pci_total_bytes_left pci)), unat (pci_bytes_left_in_bin pci))"

lemma new_bin_spec:
  assumes ok: "pci_ok m pci" and left: "0 < pci_left pci"
  obtains rc pci' pk' where "new_bin pci pk = Some (rc, pci', pk')" "rc = 0 \<or> rc = -1"
    "pci_ok m pci'" "pci_left pci' = pci_left pci" "0 < pci_bytes_left_in_bin pci'"
    "rc = 0 \<longrightarrow> wrote_bins (unat m) pk pk' (missing k pci) (missing k pci') []"
proof (cases "pci_bytes_left_in_bin pci = 0")
  case False
  then show ?thesis using that [of 0 pci pk] ok by (simp add: new_bin_def word_gt_0)
next
  case True
  let ?T = "pci_total_bytes_left pci"
  let ?n = "min_size ?T m"
  let ?pci = "pci\<lparr>pci_bytes_left_in_bin := ?n, pci_total_bytes_left := ?T - ?n\<rparr>"
  have m: "pci_max_size pci = m" "m > 0" using ok by (simp_all add: pci_ok_def)
  have T: "?T > 0" using left True by (simp add: pci_left_def word_gt_0 unat_gt_0)
  then have nb: "pci_nr_bins pci > 0" using ok by (simp add: pci_ok_def)
  have n: "unat ?n = min (unat ?T) (unat m)" "0 < unat ?n" "?n \<le> ?T"
    using T m(2) by (auto simp: word_less_nat_alt word_le_nat_alt)
  then have sub: "unat (?T - ?n) = unat ?T - min (unat ?T) (unat m)" by (simp add: unat_sub)
  obtain rc pk' where e: "emit (Bin (unat ?n)) pk = (rc, pk')" by (metis surj_pair)
  have rc: "rc = 0 \<or> rc = -1" using e by (auto simp: emit_def split: nat.splits)
  have "wrote_bins (unat m) pk pk' (missing k pci) (missing k ?pci) []" if "rc = 0"
  proof -
    have "missing k pci = (Suc (k + bins (unat m) (unat (?T - ?n))), 0)"
      using True m T bins_step [of "unat m" "unat ?T"] by (simp add: missing_def sub word_less_nat_alt)
    moreover have "missing k ?pci = (k + bins (unat m) (unat (?T - ?n)), unat ?n)" by (simp add: missing_def m)
    ultimately show ?thesis
      using wrote_bins_emit [of "Bin (unat ?n)" pk pk' "missing k pci" "missing k ?pci" "unat m"] e that n moves_tokens(4)
      by (simp add: in_bins_def raw_bytes_def)
  qed
  moreover have "new_bin pci pk = Some (rc, ?pci, pk')" using True nb e m by (simp add: new_bin_def Let_def)
  moreover have "pci_ok m ?pci" using ok nb by (simp add: pci_ok_def)
  moreover have "pci_left ?pci = pci_left pci" using True n sub by (simp add: pci_left_def)
  moreover have "0 < pci_bytes_left_in_bin ?pci" using n(2) by (simp add: word_less_nat_alt)
  ultimately show ?thesis using that rc by blast
qed

lemma bins_loop_spec:
  assumes "pci_ok m pci" and "length buf = unat blen" and "unat off + unat left = unat blen" and "unat left \<le> pci_left pci"
  shows "\<exists>rc pci' pk'. bins_loop buf blen pci left off pk = Some (rc, pci', pk') \<and> (rc = 0 \<or> rc = -1) \<and>
    (rc = 0 \<longrightarrow> pci_ok m pci' \<and> pci_left pci' = pci_left pci - unat left \<and>
       wrote_bins (unat m) pk pk' (missing k pci) (missing k pci') (drop (unat off) buf))"
  using assms
proof (induction "unat left" arbitrary: left off pci pk rule: less_induct)
  case less
  show ?case
  proof (cases "left > 0")
    case False
    then have "left = 0" by (simp add: word_gt_0)
    then show ?thesis using less.prems by (simp add: bins_loop.simps)
  next
    case True
    then have "0 < pci_left pci" using less.prems by (simp add: word_less_nat_alt)
    then obtain rc pci1 pk1 where 1: "new_bin pci pk = Some (rc, pci1, pk1)" "rc = 0 \<or> rc = -1"
      "pci_ok m pci1" "pci_left pci1 = pci_left pci" "0 < pci_bytes_left_in_bin pci1"
      "rc = 0 \<longrightarrow> wrote_bins (unat m) pk pk1 (missing k pci) (missing k pci1) []"
      using new_bin_spec [OF less.prems(1)] by blast
    let ?n = "min_size left (pci_bytes_left_in_bin pci1)"
    let ?pci = "pci1\<lparr>pci_bytes_left_in_bin := pci_bytes_left_in_bin pci1 - ?n\<rparr>"
    have n: "unat ?n = min (unat left) (unat (pci_bytes_left_in_bin pci1))" "0 < unat ?n"
      "?n \<le> left" "?n \<le> pci_bytes_left_in_bin pci1"
      using True 1(5) by (auto simp: word_less_nat_alt word_le_nat_alt)
    have "unat blen < 2 ^ 64" using unsigned_less [of blen] by simp
    then have "unat off + unat ?n < 2 ^ 64" using less.prems(3) n(1) by linarith
    then have sums: "unat (off + ?n) = unat off + unat ?n" "unat (left - ?n) = unat left - unat ?n"
      "unat (pci_bytes_left_in_bin pci1 - ?n) = unat (pci_bytes_left_in_bin pci1) - unat ?n"
      using n(3,4) by (simp_all add: unat_sub unat_word_ariths)
    have le: "off + ?n \<le> blen" using sums n less.prems(3) by (simp add: word_le_nat_alt)
    let ?bs = "take (unat ?n) (drop (unat off) buf)"
    obtain rc2 pk2 where 2: "emit (Raw ?bs) pk1 = (rc2, pk2)" by (metis surj_pair)
    have rc2: "rc2 = 0 \<or> rc2 = -1" using 2 by (auto simp: emit_def split: if_splits nat.splits)
    show ?thesis
    proof (cases "rc = 0 \<and> rc2 = 0")
      case False
      then show ?thesis using True 1 2 rc2 le n by (auto simp: bins_loop.simps [of _ _ pci] Let_def)
    next
      case ok: True
      have len: "length ?bs = unat ?n" using less.prems(2,3) n by simp
      have m1: "moves (missing k pci1) (missing k ?pci) [Raw ?bs]"
        using moves_tokens(5) [of ?bs "unat (pci_bytes_left_in_bin pci1)"] n len
        by (simp add: missing_def sums)
      have w: "wrote_bins (unat m) pk pk2 (missing k pci) (missing k ?pci) ?bs"
        using wrote_bins_trans [OF _ wrote_bins_emit [OF _ m1], of "unat m" pk pk1 "missing k pci" "[]" pk2] 1 2 ok
        by (simp add: in_bins_def raw_bytes_def)
      have left': "pci_left ?pci = pci_left pci - unat ?n" using 1(4) n sums by (simp add: pci_left_def)
      have "pci_ok m ?pci" using 1(3) by (simp add: pci_ok_def)
      moreover have "unat (off + ?n) + unat (left - ?n) = unat blen" using sums less.prems(3) n(3)
        by (simp only: word_le_nat_alt)
      moreover have "unat (left - ?n) \<le> pci_left ?pci" using less.prems(4) by (simp only: left' sums diff_le_mono)
      moreover have "unat (left - ?n) < unat left" using sums(2) n(2,3) by (simp only: word_le_nat_alt)
      ultimately have "\<exists>rc pci' pk'. bins_loop buf blen ?pci (left - ?n) (off + ?n) pk2 = Some (rc, pci', pk') \<and> (rc = 0 \<or> rc = -1) \<and>
        (rc = 0 \<longrightarrow> pci_ok m pci' \<and> pci_left pci' = pci_left ?pci - unat (left - ?n) \<and>
         wrote_bins (unat m) pk2 pk' (missing k ?pci) (missing k pci') (drop (unat (off + ?n)) buf))"
        using less.hyps less.prems(2) by blast
      moreover have "bins_loop buf blen pci left off pk = bins_loop buf blen ?pci (left - ?n) (off + ?n) pk2"
        using True 1 2 ok le n by (auto simp: bins_loop.simps [of _ _ pci] Let_def)
      moreover have "drop (unat off) buf = ?bs @ drop (unat (off + ?n)) buf"
        by (simp only: sums add.commute [of "unat off"] drop_drop [symmetric] append_take_drop_id)
      moreover have "pci_left pci - unat ?n - (unat left - unat ?n) = pci_left pci - unat left"
        using n(3) less.prems(4) by (simp only: word_le_nat_alt)
      ultimately show ?thesis
        using wrote_bins_trans [OF w] by (fastforce simp only: left' sums)
    qed
  qed
qed

section \<open>Header and contents together\<close>

lemma nr_bins_needed_spec:
  assumes "m > 0" "unat nb + unat m < 2 ^ 64"
  obtains n where "nr_bins_needed m nb = Some n" "unat n = bins (unat m) (unat nb)"
proof -
  let ?n = "(nb + m - 1) div m"
  have m: "0 < unat m" using assms(1) by (simp add: word_less_nat_alt)
  have "unat (nb + m) = unat nb + unat m" using assms(2) by (simp add: unat_word_ariths)
  moreover have "1 \<le> nb + m" using calculation m by (simp add: word_le_nat_alt)
  ultimately have s: "unat (nb + m - 1) = unat nb + unat m - 1" by (simp add: unat_sub)
  then have n: "unat ?n = bins (unat m) (unat nb)" by (simp add: unat_div bins_def)
  have "bins (unat m) (unat nb) * unat m + (unat nb + unat m - 1) mod unat m = unat nb + unat m - 1"
    unfolding bins_def by (rule div_mult_mod_eq)
  moreover have "(unat nb + unat m - 1) mod unat m < unat m" using m by simp
  ultimately have b: "unat nb \<le> bins (unat m) (unat nb) * unat m" "bins (unat m) (unat nb) * unat m < 2 ^ 64"
    using assms(2) m by linarith+
  then have "unat (?n * m) = bins (unat m) (unat nb) * unat m"
    using unat_mult_lem [of ?n m] by (simp only: n) simp
  then have "nb \<le> ?n * m" using b by (simp add: word_le_nat_alt)
  then show thesis using that n assms(1) by (simp add: nr_bins_needed_def Let_def)
qed

lemma detect_values:
  "detect_vlen_types t \<in> {-1, 0, 1}" "detect_vlen_fields fs \<in> {-1, 0, 1}"
  by (induction t and fs rule: detect_vlen_types_detect_vlen_fields.induct) (auto simp: Let_def)

lemma checked_result: "fst (checked as pk) = 0 \<or> fst (checked as pk) = -1"
  by (induction as arbitrary: pk) (auto split: prod.split)

lemma header_vlen:
  assumes "detect_vlen_types t = 1"
  obtains rc pci' pk' where "pack_contents_header pci m t dims nb pk = Some (rc, pci', pk')" "rc = 0 \<or> rc = -1"
    "rc = 0 \<longrightarrow> pci_max_size pci' = m \<and> pci_has_vlen pci' = 1 \<and>
       wrote pk pk' (Suc k, 0) (k + unat (fold (\<lambda>d n. n * d) dims 1 :: hsize), 0)"
proof -
  let ?n = "fold (\<lambda>d n. n * d) dims 1 :: hsize"
  obtain rc pk' where "checked (vlen_header dims ?n) pk = (rc, pk')" by (metis surj_pair)
  then show thesis
    using that assms packsD [OF vlen_header_packs, of dims ?n pk pk' k] checked_result [of "vlen_header dims ?n" pk]
    by (cases "?n > m") (auto simp: pack_contents_header_def Let_def)
qed

lemma header_fixed:
  assumes "detect_vlen_types t = 0" "m > 0" "unat nb + unat m < 2 ^ 64"
  obtains rc pci' pk' where "pack_contents_header pci m t dims nb pk = Some (rc, pci', pk')" "rc = 0 \<or> rc = -1"
    "rc = 0 \<longrightarrow> pci_ok m pci' \<and> pci_left pci' = unat nb \<and> wrote pk pk' (Suc k, 0) (missing k pci')"
proof -
  obtain n where n: "nr_bins_needed m nb = Some n" "unat n = bins (unat m) (unat nb)"
    using nr_bins_needed_spec [OF assms(2,3)] .
  let ?pci = "pci\<lparr>pci_max_size := m, pci_has_vlen := 0, pci_nr_bins := n, pci_total_bytes_left := nb, pci_bytes_left_in_bin := 0\<rparr>"
  obtain rc pk' where c: "checked (ndarray_header t dims nb n) pk = (rc, pk')" by (metis surj_pair)
  have nz: "nb > 0 \<longrightarrow> n > 0"
    using n(2) bins_step [of "unat m" "unat nb"] assms(2) by (auto simp: word_less_nat_alt)
  have "rc = 0 \<longrightarrow> pci_ok m ?pci \<and> pci_left ?pci = unat nb \<and> wrote pk pk' (Suc k, 0) (missing k ?pci)"
    using packsD [OF ndarray_header_packs, of t dims nb n pk pk' k] c n(2) nz assms(2)
    by (simp add: pci_ok_def pci_left_def missing_def)
  moreover have "pack_contents_header pci m t dims nb pk = Some (if rc = 0 then (0, ?pci, pk') else (-1, pci\<lparr>pci_max_size := m, pci_has_vlen := 0, pci_nr_bins := n\<rparr>, pk'))"
    using assms(1) n(1) c by (simp add: pack_contents_header_def Let_def)
  ultimately show thesis using that by (cases "rc = 0") auto
qed

text \<open>What H5Dread() and H5Aread() leave in a buffer of n elements.  No buffer is half the address space.\<close>

fun buffer_ok :: "(h5type \<Rightarrow> hsize) \<Rightarrow> h5type \<Rightarrow> nat \<Rightarrow> buffer \<Rightarrow> bool" where
  "buffer_ok H5Tget_size t n buf =
     (if detect_vlen_types t = 0 then
        (case buf of Bytes bs \<Rightarrow> length bs = n * unat (H5Tget_size t) \<and> length bs < 2 ^ 63 | _ \<Rightarrow> False)
      else case t of
        Vlen t \<Rightarrow>
          (case buf of Vlens hvl \<Rightarrow> length hvl = n \<and> list_all (\<lambda>(len, p). buffer_ok H5Tget_size t (unat len) p) hvl
           | _ \<Rightarrow> False)
      | Var_string \<Rightarrow> (case buf of Strings strs \<Rightarrow> length strs = n \<and> list_all (\<lambda>s. s \<noteq> None) strs | _ \<Rightarrow> False)
      | _ \<Rightarrow> True)"

declare buffer_ok.simps [simp del]

lemma buffer_bytes:
  assumes "buffer_ok H5Tget_size t (unat cnt) buf" "detect_vlen_types t = 0"
  obtains bs where "buf = Bytes bs" "length bs = unat (cnt * H5Tget_size t)" "length bs < 2 ^ 63"
proof -
  obtain bs where bs: "buf = Bytes bs" "length bs = unat cnt * unat (H5Tget_size t)" "length bs < 2 ^ 63"
    using assms by (cases buf) (auto simp: buffer_ok.simps)
  then have "length bs = unat (cnt * H5Tget_size t)" by (simp add: unat_word_ariths)
  then show thesis using that bs by blast
qed

lemma missing_done: "pci_ok m pci \<Longrightarrow> pci_left pci = 0 \<Longrightarrow> missing k pci = (k, 0)"
  by (simp add: missing_def pci_left_def pci_ok_def word_less_nat_alt)

lemma body_fixed:
  assumes "pci_ok m pci" "detect_vlen_types t = 0" "buffer_ok H5Tget_size t (unat cnt) buf"
    and "unat (cnt * H5Tget_size t) \<le> pci_left pci"
  shows "\<exists>rc pci' pk' bs. pack_contents_body H5Tget_size pci t cnt buf (cnt * H5Tget_size t) pk = Some (rc, pci', pk') \<and>
    (rc = 0 \<or> rc = -1) \<and> buf = Bytes bs \<and> length bs = unat (cnt * H5Tget_size t) \<and>
    (rc = 0 \<longrightarrow> pci_ok m pci' \<and> pci_left pci' = pci_left pci - length bs \<and>
       wrote_bins (unat m) pk pk' (missing k pci) (missing k pci') bs)"
proof -
  obtain bs where bs: "buf = Bytes bs" "length bs = unat (cnt * H5Tget_size t)" by (rule buffer_bytes [OF assms(3,2)])
  moreover have "pci_has_vlen pci = 0" using assms(1) by (simp add: pci_ok_def)
  ultimately show ?thesis
    using bins_loop_spec [OF assms(1), of bs "cnt * H5Tget_size t" 0 "cnt * H5Tget_size t" pk k] assms(4) bs
    by (auto simp: pack_contents_body.simps [of _ pci])
qed

lemma string_loop_spec:
  assumes "list_all (\<lambda>s. s \<noteq> None) strs"
  shows "\<exists>rc pk'. string_loop strs pk = Some (rc, pk') \<and> (rc = 0 \<or> rc = -1) \<and>
    (rc = 0 \<longrightarrow> wrote pk pk' (k + length strs, 0) (k, 0))"
  using assms
proof (induction strs arbitrary: pk)
  case Nil
  then show ?case by simp
next
  case (Cons s strs)
  then obtain x where x: "s = Some x" by auto
  obtain rc pk1 where 1: "checked (pack_str x) pk = (rc, pk1)" by (metis surj_pair)
  show ?case
  proof (cases "rc = 0")
    case True
    then have "wrote pk pk1 (Suc (k + length strs), 0) (k + length strs, 0)"
      using packsD [OF packs_str, of x pk pk1 "k + length strs"] 1 by simp
    moreover obtain rc2 pk2 where 2: "string_loop strs pk1 = Some (rc2, pk2)" "rc2 = 0 \<or> rc2 = -1"
      "rc2 = 0 \<longrightarrow> wrote pk1 pk2 (k + length strs, 0) (k, 0)" using Cons.IH [of pk1] Cons.prems by auto
    ultimately have "rc2 = 0 \<longrightarrow> wrote pk pk2 (k + length (s # strs), 0) (k, 0)" by (auto dest: wrote_trans)
    then show ?thesis using 1 2 x True by simp
  next
    case False
    then show ?thesis using 1 x by simp
  qed
qed

lemma vlen_loop_spec:
  assumes "\<And>len p pk k. (len, p) \<in> set hvl \<Longrightarrow>
    \<exists>rc pk'. element len p pk = Some (rc, pk') \<and> (rc = 0 \<or> rc = -1) \<and> (rc = 0 \<longrightarrow> wrote pk pk' (Suc k, 0) (k, 0))"
  shows "\<exists>rc pk'. vlen_loop element hvl pk = Some (rc, pk') \<and> (rc = 0 \<or> rc = -1) \<and>
    (rc = 0 \<longrightarrow> wrote pk pk' (k + length hvl, 0) (k, 0))"
  using assms
proof (induction hvl arbitrary: pk)
  case Nil
  then show ?case by simp
next
  case (Cons x hvl)
  obtain len p where x: "x = (len, p)" by (cases x)
  then obtain rc pk1 where 1: "element len p pk = Some (rc, pk1)" "rc = 0 \<or> rc = -1"
    "rc = 0 \<longrightarrow> wrote pk pk1 (Suc (k + length hvl), 0) (k + length hvl, 0)"
    using Cons.prems [of len p pk "k + length hvl"] by auto
  obtain rc2 pk2 where 2: "vlen_loop element hvl pk1 = Some (rc2, pk2)" "rc2 = 0 \<or> rc2 = -1"
    "rc2 = 0 \<longrightarrow> wrote pk1 pk2 (k + length hvl, 0) (k, 0)" using Cons.IH [of pk1] Cons.prems by auto
  have "rc = 0 \<and> rc2 = 0 \<longrightarrow> wrote pk pk2 (k + length (x # hvl), 0) (k, 0)" using 1(3) 2(3) by (auto dest: wrote_trans)
  then show ?case using 1 2 x by (cases "rc = 0") auto
qed

text \<open>The header and the contents of one array, in one call each, as for the elements of a vlen type.\<close>

definition nr_values :: "hsize list \<Rightarrow> hsize" where
  "nr_values dims = fold (\<lambda>d n. n * d) dims 1"

lemma nr_values_one [simp]: "nr_values [n] = n"
  by (simp add: nr_values_def)

definition whole_array :: "(h5type \<Rightarrow> hsize) \<Rightarrow> hsize \<Rightarrow> h5type \<Rightarrow> hsize list \<Rightarrow> buffer \<Rightarrow> msgpack_packer \<Rightarrow> (int \<times> msgpack_packer) option" where
  "whole_array H5Tget_size m t dims p pk =
     (case pack_contents_header pci_new m t dims (nr_values dims * H5Tget_size t) pk of
        None \<Rightarrow> None
      | Some (rc, element_pci, pk) \<Rightarrow>
          if rc \<noteq> 0 then Some (-1, pk)
          else case pack_contents_body H5Tget_size element_pci t (nr_values dims) p (nr_values dims * H5Tget_size t) pk of
            None \<Rightarrow> None
          | Some (rc, _, pk) \<Rightarrow> Some (rc, pk))"

lemmas whole_one = whole_array_def [of _ _ _ "[len]" for len, unfolded nr_values_one]

definition returns :: "(int \<times> msgpack_packer) option \<Rightarrow> msgpack_packer \<Rightarrow> nat \<times> nat \<Rightarrow> nat \<times> nat \<Rightarrow> bool" where
  "returns r pk x y \<longleftrightarrow> (\<exists>rc pk'. r = Some (rc, pk') \<and> (rc = 0 \<or> rc = -1) \<and> (rc = 0 \<longrightarrow> wrote pk pk' x y))"

lemma array_fixed:
  assumes "detect_vlen_types t = 0" "m > 0" "unat m \<le> 2 ^ 63" "buffer_ok H5Tget_size t (unat (nr_values dims)) buf"
  shows "returns (whole_array H5Tget_size m t dims buf pk) pk (Suc k, 0) (k, 0)"
proof -
  let ?nb = "nr_values dims * H5Tget_size t"
  have nb: "unat ?nb + unat m < 2 ^ 64"
    using buffer_bytes [OF assms(4,1)] assms(3) by fastforce
  obtain rc pci pk1 where h: "pack_contents_header pci_new m t dims ?nb pk = Some (rc, pci, pk1)"
    "rc = 0 \<or> rc = -1"
    "rc = 0 \<longrightarrow> pci_ok m pci \<and> pci_left pci = unat ?nb \<and> wrote pk pk1 (Suc k, 0) (missing k pci)"
    by (rule header_fixed [OF assms(1,2) nb])
  show ?thesis
  proof (cases "rc = 0")
    case True
    then obtain rc2 pci2 pk2 bs where "pack_contents_body H5Tget_size pci t (nr_values dims) buf ?nb pk1 = Some (rc2, pci2, pk2)"
      "rc2 = 0 \<or> rc2 = -1"
      "rc2 = 0 \<longrightarrow> pci_ok m pci2 \<and> pci_left pci2 = 0 \<and> wrote_bins (unat m) pk1 pk2 (missing k pci) (missing k pci2) bs"
      using body_fixed [of m pci t H5Tget_size "nr_values dims" buf pk1 k] h(3) assms(1,4) by auto
    then show ?thesis
      using h True by (auto simp: whole_array_def returns_def missing_done dest: wrote_bins_wrote wrote_trans)
  next
    case False
    then show ?thesis using h by (simp add: whole_array_def returns_def)
  qed
qed

lemma array_vlen:
  assumes "detect_vlen_types t = 1" "m > 0"
    and "\<And>pci pk. pci_has_vlen pci = 1 \<Longrightarrow> pci_max_size pci = m \<Longrightarrow>
      \<exists>rc pk'. pack_contents_body H5Tget_size pci t (nr_values dims) buf (nr_values dims * H5Tget_size t) pk = Some (rc, pci, pk') \<and>
        (rc = 0 \<or> rc = -1) \<and> (rc = 0 \<longrightarrow> wrote pk pk' (k + unat (nr_values dims), 0) (k, 0))"
  shows "returns (whole_array H5Tget_size m t dims buf pk) pk (Suc k, 0) (k, 0)"
proof -
  obtain rc pci pk1 where h: "pack_contents_header pci_new m t dims (nr_values dims * H5Tget_size t) pk = Some (rc, pci, pk1)"
    "rc = 0 \<or> rc = -1"
    "rc = 0 \<longrightarrow> pci_max_size pci = m \<and> pci_has_vlen pci = 1 \<and>
       wrote pk pk1 (Suc k, 0) (k + unat (fold (\<lambda>d n. n * d) dims 1 :: hsize), 0)"
    by (rule header_vlen [OF assms(1)])
  show ?thesis
  proof (cases "rc = 0")
    case True
    then obtain rc2 pk2 where "pack_contents_body H5Tget_size pci t (nr_values dims) buf (nr_values dims * H5Tget_size t) pk1 = Some (rc2, pci, pk2)"
      "rc2 = 0 \<or> rc2 = -1" "rc2 = 0 \<longrightarrow> wrote pk1 pk2 (k + unat (nr_values dims), 0) (k, 0)"
      using assms(3) [of pci pk1] h(3) by auto
    then show ?thesis
      using h True by (auto simp: whole_array_def returns_def nr_values_def dest: wrote_trans)
  next
    case False
    then show ?thesis using h by (simp add: whole_array_def returns_def)
  qed
qed

lemma array_failed: "detect_vlen_types t = -1 \<Longrightarrow> returns (whole_array H5Tget_size m t dims buf pk) pk x y"
  by (simp add: whole_array_def returns_def pack_contents_header_def Let_def)

lemma body_vlen:
  assumes "detect_vlen_types t = 1" "pci_has_vlen pci = 1" "pci_max_size pci = m" "m > 0" "unat m \<le> 2 ^ 63"
    and "buffer_ok H5Tget_size t (unat cnt) buf"
  shows "\<exists>rc pk'. pack_contents_body H5Tget_size pci t cnt buf blen pk = Some (rc, pci, pk') \<and> (rc = 0 \<or> rc = -1) \<and>
     (rc = 0 \<longrightarrow> wrote pk pk' (k + unat cnt, 0) (k, 0))"
  using assms
proof (induction t arbitrary: pci cnt buf blen pk k)
  case Var_string
  then obtain strs where "buf = Strings strs" "length strs = unat cnt" "list_all (\<lambda>s. s \<noteq> None) strs"
    by (auto simp: buffer_ok.simps split: buffer.splits)
  then show ?case
    using string_loop_spec [of strs pk k] Var_string by (auto simp: pack_contents_body.simps [of _ pci])
next
  case (Vlen t)
  from Vlen.prems obtain hvl where hvl: "buf = Vlens hvl" "length hvl = unat cnt"
    "list_all (\<lambda>(len, p). buffer_ok H5Tget_size t (unat len) p) hvl"
    by (auto simp: buffer_ok.simps [of _ "Vlen t"] split: buffer.splits)
  have body: "pack_contents_body H5Tget_size pci (Vlen t) cnt buf blen pk =
     (case vlen_loop (\<lambda>len. whole_array H5Tget_size m t [len]) hvl pk of None \<Rightarrow> None | Some (rc, pk) \<Rightarrow> Some (rc, pci, pk))"
    using Vlen.prems hvl(1,2)
    by (simp add: pack_contents_body.simps [of _ pci] flip: whole_one)
  have "returns (whole_array H5Tget_size m t [len] p pk) pk (Suc k, 0) (k, 0)" if "(len, p) \<in> set hvl" for len p pk k
  proof -
    have ok: "buffer_ok H5Tget_size t (unat len) p" using hvl(3) that by (auto simp: list_all_iff)
    consider "detect_vlen_types t = 0" | "detect_vlen_types t = 1" | "detect_vlen_types t = -1"
      using detect_values(1) [of t] by auto
    then show ?thesis
    proof cases
      case 1
      then show ?thesis using array_fixed Vlen.prems(4,5) ok by (simp add: nr_values_def)
    next
      case 2
      then show ?thesis using array_vlen [OF 2 Vlen.prems(4)] Vlen.IH [OF 2] ok Vlen.prems(4,5) by (simp add: nr_values_def)
    next
      case 3
      then show ?thesis by (rule array_failed)
    qed
  qed
  then show ?case
    using vlen_loop_spec [of hvl "\<lambda>len. whole_array H5Tget_size m t [len]" pk k] hvl(2) by (auto simp: body returns_def)
next
  case (Array_of t dims)
  then show ?case by (simp add: pack_contents_body.simps [of _ pci])
next
  case (Compound members)
  then show ?case by (simp add: pack_contents_body.simps [of _ pci])
qed simp_all

text \<open>An array of any type is packed as one object, or the packing fails; no assertion fails.\<close>

lemma array_packed:
  assumes "m > 0" "unat m \<le> 2 ^ 63" "buffer_ok H5Tget_size t (unat (nr_values dims)) buf"
  shows "returns (whole_array H5Tget_size m t dims buf pk) pk (Suc k, 0) (k, 0)"
proof -
  consider "detect_vlen_types t = 0" | "detect_vlen_types t = 1" | "detect_vlen_types t = -1"
    using detect_values(1) [of t] by auto
  then show ?thesis
  proof cases
    case 1
    then show ?thesis using assms by (rule array_fixed)
  next
    case 2
    then show ?thesis using array_vlen [OF 2 assms(1) body_vlen [OF 2 _ _ assms]] by blast
  next
    case 3
    then show ?thesis by (rule array_failed)
  qed
qed

end
