(* ===== verification/Points.thy ===== *)
theory Points
  imports Multislice "HOL-Library.List_Lexorder"
begin

text \<open>
  The points of a selection in row-major order, the order in which H5Dread() delivers the elements:
  the enumeration of a slab, and the fact that the points of successive batches of rows follow each
  other in that order.
\<close>

section \<open>Enumeration of a slab\<close>

fun grid :: "(nat \<times> nat) list \<Rightarrow> point list" where
  "grid [] = [[]]"
| "grid ((s, c) # g) = concat (map (\<lambda>x. map ((#) x) (grid g)) [s..<s + c])"

definition with_rows :: "nat list \<Rightarrow> (nat \<times> nat) list \<Rightarrow> point list" where
  "with_rows rows g = concat (map (\<lambda>r. map ((#) r) (grid g)) rows)"

lemma with_rows_append [simp]: "with_rows (xs @ ys) g = with_rows xs g @ with_rows ys g"
  by (simp add: with_rows_def)

lemma grid_Cons: "grid ((s, c) # g) = with_rows [s..<s + c] g"
  by (simp add: with_rows_def)

lemma length_with_rows: "length (with_rows rows g) = length rows * length (grid g)"
  by (induction rows) (simp_all add: with_rows_def)

lemma length_grid: "length (grid g) = prod_list (map snd g)"
proof (induction g)
  case (Cons d g)
  then show ?case by (cases d) (simp add: grid_Cons length_with_rows del: grid.simps)
qed simp

lemma set_with_rows: "set (with_rows rows g) = {r # p | r p. r \<in> set rows \<and> p \<in> set (grid g)}"
  by (auto simp: with_rows_def)

lemma set_grid: "set (grid g) = {p. list_all2 (\<lambda>x (s, c). s \<le> x \<and> x < s + c) p g}"
proof (induction g rule: grid.induct)
  case 1
  then show ?case by auto
next
  case (2 s c g)
  then show ?case by (auto simp: list_all2_Cons2)
qed

lemma sorted_with_rows:
  "sorted_wrt (<) rows \<Longrightarrow> sorted_wrt (<) (grid g) \<Longrightarrow> sorted_wrt (<) (with_rows rows g)"
proof (induction rows)
  case Nil
  then show ?case by (simp add: with_rows_def)
next
  case (Cons r rows)
  have "with_rows (r # rows) g = map ((#) r) (grid g) @ with_rows rows g" by (simp add: with_rows_def)
  moreover have "sorted_wrt (<) (map ((#) r) (grid g))"
    using Cons.prems(2) by (simp add: sorted_wrt_map)
  ultimately show ?case using Cons by (auto simp: sorted_wrt_append set_with_rows)
qed

lemma sorted_grid: "sorted_wrt (<) (grid g)"
proof (induction g)
  case (Cons d g)
  then show ?case by (cases d) (simp add: grid_Cons sorted_with_rows del: grid.simps)
qed simp

lemma sorted_list_of_points: "sorted_wrt (<) rows \<Longrightarrow> sorted_list_of_set (set (with_rows rows g)) = with_rows rows g"
  using sorted_with_rows [OF _ sorted_grid, of rows g]
  by (intro sorted_list_of_set.idem_if_sorted_distinct) (simp_all add: strict_sorted_iff)

section \<open>The points of a batch of rows\<close>

text \<open>The slab that the slices of a request share in the dimensions after the first one.\<close>

definition slab_dims :: "nat \<Rightarrow> hsize list \<Rightarrow> hsize list \<Rightarrow> (nat \<times> nat) list" where
  "slab_dims rank starts counts = map (\<lambda>i. (unat (starts ! i), unat (counts ! i))) [1..<rank]"

lemma batch_points_set:
  assumes "0 < rank"
  shows "batch_points rank starts counts rows = set (with_rows rows (slab_dims rank starts counts))"
proof (rule set_eqI)
  fix p :: point
  have "p \<in> set (with_rows rows (slab_dims rank starts counts)) \<longleftrightarrow>
     (\<exists>r q. p = r # q \<and> r \<in> set rows \<and> length q = rank - 1 \<and>
        (\<forall>j < rank - 1. unat (starts ! Suc j) \<le> q ! j \<and> q ! j < unat (starts ! Suc j) + unat (counts ! Suc j)))"
    by (auto simp: set_with_rows set_grid slab_dims_def list_all2_conv_all_nth)
  also have "\<dots> \<longleftrightarrow> p \<in> batch_points rank starts counts rows"
  proof (cases p)
    case Nil
    then show ?thesis using assms by (simp add: batch_points_def)
  next
    case (Cons r q)
    have "{1..<rank} = Suc ` {0..<rank - 1}" using assms by (simp add: image_Suc_atLeastLessThan)
    then have "(\<forall>j < rank - 1. P (Suc j)) \<longleftrightarrow> (\<forall>i \<in> {1..<rank}. P i)" for P
      by (simp only: ball_simps(9)) auto
    note all = this [of "\<lambda>i. unat (starts ! i) \<le> p ! i \<and> p ! i < unat (starts ! i) + unat (counts ! i)"]
    show ?thesis using assms all by (auto simp: Cons batch_points_def)
  qed
  finally show "p \<in> batch_points rank starts counts rows \<longleftrightarrow> p \<in> set (with_rows rows (slab_dims rank starts counts))" by simp
qed

definition points_per_row :: "nat \<Rightarrow> hsize list \<Rightarrow> nat" where
  "points_per_row rank counts = prod_list (map (\<lambda>i. unat (counts ! i)) [1..<rank])"

lemma batch_points_list:
  assumes "0 < rank" "sorted_wrt (<) rows"
  shows "finite (batch_points rank starts counts rows)"
    and "card (batch_points rank starts counts rows) = length rows * points_per_row rank counts"
    and "sorted_list_of_set (batch_points rank starts counts rows) = with_rows rows (slab_dims rank starts counts)"
proof -
  let ?l = "with_rows rows (slab_dims rank starts counts)"
  have "distinct ?l" using sorted_with_rows [OF assms(2) sorted_grid] by (simp add: strict_sorted_iff)
  moreover have "length ?l = length rows * points_per_row rank counts"
    by (simp add: length_with_rows length_grid points_per_row_def slab_dims_def comp_def)
  ultimately show "card (batch_points rank starts counts rows) = length rows * points_per_row rank counts"
    by (simp add: batch_points_set [OF assms(1)] distinct_card)
  show "finite (batch_points rank starts counts rows)" by (simp add: batch_points_set [OF assms(1)])
  show "sorted_list_of_set (batch_points rank starts counts rows) = ?l"
    using sorted_list_of_points [OF assms(2)] by (simp add: batch_points_set [OF assms(1)])
qed

section \<open>Dataspaces and requests\<close>

definition extent_points :: "hsize list \<Rightarrow> point set" where
  "extent_points dims = {p. list_all2 (\<lambda>x n. x < unat n) p dims}"

text \<open>What H5Dread() delivers for a selection: the values of its points in row-major order.\<close>

definition elements :: "(point \<Rightarrow> 'a list) \<Rightarrow> point set \<Rightarrow> 'a list" where
  "elements cell P = concat (map cell (sorted_list_of_set P))"

text \<open>The points a request asks for; a scalar dataset has one point, the empty list of coordinates.\<close>

definition request_points :: "nat \<Rightarrow> nat \<Rightarrow> hsize list \<Rightarrow> hsize list \<Rightarrow> point set" where
  "request_points rank nr_slices starts counts =
     (if rank = 0 then {[]} else batch_points rank starts counts (requested_rows rank nr_slices starts counts))"

text \<open>The rows from i to j - 1 of the request.\<close>

definition row_points :: "nat \<Rightarrow> hsize list \<Rightarrow> hsize list \<Rightarrow> nat list \<Rightarrow> nat \<Rightarrow> nat \<Rightarrow> point set" where
  "row_points rank starts counts rows i j = batch_points rank starts counts (take (j - i) (drop i rows))"

lemma row_points_list:
  assumes "0 < rank" "sorted_wrt (<) rows"
  shows "finite (row_points rank starts counts rows i j)"
    and "j \<le> length rows \<Longrightarrow> i \<le> j \<Longrightarrow> card (row_points rank starts counts rows i j) = (j - i) * points_per_row rank counts"
    and "i \<le> j \<Longrightarrow> elements cell (row_points rank starts counts rows 0 j) =
      elements cell (row_points rank starts counts rows 0 i) @ elements cell (row_points rank starts counts rows i j)"
proof -
  have s: "sorted_wrt (<) (take a (drop b rows))" for a b
    using assms(2) by (simp add: sorted_wrt_take sorted_wrt_drop)
  note b = batch_points_list [OF assms(1) s, of starts counts]
  show "finite (row_points rank starts counts rows i j)" using b(1) by (simp add: row_points_def)
  show "card (row_points rank starts counts rows i j) = (j - i) * points_per_row rank counts"
    if "j \<le> length rows" "i \<le> j"
    using b(2) [of "j - i" i] that by (simp add: row_points_def min_absorb2 diff_le_mono)
  show "elements cell (row_points rank starts counts rows 0 j) =
      elements cell (row_points rank starts counts rows 0 i) @ elements cell (row_points rank starts counts rows i j)"
    if "i \<le> j"
  proof -
    have "take j rows = take i rows @ take (j - i) (drop i rows)" using that by (metis le_add_diff_inverse take_add)
    then show ?thesis
      using b(3) [of "j - i" i] b(3) [of j 0] b(3) [of i 0] by (simp add: row_points_def elements_def)
  qed
qed

lemma length_elements:
  assumes "\<And>p. length (cell p) = n" "finite P"
  shows "length (elements cell P) = card P * n"
proof -
  have "length (concat (map cell xs)) = length xs * n" for xs by (induction xs) (simp_all add: assms(1))
  then show ?thesis using assms(2) by (simp add: elements_def)
qed

lemma fold_product: "fold (\<lambda>x n. n * f x) xs a = a * (prod_list (map f xs) :: hsize)"
  by (induction xs arbitrary: a) (simp_all add: mult.assoc)

lemma unat_product: "unat (prod_list (map f xs) :: hsize) = prod_list (map (\<lambda>x. unat (f x)) xs) mod 2 ^ 64"
proof (induction xs)
  case (Cons x xs)
  then show ?case by (simp add: unat_word_ariths mod_mult_right_eq)
qed simp

end
