(* ===== verification/PackDataset.thy ===== *)
theory PackDataset
  imports PackContents Points
begin

text \<open>
  Reading and packing the slices of a dataset, src/src/hdf5/pack_dataset.c.

  The functions of HDF5 on datasets are the fields of the record h5d, over the same state 'w of the
  library as the dataspace functions of h5s.  The identifiers of dataspaces are opened and closed
  as in the code; data types are values (theory NumpyType), so that closing them, and freeing
  memory, has no effect in the model.
\<close>

record 'w h5d =
  H5Dget_type :: "hid \<Rightarrow> h5type"
  H5Tget_native_type :: "h5type \<Rightarrow> h5type option"
  H5Tpack :: "h5type \<Rightarrow> h5type"
  H5Tget_size :: "h5type \<Rightarrow> hsize"
  H5Dget_space :: "hid \<Rightarrow> 'w \<Rightarrow> hid \<times> 'w"
  H5Sget_simple_extent_dims :: "hid \<Rightarrow> 'w \<Rightarrow> hsize list option"
  H5Screate :: "hsize list option \<Rightarrow> 'w \<Rightarrow> hid \<times> 'w"
  H5Dread :: "hid \<Rightarrow> h5type \<Rightarrow> hid \<Rightarrow> hid \<Rightarrow> 'w \<Rightarrow> int \<times> buffer \<times> 'w"

section \<open>Operations\<close>

definition mem_type :: "'w h5d \<Rightarrow> hid \<Rightarrow> h5type option" where
  "mem_type d dataset_id = make_packed_native_type (H5Tget_native_type d) (H5Tpack d) (H5Dget_type d dataset_id)"

text \<open>
  The loop over the batches.  H5Screate creates the memory dataspace, of the given dimensions or
  scalar.  None also stands for a read that overruns the buffer.  The result is the return code,
  the memory dataspace that is still open, or -1, the packer and the state of the library.
\<close>

partial_function (option) dataset_read_loop ::
  "'w h5s \<Rightarrow> 'w h5d \<Rightarrow> bool \<Rightarrow> hid \<Rightarrow> h5type \<Rightarrow> hsize list \<Rightarrow> hsize \<Rightarrow> hsize \<Rightarrow> hid \<Rightarrow>
   multislice \<Rightarrow> pack_contents_info \<Rightarrow> msgpack_packer \<Rightarrow> 'w \<Rightarrow> (int \<times> hid \<times> msgpack_packer \<times> 'w) option" where
  "dataset_read_loop lib d debug dataset_id t chunk_dims nr_elements buffer_size file_space_id ms pci pk w =
     Option.bind (multislice_select_next_buffer_data lib debug ms file_space_id w) (\<lambda>(err, ms, n, w).
       if err < 0 then Some (-1, -1, pk, w)
       else if err > 0 then Some (0, -1, pk, w)
       else case H5Screate d (case chunk_dims of [] \<Rightarrow> None | _ # ds \<Rightarrow> Some (n # ds)) w of (mem_space_id, w) \<Rightarrow>
         if unat n * unat nr_elements * unat (H5Tget_size d t) > unat buffer_size then None
         else case H5Dread d dataset_id t mem_space_id file_space_id w of (err, buffer, w) \<Rightarrow>
           if err < 0 then Some (-1, mem_space_id, pk, w)
           else Option.bind (pack_contents_body (H5Tget_size d) pci t (n * nr_elements) buffer
                               (n * nr_elements * H5Tget_size d t) pk) (\<lambda>(rc, pci, pk).
             if rc \<noteq> 0 then Some (-1, mem_space_id, pk, w)
             else dataset_read_loop lib d debug dataset_id t chunk_dims nr_elements buffer_size file_space_id ms pci pk
                    (H5Sclose lib mem_space_id w)))"

declare dataset_read_loop.simps [code]

definition row_elements :: "nat \<Rightarrow> hsize list \<Rightarrow> hsize" where
  "row_elements rank counts = fold (\<lambda>i n. n * counts ! i) [1..<rank] 1"

definition close_spaces :: "'w h5s \<Rightarrow> hid \<Rightarrow> hid \<Rightarrow> 'w \<Rightarrow> 'w" where
  "close_spaces lib file_space_id mem_space_id w =
     (let w = H5Sclose lib file_space_id w in if mem_space_id \<ge> 0 then H5Sclose lib mem_space_id w else w)"

text \<open>malloc_ok says that the read buffer could be allocated.\<close>

definition pack_dataset_multi_slice_with_max_size ::
  "'w h5s \<Rightarrow> 'w h5d \<Rightarrow> bool \<Rightarrow> bool \<Rightarrow> hid \<Rightarrow> int \<Rightarrow> int \<Rightarrow> hsize list \<Rightarrow> hsize list \<Rightarrow> hsize \<Rightarrow> hsize \<Rightarrow>
   msgpack_packer \<Rightarrow> 'w \<Rightarrow> (int \<times> msgpack_packer \<times> 'w) option" where
  "pack_dataset_multi_slice_with_max_size lib d debug malloc_ok dataset_id rank nr_slices starts counts buffer_size max_size pk w =
     (if nr_slices < 1 then Some (-1, pk, w)
      else case mem_type d dataset_id of None \<Rightarrow> Some (-1, pk, w)
      | Some t \<Rightarrow>
      case H5Dget_space d dataset_id w of (file_space_id, w) \<Rightarrow>
      if file_space_id < 0 then Some (-1, pk, w)
      else let
        element_size = H5Tget_size d t;
        nr_elements = row_elements (nat rank) counts;
        have_vlen = detect_vlen_types t
      in if have_vlen < 0 then Some (-1, pk, close_spaces lib file_space_id (-1) w)
      else if nr_elements > 0 \<and> nr_elements * element_size = 0 then None
      else let elements_per_buffer = (if nr_elements > 0 then buffer_size div (nr_elements * element_size) else 0)
      in if nr_elements > 0 \<and> elements_per_buffer < 1 then Some (-1, pk, close_spaces lib file_space_id (-1) w)
      else case H5Sget_simple_extent_dims d file_space_id w of
        None \<Rightarrow> Some (-1, pk, close_spaces lib file_space_id (-1) w)
      | Some file_dims \<Rightarrow>
      case multislice_init rank nr_slices starts counts elements_per_buffer file_dims of
        None \<Rightarrow> Some (-1, pk, close_spaces lib file_space_id (-1) w)
      | Some ms \<Rightarrow>
      if \<not> malloc_ok then Some (-1, pk, close_spaces lib file_space_id (-1) w)
      else let
        array_size = (if rank = 0 then 1 else ms_total_count ms ! 0);
        data_size = array_size * nr_elements * element_size
      in Option.bind (pack_contents_header pci_new max_size t (ms_total_count ms) data_size pk) (\<lambda>(rc, pci, pk).
        if rc \<noteq> 0 then Some (-1, pk, close_spaces lib file_space_id (-1) w)
        else Option.bind (dataset_read_loop lib d debug dataset_id t (ms_total_count ms) nr_elements buffer_size file_space_id ms pci pk w)
          (\<lambda>(rc, mem_space_id, pk, w). Some (rc, pk, close_spaces lib file_space_id mem_space_id w))))"

section \<open>What the library promises\<close>

definition h5d_ok ::
  "'w h5s \<Rightarrow> 'w h5d \<Rightarrow> ('w \<Rightarrow> hid \<Rightarrow> point set option) \<Rightarrow> (hid \<Rightarrow> hsize list) \<Rightarrow> (hid \<Rightarrow> h5type \<Rightarrow> point \<Rightarrow> byte list) \<Rightarrow> bool" where
  "h5d_ok lib d sp dims cell \<longleftrightarrow>
     h5s_ok lib sp \<and>
     (\<forall>w ds r w'. H5Dget_space d ds w = (r, w') \<longrightarrow>
        (if r < 0 then sp w' = sp w
         else sp w r = None \<and> sp w' = (sp w)(r \<mapsto> extent_points (dims ds)) \<and>
              (\<forall>e. H5Sget_simple_extent_dims d r w' = Some e \<longrightarrow> e = dims ds) \<and>
              (\<forall>w Q. sp w r = Some Q \<longrightarrow> sp (H5Sselect_all lib r w) = (sp w)(r \<mapsto> extent_points (dims ds))))) \<and>
     (\<forall>w s r w'. H5Screate d s w = (r, w') \<longrightarrow>
        (if r < 0 then sp w' = sp w else sp w r = None \<and> (\<exists>P. sp w' = (sp w)(r \<mapsto> P)))) \<and>
     (\<forall>w ds t m f P e buf w'. sp w f = Some P \<longrightarrow> H5Dread d ds t m f w = (e, buf, w') \<longrightarrow>
        sp w' = sp w \<and>
        (0 \<le> e \<longrightarrow> finite P \<longrightarrow> 0 \<le> m \<and> buffer_ok (H5Tget_size d) t (card P) buf \<and>
           (detect_vlen_types t = 0 \<longrightarrow> buf = Bytes (elements (cell ds t) P)))) \<and>
     (\<forall>ds t p. detect_vlen_types t = 0 \<longrightarrow> length (cell ds t p) = unat (H5Tget_size d t))"

lemma h5d_space:
  assumes "h5d_ok lib d sp dims cell" "H5Dget_space d ds w = (r, w')"
  shows "if r < 0 then sp w' = sp w else sp w r = None \<and> sp w' = (sp w)(r \<mapsto> extent_points (dims ds))"
    and "0 \<le> r \<Longrightarrow> H5Sget_simple_extent_dims d r w' = Some e \<Longrightarrow> e = dims ds"
    and "0 \<le> r \<Longrightarrow> sp w2 r = Some Q \<Longrightarrow> sp (H5Sselect_all lib r w2) = (sp w2)(r \<mapsto> extent_points (dims ds))"
  using assms unfolding h5d_ok_def by (metis not_le)+

lemma h5d_create:
  "h5d_ok lib d sp dims cell \<Longrightarrow> H5Screate d s w = (r, w') \<Longrightarrow>
   if r < 0 then sp w' = sp w else sp w r = None \<and> (\<exists>P. sp w' = (sp w)(r \<mapsto> P))"
  unfolding h5d_ok_def by (elim conjE) metis

lemma h5d_read:
  "h5d_ok lib d sp dims cell \<Longrightarrow> sp w f = Some P \<Longrightarrow> H5Dread d ds t m f w = (e, buf, w') \<Longrightarrow>
   sp w' = sp w \<and>
   (0 \<le> e \<longrightarrow> finite P \<longrightarrow> 0 \<le> m \<and> buffer_ok (H5Tget_size d) t (card P) buf \<and>
      (detect_vlen_types t = 0 \<longrightarrow> buf = Bytes (elements (cell ds t) P)))"
  unfolding h5d_ok_def by (elim conjE) metis

lemma h5d_value: "h5d_ok lib d sp dims cell \<Longrightarrow> detect_vlen_types t = 0 \<Longrightarrow> length (cell ds t p) = unat (H5Tget_size d t)"
  unfolding h5d_ok_def by blast

lemma h5d_h5s: "h5d_ok lib d sp dims cell \<Longrightarrow> h5s_ok lib sp"
  unfolding h5d_ok_def by blast

section \<open>The loop\<close>

text \<open>
  What the loop needs of the iterator: it n ms says that n of N rows have been read, and pts i j are
  the points of the rows from i to j - 1.
\<close>

definition iterates ::
  "'w h5s \<Rightarrow> ('w \<Rightarrow> hid \<Rightarrow> point set option) \<Rightarrow> bool \<Rightarrow> hid \<Rightarrow> (nat \<Rightarrow> multislice \<Rightarrow> bool) \<Rightarrow> nat \<Rightarrow> (nat \<Rightarrow> nat \<Rightarrow> point set) \<Rightarrow> hsize \<Rightarrow> bool" where
  "iterates lib sp debug fs it N pts epb \<longleftrightarrow>
     (\<forall>ms w. it N ms \<longrightarrow> multislice_select_next_buffer_data lib debug ms fs w = Some (1, ms, 0, w)) \<and>
     (\<forall>n ms w P. n < N \<longrightarrow> it n ms \<longrightarrow> sp w fs = Some P \<longrightarrow>
        (\<exists>rc ms' k w' Q. multislice_select_next_buffer_data lib debug ms fs w = Some (rc, ms', k, w') \<and>
           0 < k \<and> n + unat k \<le> N \<and> k \<le> epb \<and> (rc = 0 \<or> rc = -1) \<and> sp w' = (sp w)(fs \<mapsto> Q) \<and>
           it (n + unat k) ms' \<and> (rc = 0 \<longrightarrow> Q = pts n (n + unat k))))"

text \<open>
  body_step: the packing of the contents of a batch keeps the progress I, whatever buffer the library
  delivers for its rows.
\<close>

definition body_step ::
  "(h5type \<Rightarrow> hsize) \<Rightarrow> h5type \<Rightarrow> (point \<Rightarrow> byte list) \<Rightarrow> (nat \<Rightarrow> nat \<Rightarrow> point set) \<Rightarrow> nat \<Rightarrow> hsize \<Rightarrow>
   (nat \<Rightarrow> pack_contents_info \<Rightarrow> msgpack_packer \<Rightarrow> bool) \<Rightarrow> bool" where
  "body_step es t cell pts N nr I \<longleftrightarrow>
     (\<forall>n k pci pk buf. I n pci pk \<longrightarrow> n + unat k \<le> N \<longrightarrow> unat (k * nr) = unat k * unat nr \<longrightarrow>
        buffer_ok es t (unat (k * nr)) buf \<longrightarrow>
        (detect_vlen_types t = 0 \<longrightarrow> buf = Bytes (elements cell (pts n (n + unat k)))) \<longrightarrow>
        (\<exists>rc pci' pk'. pack_contents_body es pci t (k * nr) buf (k * nr * es t) pk = Some (rc, pci', pk') \<and>
           (rc = 0 \<or> rc = -1) \<and> (rc = 0 \<longrightarrow> I (n + unat k) pci' pk')))"

text \<open>Besides the file dataspace at most the memory dataspace m is open, compared with sp0.\<close>

definition spaces :: "(hid \<Rightarrow> point set option) \<Rightarrow> hid \<Rightarrow> hid \<Rightarrow> (hid \<Rightarrow> point set option) \<Rightarrow> bool" where
  "spaces sp0 fs m sp1 \<longleftrightarrow> sp0 fs = None \<and>
     (\<exists>Q R. sp1 = (if m < 0 then sp0(fs \<mapsto> Q) else sp0(fs \<mapsto> Q, m \<mapsto> R)) \<and> (0 \<le> m \<longrightarrow> sp0 m = None \<and> m \<noteq> fs))"

lemma close_spaces_ok:
  assumes "h5d_ok lib d sp dims cell" "spaces sp0 fs m (sp w)"
  shows "sp (close_spaces lib fs m w) = sp0"
proof -
  note c = h5s_close [OF h5d_h5s [OF assms(1)]]
  obtain Q R where s: "sp0 fs = None" "sp w = (if m < 0 then sp0(fs \<mapsto> Q) else sp0(fs \<mapsto> Q, m \<mapsto> R))"
    "0 \<le> m \<longrightarrow> sp0 m = None \<and> m \<noteq> fs"
    using assms(2) unfolding spaces_def by blast
  then have "sp w fs = Some Q" by auto
  then have 1: "sp (H5Sclose lib fs w) = (sp w)(fs := None)" by (rule c)
  show ?thesis
  proof (cases "m < 0")
    case True
    then show ?thesis using 1 s by (auto simp: close_spaces_def fun_upd_idem)
  next
    case False
    then have "sp (H5Sclose lib fs w) m = Some R" using 1 s by simp
    then show ?thesis using c [of "H5Sclose lib fs w" m R] 1 s False
      by (auto simp: close_spaces_def fun_eq_iff)
  qed
qed

lemma close_memory:
  assumes "h5d_ok lib d sp dims cell" "spaces sp0 fs m (sp w)" "0 \<le> m"
  shows "spaces sp0 fs (-1) (sp (H5Sclose lib m w))"
proof -
  obtain Q R where s: "sp0 fs = None" "sp w = sp0(fs \<mapsto> Q, m \<mapsto> R)" "sp0 m = None" "m \<noteq> fs"
    using assms(2,3) unfolding spaces_def by auto
  then have "sp (H5Sclose lib m w) = (sp w)(m := None)" by (intro h5s_close [OF h5d_h5s [OF assms(1)]]) simp
  then have "sp (H5Sclose lib m w) = sp0(fs \<mapsto> Q)" using s by (auto simp: fun_eq_iff)
  then show ?thesis using s by (auto simp: spaces_def)
qed

lemma product_fits:
  assumes "unat k * unat nr * unat es \<le> unat (b :: hsize)" "nr = 0 \<or> es \<noteq> (0 :: hsize)"
  shows "unat (k * nr) = unat k * unat (nr :: hsize)"
proof -
  have "unat k * unat nr < 2 ^ 64"
  proof (cases "nr = 0")
    case False
    then have "1 \<le> unat es" using assms(2) by (simp add: Suc_le_eq unat_gt_0)
    then have "unat k * unat nr * 1 \<le> unat b" using assms(1) by (meson le_trans mult_le_mono2)
    moreover have "unat b < 2 ^ 64" using unsigned_less [of b] by simp
    ultimately show ?thesis by simp
  qed simp
  then show ?thesis using unat_mult_lem [of k nr] by simp
qed

text \<open>One round of the loop: it stops with an error, or goes on with the batch packed.\<close>

lemma read_batch:
  assumes ok: "h5d_ok lib d sp dims cell"
    and sel: "multislice_select_next_buffer_data lib debug ms fs w = Some (0, ms', k, w1)" and k: "0 < k"
    and s: "sp0 fs = None" "sp w1 = sp0(fs \<mapsto> Q)"
    and Q: "finite Q" "card Q = unat (k * nr)" and fit: "unat k * unat nr * unat (H5Tget_size d t) \<le> unat buffer_size"
    and body: "\<And>buf. buffer_ok (H5Tget_size d) t (unat (k * nr)) buf \<Longrightarrow>
      detect_vlen_types t = 0 \<longrightarrow> buf = Bytes (elements (cell ds t) Q) \<Longrightarrow>
      \<exists>rc2 pci2 pk2. pack_contents_body (H5Tget_size d) pci t (k * nr) buf (k * nr * H5Tget_size d t) pk = Some (rc2, pci2, pk2) \<and>
        (rc2 = 0 \<longrightarrow> J pci2 pk2)"
  shows "(\<exists>m pk' w'. dataset_read_loop lib d debug ds t cd nr buffer_size fs ms pci pk w = Some (-1, m, pk', w') \<and> spaces sp0 fs m (sp w')) \<or>
    (\<exists>pci2 pk2 w2. dataset_read_loop lib d debug ds t cd nr buffer_size fs ms pci pk w =
       dataset_read_loop lib d debug ds t cd nr buffer_size fs ms' pci2 pk2 w2 \<and> J pci2 pk2 \<and> spaces sp0 fs (-1) (sp w2))"
proof -
  let ?shape = "case cd of [] \<Rightarrow> None | _ # ds \<Rightarrow> Some (k # ds)"
  obtain m w2 where 2: "H5Screate d ?shape w1 = (m, w2)" by (metis surj_pair)
  obtain e buf w3 where 3: "H5Dread d ds t m fs w2 = (e, buf, w3)" by (metis surj_pair)
  have sp2: "spaces sp0 fs m (sp w2)" "\<exists>Q'. sp w2 fs = Some Q' \<and> Q' = Q"
    using h5d_create [OF ok 2] s by (auto simp: spaces_def split: if_splits)
  then have sp3: "sp w3 = sp w2" and rd: "0 \<le> e \<longrightarrow> finite Q \<longrightarrow> 0 \<le> m \<and> buffer_ok (H5Tget_size d) t (card Q) buf \<and>
      (detect_vlen_types t = 0 \<longrightarrow> buf = Bytes (elements (cell ds t) Q))"
    using h5d_read [OF ok _ 3] by auto
  have unfold: "dataset_read_loop lib d debug ds t cd nr buffer_size fs ms pci pk w =
    (if e < 0 then Some (-1, m, pk, w3)
     else Option.bind (pack_contents_body (H5Tget_size d) pci t (k * nr) buf (k * nr * H5Tget_size d t) pk) (\<lambda>(rc, pci, pk).
       if rc \<noteq> 0 then Some (-1, m, pk, w3)
       else dataset_read_loop lib d debug ds t cd nr buffer_size fs ms' pci pk (H5Sclose lib m w3)))"
    using sel 2 3 fit by (simp add: dataset_read_loop.simps [of _ _ _ _ _ _ _ _ _ ms])
  show ?thesis
  proof (cases "e < 0")
    case True
    then show ?thesis using unfold sp2 sp3 by auto
  next
    case False
    then have b: "0 \<le> m" "buffer_ok (H5Tget_size d) t (unat (k * nr)) buf"
      "detect_vlen_types t = 0 \<longrightarrow> buf = Bytes (elements (cell ds t) Q)"
      using rd Q by auto
    obtain rc2 pci2 pk2 where 4: "pack_contents_body (H5Tget_size d) pci t (k * nr) buf (k * nr * H5Tget_size d t) pk = Some (rc2, pci2, pk2)"
      "rc2 = 0 \<longrightarrow> J pci2 pk2"
      using body [OF b(2,3)] by blast
    have "spaces sp0 fs (-1) (sp (H5Sclose lib m w3))"
      using close_memory [OF ok _ b(1)] sp2(1) sp3 by simp
    show ?thesis
    proof (cases "rc2 = 0")
      case True
      then have "dataset_read_loop lib d debug ds t cd nr buffer_size fs ms pci pk w =
          dataset_read_loop lib d debug ds t cd nr buffer_size fs ms' pci2 pk2 (H5Sclose lib m w3)" "J pci2 pk2"
        using unfold 4 \<open>\<not> e < 0\<close> by simp_all
      then show ?thesis using \<open>spaces sp0 fs (-1) _\<close> by blast
    next
      case False
      then show ?thesis using unfold 4 sp2 sp3 \<open>\<not> e < 0\<close> by auto
    qed
  qed
qed

lemma dataset_read_loop_spec:
  assumes ok: "h5d_ok lib d sp dims cell" and it: "iterates lib sp debug fs it N pts epb"
    and fits: "unat epb * unat nr * unat (H5Tget_size d t) \<le> unat buffer_size"
    and size: "nr = 0 \<or> H5Tget_size d t \<noteq> 0"
    and pts: "\<forall>i j. i \<le> j \<longrightarrow> j \<le> N \<longrightarrow> finite (pts i j) \<and> card (pts i j) = (j - i) * unat nr"
    and body: "body_step (H5Tget_size d) t (cell ds t) pts N nr I"
    and "it n ms" "n \<le> N" "I n pci pk" "spaces sp0 fs (-1) (sp w)"
  shows "\<exists>rc m pk' w'. dataset_read_loop lib d debug ds t cd nr buffer_size fs ms pci pk w = Some (rc, m, pk', w') \<and>
    (rc = 0 \<or> rc = -1) \<and> (rc = 0 \<longrightarrow> (\<exists>pci'. I N pci' pk')) \<and> spaces sp0 fs m (sp w')"
  using assms(7-10)
proof (induction "N - n" arbitrary: n ms pci pk w rule: less_induct)
  case less
  show ?case
  proof (cases "n < N")
    case False
    then have "n = N" using less.prems by simp
    then have "multislice_select_next_buffer_data lib debug ms fs w = Some (1, ms, 0, w)"
      using less.prems it by (auto simp: iterates_def)
    then show ?thesis using less.prems \<open>n = N\<close> by (auto simp: dataset_read_loop.simps [of _ _ _ _ _ _ _ _ _ ms])
  next
    case True
    obtain Q0 where s0: "sp0 fs = None" "sp w = sp0(fs \<mapsto> Q0)" using less.prems(4) by (auto simp: spaces_def)
    then have "sp w fs = Some Q0" by simp
    with True it less.prems(1) obtain rc ms' k w1 Q where
      1: "multislice_select_next_buffer_data lib debug ms fs w = Some (rc, ms', k, w1)"
      and k: "0 < k" "n + unat k \<le> N" "k \<le> epb" and rc: "rc = 0 \<or> rc = -1"
      and w1: "sp w1 = (sp w)(fs \<mapsto> Q)" and it': "it (n + unat k) ms'" and Q: "rc = 0 \<longrightarrow> Q = pts n (n + unat k)"
      unfolding iterates_def by blast
    have sp1: "sp w1 = sp0(fs \<mapsto> Q)" using w1 s0 by simp
    show ?thesis
    proof (cases "rc = 0")
      case False
      then show ?thesis using 1 rc sp1 s0 by (auto simp: dataset_read_loop.simps [of _ _ _ _ _ _ _ _ _ ms] spaces_def)
    next
      case rc0: True
      have fit: "unat k * unat nr * unat (H5Tget_size d t) \<le> unat buffer_size"
        using fits k(3) by (meson le_trans mult_le_mono1 word_le_nat_alt)
      have nrk: "unat (k * nr) = unat k * unat nr" using product_fits [OF fit size] .
      have Qk: "Q = pts n (n + unat k)" "finite Q" "card Q = unat (k * nr)"
        using pts [rule_format, of n "n + unat k"] k(2) Q rc0 nrk by auto
      have packed: "\<exists>rc2 pci2 pk2. pack_contents_body (H5Tget_size d) pci t (k * nr) buf (k * nr * H5Tget_size d t) pk = Some (rc2, pci2, pk2) \<and>
          (rc2 = 0 \<longrightarrow> I (n + unat k) pci2 pk2)"
        if "buffer_ok (H5Tget_size d) t (unat (k * nr)) buf" "detect_vlen_types t = 0 \<longrightarrow> buf = Bytes (elements (cell ds t) Q)" for buf
        using body [unfolded body_step_def, rule_format, OF less.prems(3) k(2) nrk that(1)] that(2) unfolding Qk(1) by blast
      from read_batch [OF ok 1 [unfolded rc0] k(1) s0(1) sp1 Qk(2,3) fit packed, where cd = cd] consider
        m pk' w' where "dataset_read_loop lib d debug ds t cd nr buffer_size fs ms pci pk w = Some (-1, m, pk', w')" "spaces sp0 fs m (sp w')"
      | pci2 pk2 w2 where "dataset_read_loop lib d debug ds t cd nr buffer_size fs ms pci pk w =
          dataset_read_loop lib d debug ds t cd nr buffer_size fs ms' pci2 pk2 w2" "I (n + unat k) pci2 pk2" "spaces sp0 fs (-1) (sp w2)"
        by blast
      then show ?thesis
      proof cases
        case 2
        have "N - (n + unat k) < N - n" using k(1) True by (simp add: word_less_nat_alt)
        from less.hyps [OF this it' k(2) 2(2,3)] 2(1) show ?thesis by simp
      qed simp
    qed
  qed
qed

section \<open>The iterator\<close>

definition nr_rows :: "nat \<Rightarrow> nat \<Rightarrow> hsize list \<Rightarrow> hsize list \<Rightarrow> nat" where
  "nr_rows rank nr_slices starts counts = (if rank = 0 then 1 else length (requested_rows rank nr_slices starts counts))"

definition rows_pts :: "nat \<Rightarrow> nat \<Rightarrow> hsize list \<Rightarrow> hsize list \<Rightarrow> nat \<Rightarrow> nat \<Rightarrow> point set" where
  "rows_pts rank nr_slices starts counts i j =
     (if rank = 0 then (if i < j then {[]} else {})
      else row_points rank starts counts (requested_rows rank nr_slices starts counts) i j)"

definition row_state :: "nat \<Rightarrow> nat \<Rightarrow> hsize list \<Rightarrow> hsize list \<Rightarrow> multislice \<Rightarrow> nat \<Rightarrow> multislice \<Rightarrow> bool" where
  "row_state rank nr_slices starts counts ms0 n ms \<longleftrightarrow>
     (if rank = 0 then ms_rank ms = 0 \<and> ms_nr_slices ms = 0 \<and> unat (ms_elements_left_total ms) = 1 - n
      else reading (requested_rows rank nr_slices starts counts) n ms \<and> ms_request ms = ms_request ms0)"

lemma rows_iterate:
  assumes ok: "h5d_ok lib d sp dims cell" and i: "multislice_init rank nr starts counts epb file_dims = Some ms0"
    and nw: "no_wrap (nat rank) (nat nr) starts counts" and epb: "requested_rows (nat rank) (nat nr) starts counts \<noteq> [] \<longrightarrow> epb \<noteq> 0"
    and r: "0 < rank"
  shows "iterates lib sp debug fs (row_state (nat rank) (nat nr) starts counts ms0)
     (nr_rows (nat rank) (nat nr) starts counts) (rows_pts (nat rank) (nat nr) starts counts) epb"
proof -
  let ?rows = "requested_rows (nat rank) (nat nr) starts counts"
  note f = init_fields [OF i r]
  have "multislice_select_next_buffer_data lib debug ms fs w = Some (1, ms, 0, w)"
    if "row_state (nat rank) (nat nr) starts counts ms0 (length ?rows) ms" for ms w
    using that r by (intro next_end [OF _ refl]) (auto simp: row_state_def)
  moreover have "\<exists>rc ms' k w' Q. multislice_select_next_buffer_data lib debug ms fs w = Some (rc, ms', k, w') \<and>
           0 < k \<and> n + unat k \<le> length ?rows \<and> k \<le> epb \<and> (rc = 0 \<or> rc = -1) \<and> sp w' = (sp w)(fs \<mapsto> Q) \<and>
           row_state (nat rank) (nat nr) starts counts ms0 (n + unat k) ms' \<and>
           (rc = 0 \<longrightarrow> Q = rows_pts (nat rank) (nat nr) starts counts n (n + unat k))"
    if n: "n < length ?rows" and st: "row_state (nat rank) (nat nr) starts counts ms0 n ms" and P: "sp w fs = Some P" for n ms w P
  proof -
    have rd: "reading ?rows n ms" and eq: "ms_request ms = ms_request ms0" using st r by (auto simp: row_state_def)
    note g = ms_request_fields [OF eq]
    have b: "ms_elements_per_buffer ms = epb" "ms_elements_per_buffer ms \<noteq> 0" using g f epb n by auto
    obtain rc ms' k w' Q where c:
      "multislice_select_next_buffer_data lib debug ms fs w = Some (rc, ms', k, w')"
      "reading ?rows (n + unat k) ms'" "ms_request ms' = ms_request ms"
      "0 < k" "k \<le> ms_elements_per_buffer ms" "n + unat k \<le> length ?rows"
      "rc = 0 \<or> rc = -1" "sp w' = (sp w)(fs \<mapsto> Q)"
      "rc = 0 \<longrightarrow> (\<exists>sels. Q = slabs (ms_start ms) (ms_count ms) sels \<and> sel_rows sels = batch ?rows n k)"
      by (rule next_batch [OF h5d_h5s [OF ok] P rd n b(2)])
    have "rc = 0 \<Longrightarrow> Q = rows_pts (nat rank) (nat nr) starts counts n (n + unat k)"
      using c(9) slabs_batch [of "nat rank" starts counts] r g f by (auto simp: batch_def rows_pts_def row_points_def)
    then show ?thesis
      using c b eq r by (intro exI [of _ rc] exI [of _ ms'] exI [of _ k] exI [of _ w'] exI [of _ Q]) (auto simp: row_state_def)
  qed
  ultimately show ?thesis using r by (auto simp: iterates_def nr_rows_def)
qed

lemma scalar_iterates:
  assumes ok: "\<And>w Q. sp w fs = Some Q \<Longrightarrow> sp (H5Sselect_all lib fs w) = (sp w)(fs \<mapsto> {[]})" and "epb \<noteq> 0"
  shows "iterates lib sp debug fs (row_state 0 nr starts counts ms0) (nr_rows 0 nr starts counts) (rows_pts 0 nr starts counts) epb"
proof -
  have "1 \<le> epb" using assms(2) by (simp add: word_le_nat_alt unat_gt_0 Suc_le_eq)
  then show ?thesis
    unfolding iterates_def row_state_def nr_rows_def rows_pts_def multislice_select_next_buffer_data_def
    using ok by (auto simp: unat_eq_0 Let_def)
qed

section \<open>A request\<close>

text \<open>
  The result of packing an array: the tokens that were added are one object; for a type of fixed
  size they are the header and then binary objects of at most m bytes that hold the given bytes.
\<close>

definition array_result ::
  "h5type \<Rightarrow> hsize \<Rightarrow> hsize list \<Rightarrow> hsize \<Rightarrow> byte list \<Rightarrow> msgpack_packer \<Rightarrow> msgpack_packer \<Rightarrow> bool" where
  "array_result t m shape nbytes bytes pk pk' \<longleftrightarrow>
     wrote pk pk' (1, 0) (0, 0) \<and>
     (detect_vlen_types t = 0 \<longrightarrow>
        (\<exists>pci pk1. pack_contents_header pci_new m t shape nbytes pk = Some (0, pci, pk1) \<and>
           wrote_bins (unat m) pk1 pk' (missing 0 pci) (0, 0) bytes))"

text \<open>What has been written after n of N rows.\<close>

definition fixed_progress ::
  "hsize \<Rightarrow> nat \<Rightarrow> nat \<Rightarrow> (nat \<Rightarrow> byte list) \<Rightarrow> pack_contents_info \<Rightarrow> msgpack_packer \<Rightarrow>
   nat \<Rightarrow> pack_contents_info \<Rightarrow> msgpack_packer \<Rightarrow> bool" where
  "fixed_progress m N row_size bytes pci0 pk0 n pci pk \<longleftrightarrow>
     pci_ok m pci \<and> pci_left pci = (N - n) * row_size \<and>
     wrote_bins (unat m) pk0 pk (missing 0 pci0) (missing 0 pci) (bytes n)"

definition vlen_progress ::
  "hsize \<Rightarrow> nat \<Rightarrow> nat \<Rightarrow> msgpack_packer \<Rightarrow> nat \<Rightarrow> pack_contents_info \<Rightarrow> msgpack_packer \<Rightarrow> bool" where
  "vlen_progress m N nr pk0 n pci pk \<longleftrightarrow>
     pci_has_vlen pci = 1 \<and> pci_max_size pci = m \<and> wrote pk0 pk (N * nr, 0) ((N - n) * nr, 0)"

lemma fixed_progress_step:
  assumes t: "detect_vlen_types t = 0"
    and app: "\<forall>i j. i \<le> j \<longrightarrow> j \<le> N \<longrightarrow> bytes j = bytes i @ elements cell (pts i j)"
  shows "body_step es t cell pts N nr (fixed_progress m N (unat nr * unat (es t)) bytes pci0 pk0)"
  unfolding body_step_def
proof (intro allI impI)
  fix n k pci pk buf
  assume I: "fixed_progress m N (unat nr * unat (es t)) bytes pci0 pk0 n pci pk"
    and k: "n + unat k \<le> N" "unat (k * nr) = unat k * unat nr"
    and buf: "buffer_ok es t (unat (k * nr)) buf"
    and rd: "detect_vlen_types t = 0 \<longrightarrow> buf = Bytes (elements cell (pts n (n + unat k)))"
  let ?bs = "elements cell (pts n (n + unat k))"
  have bytes: "buf = Bytes ?bs" "bytes (n + unat k) = bytes n @ ?bs" using rd t app k(1) by simp_all
  let ?r = "unat nr * unat (es t)"
  have ok: "pci_ok m pci" "pci_left pci = (N - n) * ?r" "wrote_bins (unat m) pk0 pk (missing 0 pci0) (missing 0 pci) (bytes n)"
    using I by (simp_all add: fixed_progress_def)
  have len: "length ?bs = unat k * ?r" "length ?bs = unat (k * nr * es t)"
    using buf t bytes(1) k(2) buffer_bytes [OF buf t] by (auto simp: buffer_ok.simps [of es t])
  have le: "unat (k * nr * es t) \<le> pci_left pci" using len ok(2) k(1) by (metis add.commute le_diff_conv2 mult_le_mono1 add_leD1)
  obtain rc pci' pk' bs' where 1: "pack_contents_body es pci t (k * nr) buf (k * nr * es t) pk = Some (rc, pci', pk')"
    "rc = 0 \<or> rc = -1" "buf = Bytes bs'"
    "rc = 0 \<longrightarrow> pci_ok m pci' \<and> pci_left pci' = pci_left pci - length bs' \<and>
       wrote_bins (unat m) pk pk' (missing 0 pci) (missing 0 pci') bs'"
    using body_fixed [OF ok(1) t buf le] by blast
  have "(N - n) * ?r - unat k * ?r = (N - (n + unat k)) * ?r" by (simp add: diff_mult_distrib add_mult_distrib)
  then have "rc = 0 \<longrightarrow> fixed_progress m N ?r bytes pci0 pk0 (n + unat k) pci' pk'"
    using 1(3,4) bytes ok(2) len wrote_bins_trans [OF ok(3)] by (simp add: fixed_progress_def)
  then show "\<exists>rc pci' pk'. pack_contents_body es pci t (k * nr) buf (k * nr * es t) pk = Some (rc, pci', pk') \<and>
      (rc = 0 \<or> rc = -1) \<and> (rc = 0 \<longrightarrow> fixed_progress m N ?r bytes pci0 pk0 (n + unat k) pci' pk')"
    using 1 by blast
qed

lemma vlen_progress_step:
  assumes t: "detect_vlen_types t = 1" and m: "0 < m" "unat m \<le> 2 ^ 63"
  shows "body_step es t cell pts N nr (vlen_progress m N (unat nr) pk0)"
  unfolding body_step_def
proof (intro allI impI)
  fix n k pci pk buf
  assume I: "vlen_progress m N (unat nr) pk0 n pci pk"
    and k: "n + unat k \<le> N" "unat (k * nr) = unat k * unat nr"
    and buf: "buffer_ok es t (unat (k * nr)) buf"
  have I': "pci_has_vlen pci = 1" "pci_max_size pci = m" "wrote pk0 pk (N * unat nr, 0) ((N - n) * unat nr, 0)"
    using I by (simp_all add: vlen_progress_def)
  have s: "(N - (n + unat k)) * unat nr + unat (k * nr) = (N - n) * unat nr"
    using k by (simp add: k(2) flip: add_mult_distrib)
  obtain rc pk' where "pack_contents_body es pci t (k * nr) buf (k * nr * es t) pk = Some (rc, pci, pk')" "rc = 0 \<or> rc = -1"
    "rc = 0 \<longrightarrow> wrote pk pk' ((N - (n + unat k)) * unat nr + unat (k * nr), 0) ((N - (n + unat k)) * unat nr, 0)"
    using body_vlen [OF t I'(1,2) m buf] by blast
  then show "\<exists>rc pci' pk'. pack_contents_body es pci t (k * nr) buf (k * nr * es t) pk = Some (rc, pci', pk') \<and>
      (rc = 0 \<or> rc = -1) \<and> (rc = 0 \<longrightarrow> vlen_progress m N (unat nr) pk0 (n + unat k) pci' pk')"
    using I' wrote_trans [OF I'(3)] by (auto simp: vlen_progress_def s)
qed

text \<open>
  The header and then the loop, for a type of fixed size and for one of variable length.  loop is what
  is known of the loop for any invariant of the body.
\<close>

abbreviation header_then_loop where
  "header_then_loop lib d debug ds t tc nr buffer_size fs ms m data_size pk w \<equiv>
     Option.bind (pack_contents_header pci_new m t tc data_size pk) (\<lambda>(rc, pci, pk).
        if rc \<noteq> 0 then Some (-1, pk, close_spaces lib fs (-1) w)
        else Option.bind (dataset_read_loop lib d debug ds t tc nr buffer_size fs ms pci pk w)
          (\<lambda>(rc, mem_space_id, pk, w). Some (rc, pk, close_spaces lib fs mem_space_id w)))"

lemma header_and_fixed_loop:
  assumes loop: "\<And>I pci pk1. body_step (H5Tget_size d) t (cell ds t) pts N nr I \<Longrightarrow> I 0 pci pk1 \<Longrightarrow>
      \<exists>rc mm pk' w'. dataset_read_loop lib d debug ds t tc nr buffer_size fs ms pci pk1 w = Some (rc, mm, pk', w') \<and>
        (rc = 0 \<or> rc = -1) \<and> (rc = 0 \<longrightarrow> (\<exists>pci'. I N pci' pk')) \<and> sp (close_spaces lib fs mm w') = s0"
    and t: "detect_vlen_types t = 0" and m: "0 < m" and closed: "sp (close_spaces lib fs (-1) w) = s0"
    and tc: "unat data_size = N * unat nr * unat (H5Tget_size d t)" "unat data_size + unat m < 2 ^ 64"
    and app: "\<forall>i j. i \<le> j \<longrightarrow> j \<le> N \<longrightarrow>
      elements (cell ds t) (pts 0 j) = elements (cell ds t) (pts 0 i) @ elements (cell ds t) (pts i j)"
  shows "\<exists>rc pk' w'. header_then_loop lib d debug ds t tc nr buffer_size fs ms m data_size pk w = Some (rc, pk', w') \<and>
     (rc = 0 \<or> rc = -1) \<and> sp w' = s0 \<and> (rc = 0 \<longrightarrow> array_result t m tc data_size (elements (cell ds t) (pts 0 N)) pk pk')"
proof -
  have em: "elements (cell ds t) (pts 0 0) = []" using app by (metis append_self_conv le0)
  obtain rc pci pk1 where h: "pack_contents_header pci_new m t tc data_size pk = Some (rc, pci, pk1)" "rc = 0 \<or> rc = -1"
    "rc = 0 \<longrightarrow> pci_ok m pci \<and> pci_left pci = unat data_size \<and> wrote pk pk1 (Suc 0, 0) (missing 0 pci)"
    by (rule header_fixed [OF t m tc(2)])
  show ?thesis
  proof (cases "rc = 0")
    case False
    then show ?thesis using h closed by simp
  next
    case True
    let ?I = "fixed_progress m N (unat nr * unat (H5Tget_size d t)) (\<lambda>n. elements (cell ds t) (pts 0 n)) pci pk1"
    have "?I 0 pci pk1" using h(3) True tc em by (simp add: fixed_progress_def)
    from loop [OF fixed_progress_step [OF t app] this] obtain rc2 mm pk2 w2 where
      2: "dataset_read_loop lib d debug ds t tc nr buffer_size fs ms pci pk1 w = Some (rc2, mm, pk2, w2)" "rc2 = 0 \<or> rc2 = -1"
        "rc2 = 0 \<longrightarrow> (\<exists>pci'. ?I N pci' pk2)" "sp (close_spaces lib fs mm w2) = s0"
      by blast
    have "rc2 = 0 \<Longrightarrow> wrote_bins (unat m) pk1 pk2 (missing 0 pci) (0, 0) (elements (cell ds t) (pts 0 N))"
      using 2(3) missing_done by (fastforce simp: fixed_progress_def)
    then have "rc2 = 0 \<Longrightarrow> array_result t m tc data_size (elements (cell ds t) (pts 0 N)) pk pk2"
      using h True wrote_trans [of pk pk1 "(Suc 0, 0)" "missing 0 pci" pk2 "(0, 0)"]
      by (auto simp: array_result_def dest: wrote_bins_wrote)
    then show ?thesis using h True 2 by simp
  qed
qed

lemma header_and_vlen_loop:
  assumes loop: "\<And>I pci pk1. body_step (H5Tget_size d) t (cell ds t) pts N nr I \<Longrightarrow> I 0 pci pk1 \<Longrightarrow>
      \<exists>rc mm pk' w'. dataset_read_loop lib d debug ds t tc nr buffer_size fs ms pci pk1 w = Some (rc, mm, pk', w') \<and>
        (rc = 0 \<or> rc = -1) \<and> (rc = 0 \<longrightarrow> (\<exists>pci'. I N pci' pk')) \<and> sp (close_spaces lib fs mm w') = s0"
    and t: "detect_vlen_types t = 1" and m: "0 < m" "unat m \<le> 2 ^ 63" and closed: "sp (close_spaces lib fs (-1) w) = s0"
    and tc: "unat (nr_values tc) = N * unat nr"
  shows "\<exists>rc pk' w'. header_then_loop lib d debug ds t tc nr buffer_size fs ms m data_size pk w = Some (rc, pk', w') \<and>
     (rc = 0 \<or> rc = -1) \<and> sp w' = s0 \<and> (rc = 0 \<longrightarrow> array_result t m tc data_size (elements (cell ds t) (pts 0 N)) pk pk')"
proof -
  obtain rc pci pk1 where h: "pack_contents_header pci_new m t tc data_size pk = Some (rc, pci, pk1)" "rc = 0 \<or> rc = -1"
    "rc = 0 \<longrightarrow> pci_max_size pci = m \<and> pci_has_vlen pci = 1 \<and>
     wrote pk pk1 (Suc 0, 0) (0 + unat (fold (\<lambda>d n. n * d) tc 1 :: hsize), 0)"
    by (rule header_vlen [OF t])
  show ?thesis
  proof (cases "rc = 0")
    case False
    then show ?thesis using h closed by simp
  next
    case True
    let ?I = "vlen_progress m N (unat nr) pk1"
    have w1: "wrote pk pk1 (Suc 0, 0) (N * unat nr, 0)" using h(3) True tc by (simp add: nr_values_def)
    have "?I 0 pci pk1" using h(3) True by (simp add: vlen_progress_def)
    from loop [OF vlen_progress_step [OF t m] this] obtain rc2 mm pk2 w2 where
      3: "dataset_read_loop lib d debug ds t tc nr buffer_size fs ms pci pk1 w = Some (rc2, mm, pk2, w2)" "rc2 = 0 \<or> rc2 = -1"
        "rc2 = 0 \<longrightarrow> (\<exists>pci'. ?I N pci' pk2)" "sp (close_spaces lib fs mm w2) = s0"
      by blast
    have "rc2 = 0 \<Longrightarrow> wrote pk pk2 (Suc 0, 0) (0, 0)"
      using 3(3) wrote_trans [OF w1, of pk2 "(0, 0)"] by (auto simp: vlen_progress_def)
    then have "rc2 = 0 \<Longrightarrow> array_result t m tc data_size (elements (cell ds t) (pts 0 N)) pk pk2"
      by (simp add: array_result_def t)
    then show ?thesis using h True 3 by simp
  qed
qed

lemma header_and_loop:
  assumes ok: "h5d_ok lib d sp dims cell" and it: "iterates lib sp debug fs it N pts epb"
    and fits: "unat epb * unat nr * unat (H5Tget_size d t) \<le> unat buffer_size"
    and size: "H5Tget_size d t \<noteq> 0"
    and pts: "\<And>i j. i \<le> j \<Longrightarrow> j \<le> N \<Longrightarrow> finite (pts i j) \<and> card (pts i j) = (j - i) * unat nr \<and>
      elements (cell ds t) (pts 0 j) = elements (cell ds t) (pts 0 i) @ elements (cell ds t) (pts i j)"
    and st: "it 0 ms" "spaces (sp w0) fs (-1) (sp w)"
    and m: "0 < m" "unat m \<le> 2 ^ 63"
    and tc: "unat (nr_values tc) = N * unat nr" "unat data_size = N * unat nr * unat (H5Tget_size d t)" "unat data_size < 2 ^ 63"
  shows "\<exists>rc pk' w'. header_then_loop lib d debug ds t tc nr buffer_size fs ms m data_size pk w = Some (rc, pk', w') \<and>
     (rc = 0 \<or> rc = -1) \<and> sp w' = sp w0 \<and>
     (rc = 0 \<longrightarrow> array_result t m tc data_size (elements (cell ds t) (pts 0 N)) pk pk')"
proof -
  have closed: "sp (close_spaces lib fs mm w2) = sp w0" if "spaces (sp w0) fs mm (sp w2)" for mm w2
    using close_spaces_ok [OF ok that] .
  have pt: "\<forall>i j. i \<le> j \<longrightarrow> j \<le> N \<longrightarrow> finite (pts i j) \<and> card (pts i j) = (j - i) * unat nr"
    and app: "\<forall>i j. i \<le> j \<longrightarrow> j \<le> N \<longrightarrow>
      elements (cell ds t) (pts 0 j) = elements (cell ds t) (pts 0 i) @ elements (cell ds t) (pts i j)"
    using pts by blast+
  have loop: "\<exists>rc mm pk' w'. dataset_read_loop lib d debug ds t tc nr buffer_size fs ms pci pk1 w = Some (rc, mm, pk', w') \<and>
    (rc = 0 \<or> rc = -1) \<and> (rc = 0 \<longrightarrow> (\<exists>pci'. I N pci' pk')) \<and> sp (close_spaces lib fs mm w') = sp w0"
    if "body_step (H5Tget_size d) t (cell ds t) pts N nr I" "I 0 pci pk1" for I pci pk1
    using dataset_read_loop_spec [where cd = tc, OF ok it fits disjI2 [OF size] pt that(1) st(1) le0 that(2) st(2)] closed by blast
  consider "detect_vlen_types t = 0" | "detect_vlen_types t = 1" | "detect_vlen_types t = -1"
    using detect_values(1) [of t] by auto
  then show ?thesis
  proof cases
    case 1
    have nb: "unat data_size + unat m < 2 ^ 64" using tc(3) m(2) by simp
    show ?thesis by (rule header_and_fixed_loop [where sp = sp])
      (rule loop 1 m(1) closed [OF st(2)] tc(2) nb app | assumption)+
  next
    case 2
    show ?thesis by (rule header_and_vlen_loop [where sp = sp])
      (rule loop 2 m closed [OF st(2)] tc(1) | assumption)+
  next
    case 3
    then show ?thesis using closed [OF st(2)] by (simp add: pack_contents_header_def)
  qed
qed

text \<open>The request fits into half of the address space, and no slice wraps around.\<close>

definition request_fits :: "hsize \<Rightarrow> nat \<Rightarrow> nat \<Rightarrow> hsize list \<Rightarrow> hsize list \<Rightarrow> bool" where
  "request_fits es rank nr_slices starts counts \<longleftrightarrow>
     0 < es \<and> no_wrap rank nr_slices starts counts \<and> points_per_row rank counts * unat es < 2 ^ 63 \<and>
     nr_rows rank nr_slices starts counts * points_per_row rank counts * unat es < 2 ^ 63"

lemma unat_times: "unat x * unat y < 2 ^ 64 \<Longrightarrow> unat (x * y) = unat x * unat (y :: hsize)"
  by (simp add: unat_mult_lem [symmetric])

lemma unat_rows:
  assumes "unat a = N \<or> nr = (0 :: hsize) \<and> N = 0" "N * unat nr < 2 ^ 64"
  shows "unat (a * nr) = N * unat nr"
  using assms unat_times [of a nr] by auto

lemma factor_below: "a * b < c \<Longrightarrow> 0 < b \<Longrightarrow> a < (c :: nat)"
  by (metis le_less_trans mult.right_neutral mult_le_mono2 Suc_leI One_nat_def)

lemma row_elements_points:
  assumes "request_fits es rank nr_slices starts counts"
  shows "unat (row_elements rank counts) = points_per_row rank counts"
proof -
  have "points_per_row rank counts < 2 ^ 63"
    by (rule factor_below [of _ "unat es"]) (use assms in \<open>simp_all add: request_fits_def word_less_nat_alt\<close>)
  then show ?thesis
    by (simp add: row_elements_def fold_product unat_product points_per_row_def)
qed

lemma no_points_per_row: "points_per_row rank counts = 0 \<longleftrightarrow> (\<exists>i \<in> {1..<rank}. counts ! i = 0)"
  by (auto simp: points_per_row_def prod_list_zero_iff unat_eq_0)

lemma rows_pts_points:
  assumes "0 < rank \<longrightarrow> sorted_wrt (<) (requested_rows rank nr_slices starts counts)"
    and "i \<le> j" "j \<le> nr_rows rank nr_slices starts counts"
  shows "finite (rows_pts rank nr_slices starts counts i j) \<and>
    card (rows_pts rank nr_slices starts counts i j) = (j - i) * points_per_row rank counts \<and>
    elements cell (rows_pts rank nr_slices starts counts 0 j) =
      elements cell (rows_pts rank nr_slices starts counts 0 i) @ elements cell (rows_pts rank nr_slices starts counts i j)"
proof (cases "rank = 0")
  case True
  then show ?thesis
    using assms by (cases i) (auto simp: rows_pts_def nr_rows_def points_per_row_def elements_def)
next
  case False
  then show ?thesis using row_points_list [of rank] assms by (simp add: rows_pts_def nr_rows_def)
qed

lemma rows_pts_all: "rows_pts rank nr_slices starts counts 0 (nr_rows rank nr_slices starts counts) = request_points rank nr_slices starts counts"
  by (simp add: rows_pts_def nr_rows_def request_points_def row_points_def)

lemma request_sorted:
  assumes "multislice_init rank nr starts counts epb file_dims = Some ms" "no_wrap (nat rank) (nat nr) starts counts" "0 < rank"
  shows "sorted_wrt (<) (requested_rows (nat rank) (nat nr) starts counts)"
  using rows_sorted [OF assms(1,3,2) order_refl] by (simp add: requested_rows_def)

lemma nr_values_prod: "nr_values dims = prod_list dims"
  using fold_product [of "\<lambda>d. d" dims 1] by (simp add: nr_values_def)

lemma init_scalar:
  assumes "multislice_init 0 nr starts counts epb file_dims = Some ms"
  shows "ms_total_count ms = []" "row_state 0 n starts counts ms0 0 ms"
  using assms by (auto simp: multislice_init_def Let_def row_state_def split: if_splits)

text \<open>The sizes that the code computes are the sizes of the request.\<close>

lemma request_sizes:
  assumes i: "multislice_init rank nr starts counts epb file_dims = Some ms"
    and f: "request_fits es (nat rank) (nat nr) starts counts"
    and nr': "nr' = row_elements (nat rank) counts"
  shows "unat (nr_values (ms_total_count ms)) = nr_rows (nat rank) (nat nr) starts counts * unat nr'"
    and "unat ((if rank = 0 then 1 else ms_total_count ms ! 0) * nr' * es) =
      nr_rows (nat rank) (nat nr) starts counts * unat nr' * unat es"
proof -
  let ?a = "if rank = 0 then 1 else ms_total_count ms ! 0"
  let ?N = "nr_rows (nat rank) (nat nr) starts counts"
  have u: "unat nr' = points_per_row (nat rank) counts" by (simp add: nr' row_elements_points [OF f])
  have es: "1 \<le> unat es" using f by (simp add: request_fits_def word_less_nat_alt)
  have b: "?N * unat nr' * unat es < 2 ^ 63" using f by (simp add: request_fits_def u)
  have vals: "nr_values (ms_total_count ms) = ?a * nr'"
    using init_scalar [of nr starts counts epb file_dims ms] init_fields(11) [OF i] init_cases(1) [OF i] i
    by (auto simp: nr_values_prod nr' row_elements_def fold_product)
  have a: "unat ?a = ?N \<or> nr' = 0 \<and> ?N = 0"
  proof (cases "rank = 0")
    case False
    then have r: "0 < rank" using init_cases(1) [OF i] by simp
    have "no_wrap (nat rank) (nat nr) starts counts" using f by (simp add: request_fits_def)
    from total_count_rows [OF i r this order_refl] show ?thesis
      using r u no_points_per_row [of "nat rank" counts]
      by (auto simp: init_fields(11) [OF i r] nr_rows_def requested_rows_def unat_eq_0)
  qed (simp add: nr_rows_def)
  have "?N * unat nr' < 2 ^ 63" by (rule factor_below [of _ "unat es"]) (use b es in \<open>simp_all\<close>)
  then have an: "unat (?a * nr') = ?N * unat nr'" by (intro unat_rows [OF a]) simp
  show "unat (nr_values (ms_total_count ms)) = ?N * unat nr'" using an by (simp only: vals)
  show "unat (?a * nr' * es) = ?N * unat nr' * unat es"
    by (rule trans [OF unat_times]) (use an b in \<open>simp_all only:, simp\<close>)
qed

lemma row_bytes:
  assumes "request_fits es rank nr_slices starts counts"
  shows "unat (row_elements rank counts * es) = unat (row_elements rank counts) * unat es"
  using assms by (intro unat_times) (simp add: row_elements_points [OF assms] request_fits_def)

lemma request_card:
  assumes i: "multislice_init rank nr starts counts epb file_dims = Some ms"
    and f: "request_fits es (nat rank) (nat nr) starts counts"
  shows "unat (nr_values (ms_total_count ms)) = card (request_points (nat rank) (nat nr) starts counts)"
proof -
  have "no_wrap (nat rank) (nat nr) starts counts" using f by (simp add: request_fits_def)
  then have "0 < nat rank \<longrightarrow> sorted_wrt (<) (requested_rows (nat rank) (nat nr) starts counts)"
    using request_sorted [OF i] by simp
  from rows_pts_points [where cell = "\<lambda>_. [] :: byte list", OF this le0 order_refl] show ?thesis
    using request_sizes(1) [OF i f refl] row_elements_points [OF f] by (simp add: rows_pts_all)
qed

lemma accepted_request:
  assumes ok: "h5d_ok lib d sp dims cell" and s: "H5Dget_space d ds w = (fs, w1)" "0 \<le> fs"
    and f: "request_fits (H5Tget_size d t) (nat rank) (nat nr) starts counts"
    and m: "0 < m" "unat m \<le> 2 ^ 63" and sc: "rank = 0 \<longrightarrow> dims ds = []"
    and epb: "0 < row_elements (nat rank) counts \<longrightarrow> 1 \<le> epb"
    and i: "multislice_init rank nr starts counts epb fd = Some ms"
    and epb_def: "epb = (if 0 < row_elements (nat rank) counts then buffer_size div (row_elements (nat rank) counts * H5Tget_size d t) else 0)"
    and opened: "spaces (sp w) fs (-1) (sp w1)"
  shows "\<exists>rc pk' w'. Option.bind (pack_contents_header pci_new m t (ms_total_count ms)
         ((if rank = 0 then 1 else ms_total_count ms ! 0) * row_elements (nat rank) counts * H5Tget_size d t) pk) (\<lambda>(rc, pci, pk).
        if rc \<noteq> 0 then Some (-1, pk, close_spaces lib fs (-1) w1)
        else Option.bind (dataset_read_loop lib d debug ds t (ms_total_count ms) (row_elements (nat rank) counts) buffer_size fs ms pci pk w1)
          (\<lambda>(rc, mem_space_id, pk, w). Some (rc, pk, close_spaces lib fs mem_space_id w))) = Some (rc, pk', w') \<and>
     (rc = 0 \<or> rc = -1) \<and> sp w' = sp w \<and>
     (rc = 0 \<longrightarrow> array_result t m (ms_total_count ms)
        ((if rank = 0 then 1 else ms_total_count ms ! 0) * row_elements (nat rank) counts * H5Tget_size d t)
        (elements (cell ds t) (request_points (nat rank) (nat nr) starts counts)) pk pk')"
proof -
  let ?nr = "row_elements (nat rank) counts" and ?es = "H5Tget_size d t"
  let ?N = "nr_rows (nat rank) (nat nr) starts counts" and ?pts = "rows_pts (nat rank) (nat nr) starts counts"
  have u: "unat ?nr = points_per_row (nat rank) counts" by (rule row_elements_points [OF f])
  have r0: "0 \<le> rank" by (rule init_cases(1) [OF i])
  have nw: "no_wrap (nat rank) (nat nr) starts counts" using f by (simp add: request_fits_def)
  have sorted: "0 < nat rank \<longrightarrow> sorted_wrt (<) (requested_rows (nat rank) (nat nr) starts counts)"
    using request_sorted [OF i nw] by simp
  have it: "iterates lib sp debug fs (row_state (nat rank) (nat nr) starts counts ms) ?N ?pts epb"
  proof (cases "rank = 0")
    case True
    then have "epb \<noteq> 0" using epb by (auto simp: row_elements_def)
    then show ?thesis
      using scalar_iterates [of sp fs lib epb] h5d_space(3) [OF ok s] sc True by (simp add: extent_points_def)
  next
    case False
    have "requested_rows (nat rank) (nat nr) starts counts \<noteq> [] \<longrightarrow> epb \<noteq> 0"
      using epb u no_points_per_row [of "nat rank" counts] by (auto simp: requested_rows_def word_less_nat_alt)
    with False r0 show ?thesis by (intro rows_iterate [OF ok i nw]) simp_all
  qed
  have st: "row_state (nat rank) (nat nr) starts counts ms 0 ms"
    using init_scalar(2) init_reading i nw r0 by (cases "rank = 0") (auto simp: row_state_def)
  have fit: "unat epb * unat ?nr * unat ?es \<le> unat buffer_size"
    using row_bytes [OF f] by (auto simp: epb_def unat_div mult.assoc)
  have pts: "\<And>i j. i \<le> j \<Longrightarrow> j \<le> ?N \<Longrightarrow> finite (?pts i j) \<and> card (?pts i j) = (j - i) * unat ?nr \<and>
      elements (cell ds t) (?pts 0 j) = elements (cell ds t) (?pts 0 i) @ elements (cell ds t) (?pts i j)"
    using rows_pts_points [OF sorted] u by metis
  have es: "?es \<noteq> 0" using f by (simp add: request_fits_def word_gt_0)
  note sz = request_sizes [OF i f refl]
  have "unat ((if rank = 0 then 1 else ms_total_count ms ! 0) * ?nr * ?es) < 2 ^ 63"
    using f unfolding sz(2) by (simp add: request_fits_def u)
  note h = header_and_loop [where it = "row_state (nat rank) (nat nr) starts counts ms", OF ok it fit es pts st opened m sz this]
  show ?thesis by (rule h [unfolded rows_pts_all])
qed

lemma slices_packed:
  assumes ok: "h5d_ok lib d sp dims cell" and t: "mem_type d ds = Some t"
    and f: "request_fits (H5Tget_size d t) (nat rank) (nat nr) starts counts"
    and m: "0 < m" "unat m \<le> 2 ^ 63" and sc: "rank = 0 \<longrightarrow> dims ds = []"
  shows "\<exists>rc pk' w'. pack_dataset_multi_slice_with_max_size lib d debug mok ds rank nr starts counts buffer_size m pk w = Some (rc, pk', w') \<and>
    (rc = 0 \<or> rc = -1) \<and> sp w' = sp w \<and>
    (rc = 0 \<longrightarrow> (\<exists>shape nbytes. unat (nr_values shape) = card (request_points (nat rank) (nat nr) starts counts) \<and>
       array_result t m shape nbytes (elements (cell ds t) (request_points (nat rank) (nat nr) starts counts)) pk pk'))"
proof -
  obtain fs w1 where s: "H5Dget_space d ds w = (fs, w1)" by (metis surj_pair)
  let ?es = "H5Tget_size d t" and ?nr = "row_elements (nat rank) counts"
  let ?epb = "if 0 < ?nr then buffer_size div (?nr * ?es) else 0"
  note sp1 = h5d_space [OF ok s]
  have nz: "0 < ?nr \<Longrightarrow> ?nr * ?es \<noteq> 0" using row_bytes [OF f] f by (auto simp: request_fits_def word_gt_0 simp flip: unat_eq_0)
  show ?thesis
  proof (cases "nr < 1 \<or> fs < 0")
    case True
    then show ?thesis using t s sp1(1) by (auto simp: pack_dataset_multi_slice_with_max_size_def)
  next
    case False
    then have opened: "spaces (sp w) fs (-1) (sp w1)" using sp1(1) by (auto simp: spaces_def)
    have closed: "sp (close_spaces lib fs (-1) w1) = sp w" by (rule close_spaces_ok [OF ok opened])
    consider "detect_vlen_types t < 0 \<or> 0 < ?nr \<and> ?epb < 1 \<or> H5Sget_simple_extent_dims d fs w1 = None \<or>
        (\<exists>fd. H5Sget_simple_extent_dims d fs w1 = Some fd \<and> multislice_init rank nr starts counts ?epb fd = None) \<or> \<not> mok"
      | fd ms where "0 \<le> detect_vlen_types t" "0 < ?nr \<longrightarrow> 1 \<le> ?epb" "H5Sget_simple_extent_dims d fs w1 = Some fd"
        "multislice_init rank nr starts counts ?epb fd = Some ms" mok
      by (metis linorder_not_le option.exhaust)
    then show ?thesis
    proof cases
      case 1
      then have "pack_dataset_multi_slice_with_max_size lib d debug mok ds rank nr starts counts buffer_size m pk w =
          Some (-1, pk, close_spaces lib fs (-1) w1)"
        using False t s nz by (auto simp: pack_dataset_multi_slice_with_max_size_def Let_def split: option.splits)
      then show ?thesis using closed by simp
    next
      case (2 fd ms)
      let ?size = "(if rank = 0 then 1 else ms_total_count ms ! 0) * ?nr * ?es"
      have "pack_dataset_multi_slice_with_max_size lib d debug mok ds rank nr starts counts buffer_size m pk w =
          Option.bind (pack_contents_header pci_new m t (ms_total_count ms) ?size pk) (\<lambda>(rc, pci, pk).
            if rc \<noteq> 0 then Some (-1, pk, close_spaces lib fs (-1) w1)
            else Option.bind (dataset_read_loop lib d debug ds t (ms_total_count ms) ?nr buffer_size fs ms pci pk w1)
              (\<lambda>(rc, mem_space_id, pk, w). Some (rc, pk, close_spaces lib fs mem_space_id w)))"
        using False t s nz 2 by (auto simp: pack_dataset_multi_slice_with_max_size_def Let_def)
      then show ?thesis
        using accepted_request [OF ok s _ f m sc 2(2,4) refl opened] request_card [OF 2(4) f] False by fastforce
    qed
  qed
qed

end
