(* ===== verification/PackObject.thy ===== *)
theory PackObject
  imports PackDataset
begin

text \<open>
  Packing an object with its attributes and members: src/src/hdf5/pack_attributes.c, pack_dataset.c
  (pack_dataset), pack_group.c, pack_object.c, pack_soft_link.c and pack_unknown.c.

  The functions of HDF5 that are called here are the fields of the record h5o; they read an open
  file, so they do not depend on the state 'w of the dataspaces.  The identifiers of objects and
  attributes that the code closes again, and its memory, are not tracked.
\<close>

section \<open>The library\<close>

text \<open>
  An attribute as H5Aget_name(), H5Aget_space(), H5Aget_type() and H5Aread() present it, None for a
  call that fails.
\<close>

record attribute =
  H5Aget_name :: "string option"
  H5Aget_dims :: "hsize list option"
  H5Aget_type :: h5type
  H5Aread :: "h5type \<Rightarrow> buffer option"

datatype object_type = Group | Dataset | Other_object
datatype link_type = Hard | External | Soft | Link_error | User_defined

text \<open>
  H5Literate_links are the links in the order of the iteration, and H5Literate_result is what
  H5Literate2() returns when its callback never fails.
\<close>

record h5o =
  H5Oget_num_attrs :: "hid \<Rightarrow> nat option"
  H5Aopen_by_idx :: "hid \<Rightarrow> nat \<Rightarrow> attribute option"
  H5Oopen :: "hid \<Rightarrow> string \<Rightarrow> hid option"
  H5Iget_type :: "hid \<Rightarrow> object_type"
  H5Gget_nlinks :: "hid \<Rightarrow> nat option"
  H5Literate_links :: "hid \<Rightarrow> (string \<times> link_type) list"
  H5Literate_result :: "hid \<Rightarrow> int"
  H5Lget_val :: "hid \<Rightarrow> string \<Rightarrow> string option"

text \<open>The library, the arguments of a request that do not change in the recursion, and malloc().\<close>

record 'w env =
  e_lib :: "'w h5s"
  e_data :: "'w h5d"
  e_obj :: h5o
  e_debug :: bool
  e_malloc :: bool
  e_max_depth :: int
  e_data_size_limit :: hsize
  e_buffer_size :: hsize

section \<open>Sequences of calls\<close>

text \<open>
  As checked in theory Msgpack, for calls that also change the state of the library, and that may
  not return.
\<close>

type_synonym 'w step = "msgpack_packer \<times> 'w \<Rightarrow> (int \<times> msgpack_packer \<times> 'w) option"

definition lift :: "action \<Rightarrow> 'w step" where
  "lift a s = (case a (fst s) of (rc, pk) \<Rightarrow> Some (rc, pk, snd s))"

fun checked_steps :: "'w step list \<Rightarrow> 'w step" where
  "checked_steps [] s = Some (0, s)"
| "checked_steps (a # as) s =
     Option.bind (a s) (\<lambda>(rc, s). if rc \<noteq> 0 then Some (-1, s) else checked_steps as s)"

section \<open>Operations\<close>

definition max_array_size :: hsize where
  "max_array_size = 2 ^ 32 - 1"

definition pack_attribute :: "'w h5d \<Rightarrow> attribute \<Rightarrow> msgpack_packer \<Rightarrow> (int \<times> msgpack_packer) option" where
  "pack_attribute d attr pk =
     (case H5Aget_name attr of
        None \<Rightarrow> Some (-1, pk)
      | Some name \<Rightarrow>
      case checked (pack_str name) pk of (rc, pk) \<Rightarrow>
      if rc \<noteq> 0 then Some (-1, pk)
      else case H5Aget_dims attr of
        None \<Rightarrow> Some (-1, pk)
      | Some dims \<Rightarrow>
      if int (length dims) > HDFSTREAM_MAX_DIMS then Some (-1, pk)
      else case make_packed_native_type (H5Tget_native_type d) (H5Tpack d) (H5Aget_type attr) of
        None \<Rightarrow> Some (-1, pk)
      | Some t \<Rightarrow>
      if detect_vlen_types t < 0 then Some (-1, pk)
      else case H5Aread attr t of
        None \<Rightarrow> Some (-1, pk)
      | Some buffer \<Rightarrow> whole_array (H5Tget_size d) max_array_size t dims buffer pk)"

fun pack_attribute_loop :: "'w h5d \<Rightarrow> h5o \<Rightarrow> hid \<Rightarrow> nat list \<Rightarrow> msgpack_packer \<Rightarrow> (int \<times> msgpack_packer) option" where
  "pack_attribute_loop d ob obj_id [] pk = Some (0, pk)"
| "pack_attribute_loop d ob obj_id (attr_nr # rest) pk =
     (case H5Aopen_by_idx ob obj_id attr_nr of
        None \<Rightarrow> Some (-1, pk)
      | Some attr \<Rightarrow> Option.bind (pack_attribute d attr pk) (\<lambda>(rc, pk).
          if rc \<noteq> 0 then Some (-1, pk) else pack_attribute_loop d ob obj_id rest pk))"

definition pack_attributes :: "'w h5d \<Rightarrow> h5o \<Rightarrow> hid \<Rightarrow> msgpack_packer \<Rightarrow> (int \<times> msgpack_packer) option" where
  "pack_attributes d ob obj_id pk =
     (case H5Oget_num_attrs ob obj_id of
        None \<Rightarrow> Some (-1, pk)
      | Some nr_attrs \<Rightarrow>
          (case emit (Map nr_attrs) pk of (rc, pk) \<Rightarrow>
             if rc \<noteq> 0 then Some (-1, pk) else pack_attribute_loop d ob obj_id [0..<nr_attrs] pk))"

definition attributes_step :: "'w env \<Rightarrow> hid \<Rightarrow> 'w step" where
  "attributes_step e obj_id s =
     (case pack_attributes (e_data e) (e_obj e) obj_id (fst s) of
        None \<Rightarrow> None | Some (rc, pk) \<Rightarrow> Some (rc, pk, snd s))"

definition pack_dataset_slice :: "'w env \<Rightarrow> hid \<Rightarrow> hsize list \<Rightarrow> 'w step" where
  "pack_dataset_slice e dataset_id dims s =
     pack_dataset_multi_slice_with_max_size (e_lib e) (e_data e) (e_debug e) (e_malloc e) dataset_id
       (int (length dims)) 1 (map (\<lambda>_. 0) dims) dims (e_buffer_size e) max_array_size (fst s) (snd s)"

definition dataset_steps :: "'w env \<Rightarrow> hid \<Rightarrow> h5type \<Rightarrow> hsize list \<Rightarrow> bool \<Rightarrow> 'w step list" where
  "dataset_steps e dataset_id t dims with_data =
     map lift (emit (Map (if with_data then 6 else 5)) #
               pack_str ''hdf5_object'' @ pack_str ''dataset'' @ pack_str ''attributes'') @
     [attributes_step e dataset_id] @
     map lift (pack_str ''type'' @ [pack_numpy_type t None] @
               pack_str ''kind'' @ [pack_numpy_kind t] @ pack_shape dims) @
     (if with_data then map lift (pack_str ''data'') @ [pack_dataset_slice e dataset_id dims] else [])"

definition pack_dataset :: "'w env \<Rightarrow> hid \<Rightarrow> 'w step" where
  "pack_dataset e dataset_id s =
     (case H5Dget_space (e_data e) dataset_id (snd s) of (dspace_id, w) \<Rightarrow>
      if dspace_id < 0 then Some (-1, fst s, w)
      else let close = (\<lambda>(rc, pk, w). (rc, pk, H5Sclose (e_lib e) dspace_id w)) in
      case H5Sget_simple_extent_dims (e_data e) dspace_id w of
        None \<Rightarrow> Some (close (-1, fst s, w))
      | Some dims \<Rightarrow>
      if int (length dims) > HDFSTREAM_MAX_DIMS then Some (close (-1, fst s, w))
      else case mem_type (e_data e) dataset_id of
        None \<Rightarrow> Some (close (-1, fst s, w))
      | Some t \<Rightarrow>
      let data_size = H5Tget_size (e_data e) t in
      if data_size = 0 then Some (close (-1, fst s, w))
      else let data_size = fold (\<lambda>n size. size * n) dims data_size;
               with_data = (data_size \<le> e_data_size_limit e)
      in map_option close (checked_steps (dataset_steps e dataset_id t dims with_data) (fst s, w)))"

definition pack_unknown :: "action" where
  "pack_unknown = checked (emit (Map 1) # pack_str ''hdf5_object'' @ pack_str ''unknown'')"

text \<open>strnlen() ends the target at its first zero character.\<close>

definition pack_soft_link :: "h5o \<Rightarrow> hid \<Rightarrow> string \<Rightarrow> action" where
  "pack_soft_link ob obj_id name pk =
     (case H5Lget_val ob obj_id name of
        None \<Rightarrow> (-1, pk)
      | Some target \<Rightarrow>
          checked (emit (Map 2) # pack_str ''hdf5_object'' @ pack_str ''soft_link'' @
                   pack_str ''target'' @ pack_str (takeWhile (\<lambda>c. c \<noteq> char_of (0 :: nat)) target)) pk)"

definition MAX_LINKS_FOR_RECURSION :: nat where
  "MAX_LINKS_FOR_RECURSION = 20"

text \<open>
  The callback visit_link(); member packs the object behind a link, one level deeper.  H5Literate2()
  calls the callback for one link after the other, and returns the first result that is not zero.
\<close>

definition visit_link :: "(string \<Rightarrow> 'w step) \<Rightarrow> 'w env \<Rightarrow> hid \<Rightarrow> bool \<Rightarrow> string \<times> link_type \<Rightarrow> 'w step" where
  "visit_link member e obj_id encode_members l s =
     (case l of (name, link) \<Rightarrow> checked_steps
        (map lift (pack_str name) @
         (if encode_members then
            (case link of
               Hard \<Rightarrow> [member name]
             | External \<Rightarrow> [member name]
             | Soft \<Rightarrow> [lift (pack_soft_link (e_obj e) obj_id name)]
             | Link_error \<Rightarrow> [\<lambda>s. Some (-1, s)]
             | User_defined \<Rightarrow> [lift pack_unknown])
          else [lift (emit Nil_tok)])) s)"

fun H5Literate2 :: "(string \<times> link_type \<Rightarrow> 'w step) \<Rightarrow> (string \<times> link_type) list \<Rightarrow> int \<Rightarrow> 'w step" where
  "H5Literate2 callback [] result s = Some (result, s)"
| "H5Literate2 callback (l # links) result s =
     Option.bind (callback l s) (\<lambda>(rc, s). if rc \<noteq> 0 then Some (rc, s) else H5Literate2 callback links result s)"

definition pack_group_recursive :: "(string \<Rightarrow> 'w step) \<Rightarrow> 'w env \<Rightarrow> hid \<Rightarrow> int \<Rightarrow> 'w step" where
  "pack_group_recursive member e obj_id depth s =
     (case H5Gget_nlinks (e_obj e) obj_id of
        None \<Rightarrow> Some (-1, s)
      | Some nr_links \<Rightarrow>
          let encode_members = \<not> (depth > 0 \<and> (nr_links > MAX_LINKS_FOR_RECURSION \<or> depth \<ge> e_max_depth e)) in
          checked_steps
            (map lift (emit (Map 3) # pack_str ''hdf5_object'' @ pack_str ''group'' @ pack_str ''attributes'') @
             [attributes_step e obj_id] @
             map lift (pack_str ''members'' @ [emit (Map nr_links)]) @
             [H5Literate2 (visit_link member e obj_id encode_members) (H5Literate_links (e_obj e) obj_id)
                (H5Literate_result (e_obj e) obj_id)]) s)"

text \<open>
  In the code pack_object_recursive() and pack_group_recursive() call each other.  A group is entered
  at a depth of at most max_depth only, so the recursion ends for any graph of links.
\<close>

function pack_object_recursive :: "'w env \<Rightarrow> hid \<Rightarrow> string \<Rightarrow> int \<Rightarrow> 'w step" where
  "pack_object_recursive e loc_id name depth s =
     (case H5Oopen (e_obj e) loc_id name of
        None \<Rightarrow> Some (-1, s)
      | Some obj_id \<Rightarrow>
          (case H5Iget_type (e_obj e) obj_id of
             Group \<Rightarrow>
               if depth > e_max_depth e then checked_steps [lift (emit Nil_tok)] s
               else checked_steps
                 [pack_group_recursive (\<lambda>name s. pack_object_recursive e obj_id name (depth + 1) s) e obj_id depth] s
           | Dataset \<Rightarrow> checked_steps [pack_dataset e obj_id] s
           | Other_object \<Rightarrow> checked_steps [lift pack_unknown] s))"
  by pat_completeness auto
termination
  by (relation "measure (\<lambda>(e, loc_id, name, depth, s). nat (e_max_depth e + 1 - depth))") auto

declare pack_object_recursive.simps [simp del]

definition pack_object :: "'w env \<Rightarrow> hid \<Rightarrow> string \<Rightarrow> 'w step" where
  "pack_object e loc_id name = pack_object_recursive e loc_id name 0"

definition pack_group :: "'w env \<Rightarrow> hid \<Rightarrow> 'w step" where
  "pack_group e obj_id = pack_group_recursive (\<lambda>name. pack_object_recursive e obj_id name 1) e obj_id 0"

section \<open>What the library promises\<close>

text \<open>
  The buffer of H5Aread() holds the elements of the attribute, and H5Gget_info() reports as many
  links as the iteration visits.  No dataset is half the address space.
\<close>

definition h5o_ok :: "'w h5d \<Rightarrow> h5o \<Rightarrow> bool" where
  "h5o_ok d ob \<longleftrightarrow>
     (\<forall>obj i attr t dims buf. H5Aopen_by_idx ob obj i = Some attr \<longrightarrow> H5Aget_dims attr = Some dims \<longrightarrow>
        H5Aread attr t = Some buf \<longrightarrow> buffer_ok (H5Tget_size d) t (unat (nr_values dims)) buf) \<and>
     (\<forall>obj n. H5Gget_nlinks ob obj = Some n \<longrightarrow> H5Literate_result ob obj = 0 \<longrightarrow> length (H5Literate_links ob obj) = n)"

definition env_ok :: "'w env \<Rightarrow> ('w \<Rightarrow> hid \<Rightarrow> point set option) \<Rightarrow> (hid \<Rightarrow> hsize list) \<Rightarrow> (hid \<Rightarrow> h5type \<Rightarrow> point \<Rightarrow> byte list) \<Rightarrow> bool" where
  "env_ok e sp dims cell \<longleftrightarrow>
     h5d_ok (e_lib e) (e_data e) sp dims cell \<and> h5o_ok (e_data e) (e_obj e) \<and>
     (\<forall>ds t. mem_type (e_data e) ds = Some t \<longrightarrow>
        request_fits (H5Tget_size (e_data e) t) (length (dims ds)) 1 (map (\<lambda>_. 0) (dims ds)) (dims ds))"

section \<open>Every packer writes one object\<close>

text \<open>A step returns, leaves no dataspace open, and has written x to y when it succeeds.\<close>

definition step_ok :: "('w \<Rightarrow> hid \<Rightarrow> point set option) \<Rightarrow> 'w step \<Rightarrow> nat \<times> nat \<Rightarrow> nat \<times> nat \<Rightarrow> bool" where
  "step_ok sp a x y \<longleftrightarrow>
     (\<forall>pk w. \<exists>rc pk' w'. a (pk, w) = Some (rc, pk', w') \<and> sp w' = sp w \<and> (rc = 0 \<longrightarrow> wrote pk pk' x y))"

lemma step_okE:
  assumes "step_ok sp a x y"
  obtains rc pk' w' where "a (pk, w) = Some (rc, pk', w')" "sp w' = sp w" "rc = 0 \<longrightarrow> wrote pk pk' x y"
  using assms unfolding step_ok_def by blast

lemma step_lift: "packs a x y \<Longrightarrow> step_ok sp (lift a) x y"
  by (auto simp: step_ok_def lift_def packs_def split: prod.splits)

lemma steps_nil: "step_ok sp (checked_steps []) x x"
  by (simp add: step_ok_def)

lemma steps_cons:
  assumes a: "step_ok sp a x y" and as: "step_ok sp (checked_steps as) y z"
  shows "step_ok sp (checked_steps (a # as)) x z"
  unfolding step_ok_def
proof (intro allI)
  fix pk w
  obtain rc pk1 w1 where 1: "a (pk, w) = Some (rc, pk1, w1)" "sp w1 = sp w" "rc = 0 \<longrightarrow> wrote pk pk1 x y"
    using a by (rule step_okE)
  obtain rc2 pk2 w2 where 2: "checked_steps as (pk1, w1) = Some (rc2, pk2, w2)" "sp w2 = sp w1" "rc2 = 0 \<longrightarrow> wrote pk1 pk2 y z"
    using as by (rule step_okE)
  show "\<exists>rc pk' w'. checked_steps (a # as) (pk, w) = Some (rc, pk', w') \<and> sp w' = sp w \<and> (rc = 0 \<longrightarrow> wrote pk pk' x z)"
    using 1 2 wrote_trans [of pk pk1 x y pk2 z] by (cases "rc = 0") auto
qed

lemma steps_lift_run:
  "checked_steps (map lift as @ bs) (pk, w) =
     (case checked as pk of (rc, pk) \<Rightarrow> if rc \<noteq> 0 then Some (-1, pk, w) else checked_steps bs (pk, w))"
  by (induction as arbitrary: pk) (auto simp: lift_def split: prod.splits)

lemma steps_lift:
  assumes "packs (checked as) x y" "step_ok sp (checked_steps bs) y z"
  shows "step_ok sp (checked_steps (map lift as @ bs)) x z"
  unfolding step_ok_def
proof (intro allI)
  fix pk w
  obtain rc pk1 where 1: "checked as pk = (rc, pk1)" by (metis surj_pair)
  obtain rc2 pk2 w2 where 2: "checked_steps bs (pk1, w) = Some (rc2, pk2, w2)" "sp w2 = sp w" "rc2 = 0 \<longrightarrow> wrote pk1 pk2 y z"
    using assms(2) by (rule step_okE)
  show "\<exists>rc pk' w'. checked_steps (map lift as @ bs) (pk, w) = Some (rc, pk', w') \<and> sp w' = sp w \<and> (rc = 0 \<longrightarrow> wrote pk pk' x z)"
    using 1 2 packsD [OF assms(1), of pk pk1] wrote_trans [of pk pk1 x y pk2 z]
    by (cases pk2, cases "rc = 0") (auto simp: steps_lift_run)
qed

lemmas steps_one = steps_cons [OF _ steps_nil]

lemma attribute_packed:
  assumes "H5Aopen_by_idx ob obj i = Some attr" "h5o_ok d ob"
  shows "returns (pack_attribute d attr pk) pk (Suc (Suc k), 0) (k, 0)"
proof -
  have m: "0 < max_array_size" "unat max_array_size \<le> 2 ^ 63" by (simp_all add: max_array_size_def)
  have w: "checked (pack_str name) pk = (0, pk1) \<Longrightarrow> wrote pk pk1 (Suc (Suc k), 0) (Suc k, 0)" for name pk1
    by (rule packsD [OF packs_str])
  have a: "returns (whole_array (H5Tget_size d) max_array_size t dims buf pk1) pk1 (Suc k, 0) (k, 0)"
    if "H5Aget_dims attr = Some dims" "H5Aread attr t = Some buf" for t dims buf pk1
    using array_packed [OF m, of "H5Tget_size d" t dims buf] assms that by (auto simp: h5o_ok_def)
  show ?thesis
    using w a checked_result [of "pack_str (the (H5Aget_name attr))" pk]
    by (fastforce simp: pack_attribute_def returns_def split: option.splits prod.splits intro: wrote_trans)
qed

lemma attribute_loop_packed:
  assumes "h5o_ok d ob"
  shows "returns (pack_attribute_loop d ob obj_id is pk) pk (k + 2 * length is, 0) (k, 0)"
proof (induction "is" arbitrary: pk)
  case Nil
  then show ?case by (simp add: returns_def)
next
  case (Cons i "is")
  show ?case
  proof (cases "H5Aopen_by_idx ob obj_id i")
    case None
    then show ?thesis by (simp add: returns_def)
  next
    case (Some attr)
    obtain rc pk1 where 1: "pack_attribute d attr pk = Some (rc, pk1)" "rc = 0 \<or> rc = -1"
      "rc = 0 \<longrightarrow> wrote pk pk1 (Suc (Suc (k + 2 * length is)), 0) (k + 2 * length is, 0)"
      using attribute_packed [OF Some assms] unfolding returns_def by blast
    obtain rc2 pk2 where 2: "pack_attribute_loop d ob obj_id is pk1 = Some (rc2, pk2)" "rc2 = 0 \<or> rc2 = -1"
      "rc2 = 0 \<longrightarrow> wrote pk1 pk2 (k + 2 * length is, 0) (k, 0)"
      using Cons [of pk1] unfolding returns_def by blast
    show ?thesis
      using 1 2 Some wrote_trans [of pk pk1 "(Suc (Suc (k + 2 * length is)), 0)" "(k + 2 * length is, 0)" pk2 "(k, 0)"]
      by (cases pk2, cases "rc = 0") (auto simp: returns_def)
  qed
qed

lemma attributes_ok:
  assumes "h5o_ok (e_data e) (e_obj e)"
  shows "step_ok sp (attributes_step e obj_id) (Suc k, 0) (k, 0)"
  unfolding step_ok_def
proof (intro allI)
  fix pk w
  show "\<exists>rc pk' w'. attributes_step e obj_id (pk, w) = Some (rc, pk', w') \<and> sp w' = sp w \<and>
      (rc = 0 \<longrightarrow> wrote pk pk' (Suc k, 0) (k, 0))"
  proof (cases "H5Oget_num_attrs (e_obj e) obj_id")
    case None
    then show ?thesis by (cases pk) (auto simp: attributes_step_def pack_attributes_def)
  next
    case (Some n)
    obtain rc pk1 where 1: "emit (Map n) pk = (rc, pk1)" by (metis surj_pair)
    obtain rc2 pk2 where 2: "pack_attribute_loop (e_data e) (e_obj e) obj_id [0..<n] pk1 = Some (rc2, pk2)"
      "rc2 = 0 \<longrightarrow> wrote pk1 pk2 (k + 2 * n, 0) (k, 0)"
      using attribute_loop_packed [OF assms, of obj_id "[0..<n]" pk1 k] by (auto simp: returns_def)
    show ?thesis
      using 1 2 Some packsD [OF packs_token(1), of n pk pk1 k] wrote_trans [of pk pk1 "(Suc k, 0)" "(k + 2 * n, 0)" pk2 "(k, 0)"]
      by (cases pk1, cases pk2, cases "rc = 0") (auto simp: attributes_step_def pack_attributes_def)
  qed
qed

lemma slice_ok:
  assumes "env_ok e sp dims cell" "mem_type (e_data e) ds = Some t"
  shows "step_ok sp (pack_dataset_slice e ds (dims ds)) (Suc k, 0) (k, 0)"
proof -
  have m: "0 < max_array_size" "unat max_array_size \<le> 2 ^ 63" by (simp_all add: max_array_size_def)
  have f: "request_fits (H5Tget_size (e_data e) t) (nat (int (length (dims ds)))) (nat 1) (map (\<lambda>_. 0) (dims ds)) (dims ds)"
    using assms by (simp add: env_ok_def)
  have ok: "h5d_ok (e_lib e) (e_data e) sp dims cell" using assms(1) by (simp add: env_ok_def)
  show ?thesis
    unfolding step_ok_def
  proof (intro allI)
    fix pk w
    obtain rc pk' w' where "pack_dataset_slice e ds (dims ds) (pk, w) = Some (rc, pk', w')" "sp w' = sp w"
      "rc = 0 \<longrightarrow> (\<exists>shape nbytes bytes. array_result t max_array_size shape nbytes bytes pk pk')"
      using slices_packed [OF ok assms(2) f m, of "e_debug e" "e_malloc e" "e_buffer_size e" pk w]
      unfolding pack_dataset_slice_def by fastforce
    then show "\<exists>rc pk' w'. pack_dataset_slice e ds (dims ds) (pk, w) = Some (rc, pk', w') \<and> sp w' = sp w \<and>
        (rc = 0 \<longrightarrow> wrote pk pk' (Suc k, 0) (k, 0))"
      using wrote_frame [of pk _ 1 0 0 0 k] by (fastforce simp: array_result_def)
  qed
qed

lemma packs_cong: "packs a x y \<Longrightarrow> x = x' \<Longrightarrow> y = y' \<Longrightarrow> packs a x' y'"
  by simp

lemma type_and_shape:
  "packs (checked (pack_str ''type'' @ [pack_numpy_type t None] @ pack_str ''kind'' @ [pack_numpy_kind t] @ pack_shape dims))
     (Suc (Suc (Suc (Suc (Suc (Suc k))))), 0) (k, 0)"
proof -
  have "packs (checked (pack_str ''type'' @ pack_numpy_type t None # pack_str ''kind'' @ pack_numpy_kind t # pack_shape dims @ []))
     (Suc (Suc (Suc (Suc (Suc (Suc k))))), 0) (k, 0)"
    by (intro packs_shape packs_steps packs_quiet_cons [OF numpy_type_object] packs_quiet_cons [OF numpy_kind_object]
        strict_str strict_shape)
  then show ?thesis by (simp del: checked.simps)
qed

lemma dataset_steps_ok:
  assumes "env_ok e sp dims cell" "mem_type (e_data e) ds = Some t"
  shows "step_ok sp (checked_steps (dataset_steps e ds t (dims ds) with_data)) (Suc k, 0) (k, 0)"
proof -
  let ?c = "(if with_data then 2 else 0) + k"
  have keys: "packs (checked (pack_str ''hdf5_object'' @ pack_str ''dataset'' @ pack_str ''attributes''))
      (Suc (Suc (Suc m)), 0) (m, 0)" for m
    by (intro packs_str_append packs_str)
  have head: "packs (checked (emit (Map (if with_data then 6 else 5)) # pack_str ''hdf5_object'' @ pack_str ''dataset'' @ pack_str ''attributes''))
      (Suc k, 0) (Suc (Suc (Suc (Suc (Suc (Suc (Suc ?c)))))), 0)"
    by (rule packs_map_token, rule packs_cong [OF keys _ refl]) simp
  have "step_ok sp (checked_steps (if with_data then map lift (pack_str ''data'') @ [pack_dataset_slice e ds (dims ds)] else []))
      (?c, 0) (k, 0)"
    using steps_lift [OF packs_str steps_one [OF slice_ok [OF assms]], of "''data''" k] steps_nil [of sp "(k, 0)"]
    by (simp del: checked_steps.simps)
  note tail = steps_lift [OF type_and_shape this]
  have "h5o_ok (e_data e) (e_obj e)" using assms(1) by (simp add: env_ok_def)
  from steps_lift [OF head steps_cons [OF attributes_ok [OF this] tail]]
  show ?thesis unfolding dataset_steps_def append_Cons append_Nil .
qed

lemma dataset_ok:
  assumes e: "env_ok e sp dims cell"
  shows "step_ok sp (pack_dataset e ds) (Suc k, 0) (k, 0)"
  unfolding step_ok_def
proof (intro allI)
  fix pk w
  have ok: "h5d_ok (e_lib e) (e_data e) sp dims cell" using e by (simp add: env_ok_def)
  obtain r w1 where s: "H5Dget_space (e_data e) ds w = (r, w1)" by (metis surj_pair)
  note sp1 = h5d_space [OF ok s]
  show "\<exists>rc pk' w'. pack_dataset e ds (pk, w) = Some (rc, pk', w') \<and> sp w' = sp w \<and>
      (rc = 0 \<longrightarrow> wrote pk pk' (Suc k, 0) (k, 0))"
  proof (cases "r < 0")
    case True
    then show ?thesis using s sp1(1) by (cases pk) (simp add: pack_dataset_def)
  next
    case False
    then have opened: "sp w r = None" "sp w1 = (sp w)(r \<mapsto> extent_points (dims ds))" using sp1(1) by auto
    have closed: "sp (H5Sclose (e_lib e) r w2) = sp w" if "sp w2 = sp w1" for w2
      using h5s_close [OF h5d_h5s [OF ok], of w2 r] that opened by (auto simp: fun_eq_iff)
    consider "pack_dataset e ds (pk, w) = Some (-1, pk, H5Sclose (e_lib e) r w1)"
      | t b where "mem_type (e_data e) ds = Some t"
        "pack_dataset e ds (pk, w) = map_option (\<lambda>(rc, pk, w). (rc, pk, H5Sclose (e_lib e) r w))
           (checked_steps (dataset_steps e ds t (dims ds) b) (pk, w1))"
      using s False sp1(2) by (fastforce simp: pack_dataset_def Let_def split: option.splits if_splits)
    then show ?thesis
    proof cases
      case 1
      then show ?thesis using closed by (cases pk) auto
    next
      case (2 t b)
      from dataset_steps_ok [OF e 2(1), of b k] obtain rc pk' w' where
        "checked_steps (dataset_steps e ds t (dims ds) b) (pk, w1) = Some (rc, pk', w')" "sp w' = sp w1"
        "rc = 0 \<longrightarrow> wrote pk pk' (Suc k, 0) (k, 0)"
        by (rule step_okE)
      then show ?thesis using 2(2) closed by (cases pk') auto
    qed
  qed
qed

lemma unknown_packs: "packs pack_unknown (Suc k, 0) (k, 0)"
proof -
  have "packs (checked (pack_str ''hdf5_object'' @ pack_str ''unknown'')) (Suc (Suc k), 0) (k, 0)"
    by (intro packs_str_append packs_str)
  then show ?thesis unfolding pack_unknown_def by (intro packs_map_token) simp
qed

lemma soft_link_packs: "packs (pack_soft_link ob obj_id name) (Suc k, 0) (k, 0)"
proof -
  have "packs (checked (emit (Map 2) # pack_str ''hdf5_object'' @ pack_str ''soft_link'' @ pack_str ''target'' @ pack_str x))
      (Suc k, 0) (k, 0)" for x
    by (rule packs_map_token, rule packs_cong [of _ "(Suc (Suc (Suc (Suc k))), 0)" "(k, 0)"], intro packs_str_append packs_str) simp_all
  then show ?thesis by (auto simp: packs_def pack_soft_link_def split: option.splits)
qed

lemma link_ok:
  assumes "\<And>name k. step_ok sp (member name) (Suc k, 0) (k, 0)"
  shows "step_ok sp (visit_link member e obj_id encode l) (Suc (Suc k), 0) (k, 0)"
proof -
  obtain name link where l: "l = (name, link)" by (cases l)
  have "step_ok sp (\<lambda>s. Some (-1, s)) (Suc k, 0) (k, 0)" by (simp add: step_ok_def)
  then have "step_ok sp (checked_steps (if encode then
            (case link of
               Hard \<Rightarrow> [member name]
             | External \<Rightarrow> [member name]
             | Soft \<Rightarrow> [lift (pack_soft_link (e_obj e) obj_id name)]
             | Link_error \<Rightarrow> [\<lambda>s. Some (-1, s)]
             | User_defined \<Rightarrow> [lift pack_unknown])
          else [lift (emit Nil_tok)])) (Suc k, 0) (k, 0)"
    using steps_one [OF assms] steps_one [OF step_lift [OF soft_link_packs]] steps_one [OF step_lift [OF unknown_packs]]
      steps_one [OF step_lift [OF packs_token(7)]] steps_one
    by (auto split: link_type.split simp del: checked_steps.simps)
  then have "step_ok sp (checked_steps (map lift (pack_str name) @ (if encode then
            (case link of
               Hard \<Rightarrow> [member name]
             | External \<Rightarrow> [member name]
             | Soft \<Rightarrow> [lift (pack_soft_link (e_obj e) obj_id name)]
             | Link_error \<Rightarrow> [\<lambda>s. Some (-1, s)]
             | User_defined \<Rightarrow> [lift pack_unknown])
          else [lift (emit Nil_tok)]))) (Suc (Suc k), 0) (k, 0)"
    by (rule steps_lift [OF packs_str])
  then show ?thesis by (simp add: step_ok_def visit_link_def l)
qed

lemma links_ok:
  assumes "\<And>l k. step_ok sp (callback l) (Suc (Suc k), 0) (k, 0)"
  shows "step_ok sp (H5Literate2 callback links result) (k + 2 * length links, 0) (k, 0)"
proof (induction links)
  case Nil
  then show ?case by (simp add: step_ok_def)
next
  case (Cons l links)
  let ?k = "k + 2 * length links"
  show ?case
    unfolding step_ok_def
  proof (intro allI)
    fix pk w
    obtain rc pk1 w1 where 1: "callback l (pk, w) = Some (rc, pk1, w1)" "sp w1 = sp w"
      "rc = 0 \<longrightarrow> wrote pk pk1 (Suc (Suc ?k), 0) (?k, 0)"
      using assms by (rule step_okE)
    obtain rc2 pk2 w2 where 2: "H5Literate2 callback links result (pk1, w1) = Some (rc2, pk2, w2)" "sp w2 = sp w1"
      "rc2 = 0 \<longrightarrow> wrote pk1 pk2 (?k, 0) (k, 0)"
      using Cons.IH by (rule step_okE)
    then show "\<exists>rc pk' w'. H5Literate2 callback (l # links) result (pk, w) = Some (rc, pk', w') \<and> sp w' = sp w \<and>
        (rc = 0 \<longrightarrow> wrote pk pk' (k + 2 * length (l # links), 0) (k, 0))"
      using 1 wrote_trans [of pk pk1 "(Suc (Suc ?k), 0)" "(?k, 0)" pk2 "(k, 0)"] by (cases "rc = 0") auto
  qed
qed

lemma literate_result: "H5Literate2 callback links result s = Some (0, s') \<Longrightarrow> result = 0"
  by (induction links arbitrary: s) (auto simp: bind_eq_Some_conv split: if_splits)

lemma group_ok:
  assumes ob: "h5o_ok (e_data e) (e_obj e)"
    and "\<And>name k. step_ok sp (member name) (Suc k, 0) (k, 0)"
  shows "step_ok sp (pack_group_recursive member e obj_id depth) (Suc k, 0) (k, 0)"
proof (cases "H5Gget_nlinks (e_obj e) obj_id")
  case None
  then show ?thesis by (simp add: step_ok_def pack_group_recursive_def)
next
  case (Some n)
  have links: "step_ok sp (H5Literate2 (visit_link member e obj_id b) (H5Literate_links (e_obj e) obj_id)
      (H5Literate_result (e_obj e) obj_id)) (k + 2 * n, 0) (k, 0)" for b
    unfolding step_ok_def
  proof (intro allI)
    fix pk w
    let ?ls = "H5Literate_links (e_obj e) obj_id" and ?result = "H5Literate_result (e_obj e) obj_id"
    obtain rc pk1 w1 where 1: "H5Literate2 (visit_link member e obj_id b) ?ls ?result (pk, w) = Some (rc, pk1, w1)"
      "sp w1 = sp w" "rc = 0 \<longrightarrow> wrote pk pk1 (k + 2 * length ?ls, 0) (k, 0)"
      using links_ok [OF link_ok, OF assms(2)] by (rule step_okE)
    moreover have "rc = 0 \<longrightarrow> length ?ls = n"
      using ob Some literate_result [of "visit_link member e obj_id b" ?ls ?result "(pk, w)"] 1(1) by (auto simp: h5o_ok_def)
    ultimately show "\<exists>rc pk' w'. H5Literate2 (visit_link member e obj_id b) ?ls ?result (pk, w) = Some (rc, pk', w') \<and>
        sp w' = sp w \<and> (rc = 0 \<longrightarrow> wrote pk pk' (k + 2 * n, 0) (k, 0))"
      by auto
  qed
  have keys: "packs (checked (pack_str ''hdf5_object'' @ pack_str ''group'' @ pack_str ''attributes'')) (Suc (Suc (Suc m)), 0) (m, 0)" for m
    by (intro packs_str_append packs_str)
  have head: "packs (checked (emit (Map 3) # pack_str ''hdf5_object'' @ pack_str ''group'' @ pack_str ''attributes''))
      (Suc k, 0) (Suc (Suc (Suc k)), 0)"
    by (rule packs_map_token, rule packs_cong [OF keys _ refl]) simp
  have members: "packs (checked (pack_str ''members'' @ [emit (Map n)])) (Suc (Suc k), 0) (k + 2 * n, 0)"
    by (intro packs_str_append packs_map_token packs_nil)
  note all = steps_lift [OF head steps_cons [OF attributes_ok [OF ob] steps_lift [OF members steps_one [OF links]]]]
  show ?thesis
    using all Some by (simp add: step_ok_def pack_group_recursive_def del: checked_steps.simps)
qed

lemma object_ok:
  assumes e: "env_ok e sp dims cell"
  shows "step_ok sp (pack_object_recursive e loc_id name depth) (Suc k, 0) (k, 0)"
proof (induction "nat (e_max_depth e + 1 - depth)" arbitrary: loc_id name depth k rule: less_induct)
  case less
  have ob: "h5o_ok (e_data e) (e_obj e)" using e by (simp add: env_ok_def)
  show ?case
  proof (cases "H5Oopen (e_obj e) loc_id name")
    case None
    then show ?thesis by (simp add: step_ok_def pack_object_recursive.simps)
  next
    case (Some obj)
    have "step_ok sp (checked_steps [pack_group_recursive (\<lambda>name. pack_object_recursive e obj name (depth + 1)) e obj depth]) (Suc k, 0) (k, 0)" if "\<not> depth > e_max_depth e"
      by (intro steps_one group_ok [OF ob] less) (use that in simp)
    moreover note steps_one [OF step_lift [OF packs_token(7)], of sp k] steps_one [OF dataset_ok [OF e], of obj k]
      steps_one [OF step_lift [OF unknown_packs], of sp k]
    ultimately show ?thesis
      using Some by (cases "H5Iget_type (e_obj e) obj") (auto simp: step_ok_def pack_object_recursive.simps simp del: checked_steps.simps)
  qed
qed

end
