(* ===== verification/PackProperties.thy ===== *)
theory PackProperties
  imports PackObject
begin

text \<open>
  The properties of the packers, with a small library in memory on which they are evaluated: its
  datasets all have the same dimensions and the element at a point is computed from the point.
\<close>

section \<open>A library in memory\<close>












section \<open>The slices of a dataset\<close>












section \<open>A whole object\<close>







section \<open>Requests that do not fit\<close>

text \<open>
  A request whose number of bytes in a row of the first dimension wraps around to zero makes the
  code divide by zero, before the slices are checked against the dataset.
\<close>

lemma wrapped_row_divides_by_zero:
  assumes "mem_type d dataset_id = Some t" "detect_vlen_types t = 0" "H5Tget_size d t = 8"
    and "H5Dget_space d dataset_id w = (fs, w')" "0 \<le> fs"
  shows "pack_dataset_multi_slice_with_max_size lib d debug malloc_ok dataset_id 2 1 [0, 0] [1, 0x2000000000000000]
      buffer_size max_size pk w = None"
proof -
  have "row_elements (nat 2) [1, 0x2000000000000000] = 0x2000000000000000"
    "(0x2000000000000000 :: hsize) * 8 = 0" "(0 :: hsize) < 0x2000000000000000"
    by code_simp+
  then show ?thesis using assms by (simp add: pack_dataset_multi_slice_with_max_size_def del: nat_numeral)
qed

lemma no_bytes_no_bins: "nr_bins_needed 3 0 = Some 0"
  by code_simp

end
