(* ===== verification/Delivery.thy ===== *)
theory Delivery
  imports Service PackProperties
begin

text \<open>
  The answer to a request, from the call of the client to the bytes it receives: do_read_dataset()
  and do_read_object() of src/src/reader/hdfstream_reader.c from the call of the packer on, composed
  with both sides of the request (theory Service), the packers (PackDataset, PackObject) and the
  stream (Streams).

  enc is the encoding of the msgpack library: the bytes that it hands to msgpack_chunkbuffer_write()
  for one token.  A packer that starts with b writes that succeed and ends with some of them left
  has met no failing write; that is the case of a stream that was not cancelled.
\<close>

section \<open>Operations\<close>



section \<open>What the client receives\<close>








section \<open>Properties\<close>





section \<open>Examples\<close>









end
