(* ===== verification/ReaderData.thy ===== *)
theory ReaderData
  imports Service NumpyType
begin

text \<open>
  The start and the end of a reader process, seen from both sides: the shared memory files of
  src/src/util/shared_memory.c, the callbacks of src/src/lib/reader_data.c, the command line made by
  src/src/lib/hdfstream.c, and the beginning of main() in src/src/reader/hdfstream_reader.c.

  The state of the operating system, as one process sees it, is the record sm_os: the shared
  memory files by name, which all processes share, and the open descriptors and the mapped regions
  of the process.  All three refer to memory objects, whose sizes and headers are kept as well; the
  contents of the buffers are part of theory ChunkBuffer.  What the calls shm_open(), ftruncate(),
  mmap() and malloc() answer are arguments.
\<close>

section \<open>Shared memory files\<close>

record sm_os =
  sm_files :: "string \<rightharpoonup> nat"
  sm_fds :: "nat \<rightharpoonup> nat"
  sm_maps :: "nat \<rightharpoonup> nat"
  sm_length :: "nat \<Rightarrow> nat"
  sm_header :: "nat \<Rightarrow> shared_reader_data"

record shared_memory =
  sm_size :: nat
  sm_data :: nat
  sm_fd :: nat
  sm_name :: string

text \<open>
  The system calls.  A successful shm_open() returns the descriptor, and with O_CREAT | O_EXCL a new
  object; it fails when the name is taken, and without O_CREAT when there is no such name.  A
  successful mmap() returns the address.
\<close>

definition shm_create :: "string \<Rightarrow> (nat \<times> nat) option \<Rightarrow> sm_os \<Rightarrow> nat option \<times> sm_os" where
  "shm_create name answer os =
     (case answer of
        None \<Rightarrow> (None, os)
      | Some (fd, ob) \<Rightarrow>
          if sm_files os name \<noteq> None then (None, os)
          else (Some fd, os\<lparr>sm_files := (sm_files os)(name \<mapsto> ob), sm_fds := (sm_fds os)(fd \<mapsto> ob)\<rparr>))"

definition shm_open :: "string \<Rightarrow> nat option \<Rightarrow> sm_os \<Rightarrow> nat option \<times> sm_os" where
  "shm_open name answer os =
     (case (answer, sm_files os name) of
        (Some fd, Some ob) \<Rightarrow> (Some fd, os\<lparr>sm_fds := (sm_fds os)(fd \<mapsto> ob)\<rparr>)
      | _ \<Rightarrow> (None, os))"

definition shm_unlink :: "string \<Rightarrow> sm_os \<Rightarrow> int \<times> sm_os" where
  "shm_unlink name os = (if sm_files os name = None then -1 else 0, os\<lparr>sm_files := (sm_files os)(name := None)\<rparr>)"

definition ftruncate :: "nat \<Rightarrow> nat \<Rightarrow> bool \<Rightarrow> sm_os \<Rightarrow> int \<times> sm_os" where
  "ftruncate fd len answer os =
     (if answer then (0, os\<lparr>sm_length := (sm_length os)(the (sm_fds os fd) := len)\<rparr>) else (-1, os))"

definition mmap :: "nat \<Rightarrow> nat option \<Rightarrow> sm_os \<Rightarrow> nat option \<times> sm_os" where
  "mmap fd answer os =
     (case answer of
        None \<Rightarrow> (None, os)
      | Some data \<Rightarrow> (Some data, os\<lparr>sm_maps := (sm_maps os)(data := sm_fds os fd)\<rparr>))"

definition munmap :: "nat \<Rightarrow> sm_os \<Rightarrow> sm_os" where
  "munmap data os = os\<lparr>sm_maps := (sm_maps os)(data := None)\<rparr>"

definition close_fd :: "nat \<Rightarrow> sm_os \<Rightarrow> sm_os" where
  "close_fd fd os = os\<lparr>sm_fds := (sm_fds os)(fd := None)\<rparr>"

record sm_answers =
  sa_create :: "(nat \<times> nat) option"
  sa_truncate :: bool
  sa_mmap :: "nat option"

definition shared_memory_new :: "string \<Rightarrow> nat \<Rightarrow> sm_answers \<Rightarrow> sm_os \<Rightarrow> shared_memory option \<times> sm_os" where
  "shared_memory_new name len sa os =
     (case shm_create name (sa_create sa) os of
        (None, os) \<Rightarrow> (None, os)
      | (Some fd, os) \<Rightarrow>
     (case ftruncate fd len (sa_truncate sa) os of (err, os) \<Rightarrow>
        if err < 0 then (None, close_fd fd (snd (shm_unlink name os)))
        else
     (case mmap fd (sa_mmap sa) os of
        (None, os) \<Rightarrow> (None, close_fd fd (snd (shm_unlink name os)))
      | (Some data, os) \<Rightarrow> (Some \<lparr>sm_size = len, sm_data = data, sm_fd = fd, sm_name = name\<rparr>, os))))"

definition shared_memory_map :: "string \<Rightarrow> nat \<Rightarrow> nat option \<Rightarrow> nat option \<Rightarrow> sm_os \<Rightarrow> shared_memory option \<times> sm_os" where
  "shared_memory_map name len opened mapped os =
     (case shm_open name opened os of
        (None, os) \<Rightarrow> (None, os)
      | (Some fd, os) \<Rightarrow>
     (case mmap fd mapped os of
        (None, os) \<Rightarrow> (None, close_fd fd os)
      | (Some data, os) \<Rightarrow> (Some \<lparr>sm_size = len, sm_data = data, sm_fd = fd, sm_name = name\<rparr>, os)))"

definition shared_memory_unlink :: "shared_memory \<Rightarrow> sm_os \<Rightarrow> int \<times> sm_os" where
  "shared_memory_unlink sm os = shm_unlink (sm_name sm) os"

definition shared_memory_unmap :: "shared_memory \<Rightarrow> sm_os \<Rightarrow> sm_os" where
  "shared_memory_unmap sm os = close_fd (sm_fd sm) (munmap (sm_data sm) os)"

section \<open>The parent\<close>

record hdfstream =
  hs_max_open_files :: int
  hs_max_open_datasets :: int
  hs_executable :: string

text \<open>hdfstream_new_with_executable() up to the start of the pool, with the arguments of the reader.\<close>

definition hdfstream_new_with_executable :: "string \<Rightarrow> string option \<Rightarrow> int \<Rightarrow> int \<Rightarrow> int \<Rightarrow> int \<Rightarrow> hdfstream \<times> string list" where
  "hdfstream_new_with_executable default_executable executable max_open_files max_open_datasets check_interval expiry_interval =
     (let hs = \<lparr>hs_max_open_files = max_open_files, hs_max_open_datasets = max_open_datasets,
                hs_executable = (case executable of Some e \<Rightarrow> e | None \<Rightarrow> default_executable)\<rparr>
      in (hs, [hs_executable hs, show_int max_open_files, show_int max_open_datasets, show_int check_interval,
               show_int expiry_interval]))"

record reader_data =
  rd_file_cache :: "file_cache option"
  rd_sm :: "shared_memory option"

definition MAX_SM_NAME_LENGTH :: nat where "MAX_SM_NAME_LENGTH = 1024"

definition region_name :: "int \<Rightarrow> int \<Rightarrow> string" where
  "region_name parent_pid child_pid =
     snprintf MAX_SM_NAME_LENGTH (''/hdfstream_'' @ show_int parent_pid @ ''_'' @ show_int child_pid)"

definition worker_default_init :: "int \<Rightarrow> read_answer list \<Rightarrow> worker_process \<Rightarrow> byte list \<Rightarrow>
    (worker_process \<times> int \<times> byte list \<times> read_answer list) option" where
  "worker_default_init st rs wp reply = do {
     (wp, rc, dummy, reply, rs) \<leftarrow> worker_process_recv st rs wp reply 4;
     Some (wp, if rc < 0 then -1 else 0, reply, rs) }"

text \<open>The shared memory region of a reader: created, and its header written.\<close>

definition reader_region :: "nat \<Rightarrow> nat \<Rightarrow> string \<Rightarrow> sm_answers \<Rightarrow> sm_os \<Rightarrow> shared_memory option \<times> sm_os" where
  "reader_region sizeof_srd buffer_size name sa os =
     (case shared_memory_new name (shared_data_size sizeof_srd buffer_size) sa os of
        (None, os) \<Rightarrow> (None, os)
      | (Some sm, os) \<Rightarrow>
          let ob = the (sm_maps os (sm_data sm))
          in (Some sm, os\<lparr>sm_header := (sm_header os)(ob := shared_data_populate sizeof_srd buffer_size (sm_header os ob))\<rparr>))"

definition region_messages :: "shared_memory \<Rightarrow> byte list list" where
  "region_messages sm = [size_bytes (sm_size sm), size_bytes (length (sm_name sm) + 1), string_bytes (sm_name sm)]"

text \<open>
  The callback for a new process.  reply is what the process writes.  The result has the worker, its
  reader_data (None while worker->data is NULL), the return code and what was sent.
\<close>

definition reader_init ::
  "nat \<Rightarrow> nat \<Rightarrow> hdfstream \<Rightarrow> int \<Rightarrow> int \<Rightarrow> write_answer list \<Rightarrow> read_answer list \<Rightarrow> byte list \<Rightarrow> bool \<Rightarrow> sm_answers \<Rightarrow>
     sm_os \<Rightarrow> worker_process \<Rightarrow> (worker_process \<times> reader_data option \<times> int \<times> byte list \<times> sm_os) option" where
  "reader_init sizeof_srd buffer_size hs parent_pid st ws rs reply malloc_ok sa os wp = do {
     (wp, rc, reply, rs) \<leftarrow> worker_default_init st rs wp reply;
     (if rc \<noteq> 0 then Some (wp, None, -1, [], os)
      else if \<not> malloc_ok then Some (wp, None, -1, [], os)
      else (case reader_region sizeof_srd buffer_size (region_name parent_pid (wp_pid wp)) sa os of
        (None, os) \<Rightarrow> Some (wp, Some \<lparr>rd_file_cache = None, rd_sm = None\<rparr>, -1, [], os)
      | (Some sm, os) \<Rightarrow> do {
          let failed = (\<lambda>wp out. Some (wp, Some \<lparr>rd_file_cache = None, rd_sm = Some sm\<rparr>, -1, out, snd (shared_memory_unlink sm os)));
          (wp, rc, out, ws) \<leftarrow> send_messages st ws wp (region_messages sm);
          (if rc \<noteq> 0 then failed wp out
           else do {
             (wp, rc, inp, reply, rs) \<leftarrow> worker_process_recv st rs wp reply 4;
             (if rc \<noteq> 0 then failed wp out
              else if bytes_int inp \<noteq> 0 then failed wp out
              else Some (wp, Some \<lparr>rd_file_cache = Some (file_cache_new (hs_max_open_files hs) (hs_max_open_datasets hs)),
                                   rd_sm = Some sm\<rparr>, 0, out, snd (shared_memory_unlink sm os))) }) })) }"

text \<open>The callback for the end of a process; shared_data_free() only destroys the semaphores.\<close>

definition reader_shutdown :: "reader_data option \<Rightarrow> sm_os \<Rightarrow> sm_os option" where
  "reader_shutdown rd os =
     (case rd of
        None \<Rightarrow> Some os
      | Some rd \<Rightarrow> do {
          let os = (case rd_sm rd of None \<Rightarrow> os | Some sm \<Rightarrow> shared_memory_unmap sm os);
          (case rd_file_cache rd of
             None \<Rightarrow> Some os
           | Some fc \<Rightarrow> do { calls \<leftarrow> file_cache_free True fc; Some os }) })"

section \<open>The reader\<close>

definition is_digit :: "char \<Rightarrow> bool" where
  "is_digit c \<longleftrightarrow> 48 \<le> (of_char c :: nat) \<and> (of_char c :: nat) \<le> 57"

definition is_space :: "char \<Rightarrow> bool" where
  "is_space c \<longleftrightarrow> (of_char c :: nat) \<in> {9, 10, 11, 12, 13, 32}"

definition atoi :: "string \<Rightarrow> int" where
  "atoi s =
     (let digits = (\<lambda>s. int (read_nat (takeWhile is_digit s)))
      in case dropWhile is_space s of
           [] \<Rightarrow> 0
         | c # cs \<Rightarrow> if c = CHR ''-'' then - digits cs else if c = CHR ''+'' then digits cs else digits (c # cs))"

definition worker_init :: "write_answer list \<Rightarrow> (int \<times> byte list \<times> write_answer list) option" where
  "worker_init ws = worker_send ws (int_bytes 1)"

datatype start_result =
    Exit_status int
  | Running file_cache int int shared_memory "byte list" sm_os input

text \<open>
  The start of main(), up to the command loop: the cache, the two intervals of the command loop, the
  shared memory, what was sent to the parent and the input that follows.  None stands for a value
  that is used without having been received, or for the assertion that the region is mapped.
\<close>

definition reader_start :: "string list \<Rightarrow> write_answer list \<Rightarrow> nat option \<Rightarrow> nat option \<Rightarrow> sm_os \<Rightarrow> input \<Rightarrow> start_result option" where
  "reader_start argv ws opened mapped os inp =
     (if \<not> main_arguments (int (length argv)) (atoi (argv ! 1)) (atoi (argv ! 2)) (atoi (argv ! 3)) (atoi (argv ! 4))
      then Some (Exit_status 1)
      else do {
        (_, out1, ws) \<leftarrow> worker_init ws;
        let fc = file_cache_new (atoi (argv ! 1)) (atoi (argv ! 2));
        (total_size, inp) \<leftarrow> recv 8 inp;
        (name, inp) \<leftarrow> recv_name inp;
        (case shared_memory_map name (bytes_size total_size) opened mapped os of
           (None, os) \<Rightarrow> None
         | (Some sm, os) \<Rightarrow> do {
             (_, out2, ws) \<leftarrow> worker_send ws (int_bytes 0);
             Some (Running fc (atoi (argv ! 3)) (atoi (argv ! 4)) sm (out1 @ out2) os inp) }) })"

text \<open>The end of main(), after the command to exit; the result is the exit status 0.\<close>

definition reader_stop :: "file_cache \<Rightarrow> shared_memory \<Rightarrow> sm_os \<Rightarrow> (int \<times> h5_call list \<times> sm_os) option" where
  "reader_stop fc sm os = do {
     calls \<leftarrow> file_cache_free False fc;
     Some (0, calls, shared_memory_unmap sm os) }"

section \<open>Numbers on the command line\<close>

lemma show_nat_digits: "list_all is_digit (show_nat n)"
proof (induction n rule: show_nat.induct)
  case (1 n)
  have "n mod 10 \<le> 9" by arith
  then show ?case using 1 by (simp add: show_nat.simps [of n] is_digit_def)
qed

lemma takeWhile_digits: "list_all is_digit s \<Longrightarrow> takeWhile is_digit s = s"
  by (simp add: list_all_iff takeWhile_eq_all_conv)

lemma show_nat_Cons: obtains c cs where "show_nat n = c # cs" "is_digit c"
proof -
  have "show_nat n \<noteq> []" by (simp add: show_nat.simps [of n])
  then obtain c cs where "show_nat n = c # cs" by (cases "show_nat n") auto
  then show thesis using that show_nat_digits [of n] by simp
qed

lemma digit_char: "is_digit c \<Longrightarrow> \<not> is_space c \<and> c \<noteq> CHR ''-'' \<and> c \<noteq> CHR ''+''"
  by (auto simp: is_digit_def is_space_def)

lemma atoi_show_int: "atoi (show_int i) = i"
proof (cases "i < 0")
  case True
  have "\<not> is_space (CHR ''-'')" by (simp add: is_space_def)
  then show ?thesis using True by (simp add: atoi_def show_int_def takeWhile_digits show_nat_digits read_show_nat)
next
  case False
  obtain c cs where c: "show_nat (nat i) = c # cs" "is_digit c" by (rule show_nat_Cons)
  then have "takeWhile is_digit (c # cs) = show_nat (nat i)" using takeWhile_digits [OF show_nat_digits] by metis
  then have "read_nat (takeWhile is_digit (c # cs)) = nat i" by (simp only: read_show_nat)
  then show ?thesis using False c digit_char [OF c(2)] by (simp add: atoi_def show_int_def)
qed

lemma digits_no_zero: "list_all is_digit s \<Longrightarrow> CHR 0x00 \<notin> set s"
  by (auto simp: list_all_iff is_digit_def)

lemma region_name_c_string: "c_string (region_name p c)"
proof -
  have "CHR 0x00 \<notin> set (show_int i)" for i
    using digits_no_zero [OF show_nat_digits] by (simp add: show_int_def)
  then show ?thesis
    by (auto simp: c_string_def region_name_def snprintf_def MAX_SM_NAME_LENGTH_def dest!: in_set_takeD)
qed

section \<open>The state of the system\<close>

text \<open>The system answers with descriptors, addresses and objects that are not in use.\<close>

definition unused :: "sm_answers \<Rightarrow> sm_os \<Rightarrow> bool" where
  "unused sa os \<longleftrightarrow>
     (\<forall>fd ob. sa_create sa = Some (fd, ob) \<longrightarrow> sm_fds os fd = None) \<and>
     (\<forall>data. sa_mmap sa = Some data \<longrightarrow> sm_maps os data = None)"

abbreviation same_memory :: "sm_os \<Rightarrow> sm_os \<Rightarrow> bool" where
  "same_memory os os' \<equiv> sm_files os' = sm_files os \<and> sm_fds os' = sm_fds os \<and> sm_maps os' = sm_maps os"

text \<open>The region sm is mapped to the object ob, and is what os has more than os0.\<close>

definition holds_region :: "sm_os \<Rightarrow> sm_os \<Rightarrow> shared_memory \<Rightarrow> nat \<Rightarrow> bool" where
  "holds_region os0 os sm ob \<longleftrightarrow>
     sm_fds os0 (sm_fd sm) = None \<and> sm_fds os = (sm_fds os0)(sm_fd sm \<mapsto> ob) \<and>
     sm_maps os0 (sm_data sm) = None \<and> sm_maps os = (sm_maps os0)(sm_data sm \<mapsto> ob)"

lemma upd_None: "f x = None \<Longrightarrow> f(x := None) = f"
  by auto

lemma unmap_region: "holds_region os0 os sm ob \<Longrightarrow> sm_files os = sm_files os0 \<Longrightarrow> same_memory os0 (shared_memory_unmap sm os)"
  by (simp add: holds_region_def shared_memory_unmap_def munmap_def close_fd_def upd_None)

lemma region_cases:
  assumes "reader_region sizeof_srd buffer_size name sa os = (r, os')" "unused sa os"
  obtains (failed) "r = None" "same_memory os os'"
  | (created) sm ob where "r = Some sm" "sm_name sm = name" "sm_size sm = shared_data_size sizeof_srd buffer_size"
      "sm_files os name = None" "sm_files os' = (sm_files os)(name \<mapsto> ob)" "holds_region os os' sm ob"
      "sm_length os' ob = sm_size sm" "sm_header os' ob = shared_data_populate sizeof_srd buffer_size (sm_header os ob)"
proof (cases "sa_create sa")
  case None
  then show thesis using assms failed by (simp add: reader_region_def shared_memory_new_def shm_create_def)
next
  case (Some a)
  obtain fd ob where a: "sa_create sa = Some (fd, ob)" using Some by (cases a) simp
  have fd: "sm_fds os fd = None" using assms(2) a by (simp add: unused_def)
  show thesis
  proof (cases "sm_files os name")
    case None
    show thesis
    proof (cases "\<exists>data. sa_truncate sa \<and> sa_mmap sa = Some data")
      case True
      then obtain data where d: "sa_truncate sa" "sa_mmap sa = Some data" by blast
      have "sm_maps os data = None" using assms(2) d by (simp add: unused_def)
      then show thesis
        using assms(1) a d fd None
        by (intro created [of "\<lparr>sm_size = shared_data_size sizeof_srd buffer_size, sm_data = data, sm_fd = fd, sm_name = name\<rparr>" ob])
          (auto simp: reader_region_def shared_memory_new_def shm_create_def ftruncate_def mmap_def holds_region_def)
    next
      case False
      then show thesis
        using assms(1) a fd None
        by (intro failed) (auto simp: reader_region_def shared_memory_new_def shm_create_def ftruncate_def mmap_def
            close_fd_def shm_unlink_def upd_None split: if_splits option.splits)
    qed
  next
    case taken: Some
    then show thesis using assms(1) a failed by (simp add: reader_region_def shared_memory_new_def shm_create_def)
  qed
qed

lemma new_cache_free: "file_cache_free True (file_cache_new m d) = Some []"
  by (simp add: file_cache_free_def file_cache_new_def evict.simps)

lemma unlinked_region:
  assumes "sm_name sm = name" "sm_files os name = None" "sm_files os1 = (sm_files os)(name \<mapsto> ob)" "holds_region os os1 sm ob"
  shows "sm_files (snd (shared_memory_unlink sm os1)) = sm_files os"
    and "holds_region os (snd (shared_memory_unlink sm os1)) sm ob"
    and "sm_header (snd (shared_memory_unlink sm os1)) = sm_header os1"
    and "sm_length (snd (shared_memory_unlink sm os1)) = sm_length os1"
  using assms by (auto simp: shared_memory_unlink_def shm_unlink_def holds_region_def upd_None)

section \<open>Properties\<close>

text \<open>
  C12. No shared memory is lost, whatever the operating system and the new process answer.  When
  reader_init() returns, the name of the region is gone again, and a region that another process has
  created under the same name is left alone.  After a success the parent holds one more descriptor
  and one more mapping; reader_shutdown() gives back everything, after a success and after every
  failure.
\<close>

theorem reader_memory_released:
  assumes "reader_init sizeof_srd buffer_size hs parent_pid st ws rs reply malloc_ok sa os wp = Some (wp', rd, rc, out, os')"
    and "unused sa os"
  shows "sm_files os' = sm_files os \<and> (rc = 0 \<or> rc = -1) \<and>
    (rc = 0 \<longrightarrow> (\<exists>cache sm ob. rd = Some \<lparr>rd_file_cache = Some cache, rd_sm = Some sm\<rparr> \<and> holds_region os os' sm ob)) \<and>
    (\<exists>os''. reader_shutdown rd os' = Some os'' \<and> same_memory os os'')"
proof -
  obtain wp1 rc1 reply1 rs1 where i: "worker_default_init st rs wp reply = Some (wp1, rc1, reply1, rs1)"
    using assms(1) by (auto simp: reader_init_def bind_eq_Some_conv)
  have early: ?thesis if "rd = None" "rc = -1" "os' = os"
    using that by (simp add: reader_shutdown_def)
  consider "rc1 \<noteq> 0" | "rc1 = 0" "\<not> malloc_ok" | "rc1 = 0" malloc_ok by blast
  then show ?thesis
  proof cases
    case 1
    then show ?thesis using assms(1) i by (intro early) (simp_all add: reader_init_def)
  next
    case 2
    then show ?thesis using assms(1) i by (intro early) (simp_all add: reader_init_def)
  next
    case 3
    let ?name = "region_name parent_pid (wp_pid wp1)"
    obtain r os1 where r: "reader_region sizeof_srd buffer_size ?name sa os = (r, os1)" by fastforce
    from r assms(2) show ?thesis
    proof (cases rule: region_cases)
      case failed
      then show ?thesis using assms(1) i 3 r by (auto simp: reader_init_def reader_shutdown_def)
    next
      case (created sm ob)
      let ?os = "snd (shared_memory_unlink sm os1)"
      note u = unlinked_region [OF created(2,4,5,6)]
      have "os' = ?os" and "rc = -1 \<and> rd = Some \<lparr>rd_file_cache = None, rd_sm = Some sm\<rparr> \<or>
          rc = 0 \<and> (\<exists>m d. rd = Some \<lparr>rd_file_cache = Some (file_cache_new m d), rd_sm = Some sm\<rparr>)"
        using assms(1) i 3 r created(1)
        by (auto simp: reader_init_def bind_eq_Some_conv split: if_splits)
      then show ?thesis using u(1,2) unmap_region [OF u(2,1)]
        by (auto simp: reader_shutdown_def new_cache_free)
    qed
  qed
qed

definition no_memory :: sm_os where
  "no_memory = \<lparr>sm_files = Map.empty, sm_fds = Map.empty, sm_maps = Map.empty, sm_length = (\<lambda>_. 0), sm_header = (\<lambda>_. blank_srd)\<rparr>"

definition sample_answers_sm :: sm_answers where
  "sample_answers_sm = \<lparr>sa_create = Some (3, 7), sa_truncate = True, sa_mmap = Some 4096\<rparr>"

lemma sample_unused: "unused sample_answers_sm no_memory"
  by (simp add: unused_def sample_answers_sm_def no_memory_def)

lemma writes_one: "n \<le> k \<Longrightarrow> writes (replicate k (Written 1)) n"
proof (induction k arbitrary: n)
  case (Suc k)
  then show ?case by (cases n) simp_all
qed simp

lemma reads_one: "n \<le> k \<Longrightarrow> reads (replicate k (Got 1)) n"
proof (induction k arbitrary: n)
  case (Suc k)
  then show ?case by (cases n) simp_all
qed simp

lemma sample_region:
  obtains sm os1 where "reader_region 1000 8 (region_name p c) sample_answers_sm no_memory = (Some sm, os1)"
    "length (concat (region_messages sm)) \<le> 2000"
proof -
  have "length (region_name p c) \<le> 1023" by (simp add: region_name_def snprintf_def MAX_SM_NAME_LENGTH_def)
  then show thesis
    using that by (simp add: reader_region_def shared_memory_new_def shm_create_def ftruncate_def mmap_def sample_answers_sm_def
        no_memory_def region_messages_def)
qed

text \<open>The new process dies before it sends the acknowledgement.\<close>

theorem reader_memory_released_witness:
  "\<exists>wp rd out os os'. reader_init 1000 8 \<lparr>hs_max_open_files = 4, hs_max_open_datasets = 4, hs_executable = ''r''\<rparr> 1 9
      (replicate 2000 (Written 1)) [Got 4, ReadEOF] (int_bytes 1) True sample_answers_sm no_memory sample_worker =
    Some (wp, Some rd, -1, out, os) \<and> rd_sm rd \<noteq> None \<and> sm_files os = Map.empty \<and>
    reader_shutdown (Some rd) os = Some os' \<and> sm_fds os' = Map.empty \<and> sm_maps os' = Map.empty"
proof -
  let ?r = "reader_init 1000 8 \<lparr>hs_max_open_files = 4, hs_max_open_datasets = 4, hs_executable = ''r''\<rparr> 1 9
      (replicate 2000 (Written 1)) [Got 4, ReadEOF] (int_bytes 1) True sample_answers_sm no_memory sample_worker"
  have alive: "\<not> wp_is_dead sample_worker" by (simp add: sample_worker_def)
  obtain sm os1 where region: "reader_region 1000 8 (region_name 1 (wp_pid sample_worker)) sample_answers_sm no_memory = (Some sm, os1)"
    "length (concat (region_messages sm)) \<le> 2000" by (rule sample_region)
  obtain ws' where p: "send_messages 9 (replicate 2000 (Written 1)) sample_worker (region_messages sm) =
      Some (sample_worker, 0, concat (region_messages sm), ws')"
    using send_messages_exact [OF alive, of "replicate 2000 (Written 1)" "region_messages sm" 0] writes_one [OF region(2)] by auto
  have "worker_process_recv 9 [Got 4, ReadEOF] sample_worker (int_bytes 1) 4 = Some (sample_worker, 0, int_bytes 1, [], [ReadEOF])"
    by code_simp
  moreover have "worker_process_recv 9 [ReadEOF] sample_worker [] 4 = Some (sample_worker\<lparr>wp_is_dead := True, wp_exit_status := 9\<rparr>, -1, [], [], [])"
    by code_simp
  ultimately have r: "?r = Some (sample_worker\<lparr>wp_is_dead := True, wp_exit_status := 9\<rparr>,
      Some \<lparr>rd_file_cache = None, rd_sm = Some sm\<rparr>, -1, concat (region_messages sm), snd (shared_memory_unlink sm os1))"
    using p region(1) by (simp add: reader_init_def worker_default_init_def)
  from reader_memory_released [OF r sample_unused] r show ?thesis by (auto simp: no_memory_def)
qed

lemma reader_maps_region:
  assumes limits: "1 \<le> max_open_files" "1 \<le> max_open_datasets" "0 \<le> check_interval" "0 \<le> expiry_interval"
    and argv: "argv = [path, show_int max_open_files, show_int max_open_datasets, show_int check_interval, show_int expiry_interval]"
    and ob: "sm_files os (sm_name sm) = Some ob" and name: "c_string (sm_name sm)" and len: "sm_size sm < 2 ^ 64"
    and "writes ws 8" and rs: "reads rs (length (concat (region_messages sm)))"
  obtains rs' where "reader_start argv ws (Some fd) (Some data) os (rs, concat (region_messages sm)) =
    Some (Running (file_cache_new max_open_files max_open_datasets) check_interval expiry_interval
      \<lparr>sm_size = sm_size sm, sm_data = data, sm_fd = fd, sm_name = sm_name sm\<rparr> (int_bytes 1 @ int_bytes 0)
      (os\<lparr>sm_fds := (sm_fds os)(fd \<mapsto> ob), sm_maps := (sm_maps os)(data \<mapsto> ob)\<rparr>) (rs', []))"
proof -
  let ?T = "size_bytes (length (sm_name sm) + 1) @ string_bytes (sm_name sm)"
  have msgs: "concat (region_messages sm) = size_bytes (sm_size sm) @ ?T" by (simp add: region_messages_def)
  have args: "length argv = 5" "atoi (argv ! 1) = max_open_files" "atoi (argv ! 2) = max_open_datasets"
    "atoi (argv ! 3) = check_interval" "atoi (argv ! 4) = expiry_interval"
    by (simp_all add: argv atoi_show_int)
  have ok: "main_arguments (int 5) max_open_files max_open_datasets check_interval expiry_interval"
    using limits by (simp add: main_arguments_def)
  obtain ws1 where s1: "worker_init ws = Some (0, int_bytes 1, ws1)" "writes ws1 4"
    unfolding worker_init_def by (rule worker_send_exact [of ws "int_bytes 1" 4]) (use assms(9) in auto)
  obtain ws2 where s2: "worker_send ws1 (int_bytes 0) = Some (0, int_bytes 0, ws2)"
    by (rule worker_send_exact [of ws1 "int_bytes 0" 0]) (use s1(2) in auto)
  have "length (concat (region_messages sm)) = 8 + (length (sm_name sm) + 9 + 0)" by (simp add: msgs)
  with rs have "reads rs (8 + (length (sm_name sm) + 9 + 0))" by (simp only:)
  then obtain rs1 where r1: "recv 8 (rs, size_bytes (sm_size sm) @ ?T) = Some (size_bytes (sm_size sm), (rs1, ?T))"
      "reads rs1 (length (sm_name sm) + 9 + 0)"
    by (rule recv_exact) (rule length_bytes)
  from r1(2) obtain rs2 where r2: "recv_name (rs1, ?T) = Some (sm_name sm, (rs2, []))"
    by (rule recv_name_exact [where rest = "[]", unfolded append_Nil2]) (rule name)
  have map: "shared_memory_map (sm_name sm) (sm_size sm) (Some fd) (Some data) os =
      (Some \<lparr>sm_size = sm_size sm, sm_data = data, sm_fd = fd, sm_name = sm_name sm\<rparr>,
       os\<lparr>sm_fds := (sm_fds os)(fd \<mapsto> ob), sm_maps := (sm_maps os)(data \<mapsto> ob)\<rparr>)"
    using ob by (simp add: shared_memory_map_def shm_open_def mmap_def)
  show thesis
    by (rule that [of rs2], unfold reader_start_def msgs)
      (simp only: ok args s1(1) s2 r1(1) r2 map size_roundtrip [OF len] bind.bind_lunit prod.case option.case Let_def
        not_True_eq_False if_False)
qed

lemma parent_starts_reader:
  assumes region: "reader_region sizeof_srd buffer_size (region_name parent_pid (wp_pid wp)) sa os = (Some sm, os1)"
    and alive: "\<not> wp_is_dead wp" and w: "writes ws (length (concat (region_messages sm)))" and r: "reads rs 8"
  shows "reader_init sizeof_srd buffer_size hs parent_pid st ws rs (int_bytes 1 @ int_bytes 0) True sa os wp =
    Some (wp, Some \<lparr>rd_file_cache = Some (file_cache_new (hs_max_open_files hs) (hs_max_open_datasets hs)), rd_sm = Some sm\<rparr>, 0,
      concat (region_messages sm), snd (shared_memory_unlink sm os1))"
proof -
  have ints: "bytes_int (int_bytes 0) = 0" by (intro int_roundtrip) simp_all
  obtain rs' where p1: "worker_process_recv st rs wp (int_bytes 1 @ int_bytes 0) 4 = Some (wp, 0, int_bytes 1, int_bytes 0, rs')" "reads rs' 4"
    by (rule worker_process_recv_exact [of rs 4 4 "int_bytes 1 @ int_bytes 0" wp st]) (use r alive in auto)
  obtain rs'' where p2: "worker_process_recv st rs' wp (int_bytes 0) 4 = Some (wp, 0, int_bytes 0, [], rs'')"
    by (rule worker_process_recv_exact [of rs' 4 0 "int_bytes 0" wp st]) (use p1(2) alive in auto)
  obtain ws' where p3: "send_messages st ws wp (region_messages sm) = Some (wp, 0, concat (region_messages sm), ws')"
    using send_messages_exact [OF alive, of ws "region_messages sm" 0] w by auto
  show ?thesis using p1(1) p2 p3 region by (simp add: reader_init_def worker_default_init_def ints)
qed

text \<open>
  C13. Parent and reader start up together.  With the arguments that the parent puts on the command
  line, and any partial reads and writes, the reader maps the memory object that the parent has
  created, with the size that the parent has set, although the name of the object is gone
  afterwards.  The two intervals reach the command loop, the pipe is empty, and the parent's handle
  is ready for the first request: the header of the region has the layout that the streams rely on
  and the shadow copy mirrors the cache of the reader.
\<close>

theorem reader_starts:
  assumes args: "hdfstream_new_with_executable default_path executable max_open_files max_open_datasets check_interval expiry_interval = (hs, argv)"
    and "1 \<le> max_open_files" "1 \<le> max_open_datasets" "0 \<le> check_interval" "0 \<le> expiry_interval"
    and "0 < buffer_size" and sizes: "sizeof_srd + ALIGNMENT + NR_BUFFERS * buffer_size < 2 ^ 64"
    and region: "reader_region sizeof_srd buffer_size (region_name parent_pid (wp_pid wp)) sa os = (Some sm, os1)" "unused sa os"
    and alive: "\<not> wp_is_dead wp"
    and w: "writes ws (length (concat (region_messages sm)))" and r: "reads rs 8"
    and wc: "writes wsc 8" and rc: "reads rsc (length (concat (region_messages sm)))"
  shows "\<exists>fc csm reply os2 inp rd os'. 
    reader_start argv wsc (Some cfd) (Some cdata) (os1\<lparr>sm_fds := cfds, sm_maps := cmaps\<rparr>) (rsc, concat (region_messages sm)) =
      Some (Running fc check_interval expiry_interval csm reply os2 inp) \<and> snd inp = [] \<and>
    reader_init sizeof_srd buffer_size hs parent_pid st ws rs reply True sa os wp =
      Some (wp, Some rd, 0, concat (region_messages sm), os') \<and>
    rd_sm rd = Some sm \<and> sm_files os' = sm_files os \<and>
    sm_size csm = sm_size sm \<and> sm_maps os2 (sm_data csm) = sm_maps os' (sm_data sm) \<and>
    (\<exists>ob cache. sm_maps os' (sm_data sm) = Some ob \<and> sm_length os' ob = sm_size sm \<and>
       srd_total_size (sm_header os' ob) = sm_size sm \<and> srd_buffer_size (sm_header os' ob) = buffer_size \<and>
       rd_file_cache rd = Some cache \<and>
       handle_ok (header_size sizeof_srd) fc \<lparr>rh_worker = wp, rh_cache = cache, rh_srd = sm_header os' ob\<rparr>)"
proof -
  obtain ob where c: "sm_name sm = region_name parent_pid (wp_pid wp)" "sm_size sm = shared_data_size sizeof_srd buffer_size"
      "sm_files os (sm_name sm) = None" "sm_files os1 = (sm_files os)(sm_name sm \<mapsto> ob)" "holds_region os os1 sm ob"
      "sm_length os1 ob = sm_size sm" "sm_header os1 ob = shared_data_populate sizeof_srd buffer_size (sm_header os ob)"
    by (rule region_cases [OF region]) auto
  note u = unlinked_region [OF refl c(3,4,5)]
  have name: "c_string (sm_name sm)" and len: "sm_size sm < 2 ^ 64"
    using c(1,2) region_name_c_string by (simp_all add: shared_data_size_def size_t_def)
  have hs: "argv = [hs_executable hs, show_int max_open_files, show_int max_open_datasets, show_int check_interval, show_int expiry_interval]"
    "hs_max_open_files hs = max_open_files" "hs_max_open_datasets hs = max_open_datasets"
    using args by (auto simp: hdfstream_new_with_executable_def Let_def)
  let ?os = "snd (shared_memory_unlink sm os1)" and ?os1 = "os1\<lparr>sm_fds := cfds, sm_maps := cmaps\<rparr>"
  have "sm_files ?os1 (sm_name sm) = Some ob" using c(4) by simp
  then obtain rs' where reader: "reader_start argv wsc (Some cfd) (Some cdata) ?os1 (rsc, concat (region_messages sm)) =
    Some (Running (file_cache_new max_open_files max_open_datasets) check_interval expiry_interval
      \<lparr>sm_size = sm_size sm, sm_data = cdata, sm_fd = cfd, sm_name = sm_name sm\<rparr> (int_bytes 1 @ int_bytes 0)
      (?os1\<lparr>sm_fds := (sm_fds ?os1)(cfd \<mapsto> ob), sm_maps := (sm_maps ?os1)(cdata \<mapsto> ob)\<rparr>) (rs', []))"
    by (rule reader_maps_region [OF assms(2-5) hs(1) _ name len wc rc])
  note parent = parent_starts_reader [OF region(1) alive w r, of hs st, unfolded hs(2,3)]
  have maps: "sm_maps ?os (sm_data sm) = Some ob" using u(2) by (simp add: holds_region_def)
  have header: "sm_header ?os ob = shared_data_populate sizeof_srd buffer_size (sm_header os ob)" using u(3) c(7) by simp
  let ?cache = "file_cache_new max_open_files max_open_datasets"
  have "buffer_size < 2 ^ 64" using sizes by (simp add: NR_BUFFERS_def)
  moreover have "mirrors prefix ?cache ?cache" using assms(2,3) by (intro mirrors_new) auto
  ultimately have "handle_ok (header_size sizeof_srd) ?cache \<lparr>rh_worker = wp, rh_cache = ?cache, rh_srd = sm_header ?os ob\<rparr>"
    using alive assms(6) header shared_data_layout(1) [OF sizes] by (simp add: handle_ok_def list_all_iff shared_data_populate_def)
  then have mem: "\<exists>ob cache. sm_maps ?os (sm_data sm) = Some ob \<and> sm_length ?os ob = sm_size sm \<and>
       srd_total_size (sm_header ?os ob) = sm_size sm \<and> srd_buffer_size (sm_header ?os ob) = buffer_size \<and>
       rd_file_cache \<lparr>rd_file_cache = Some ?cache, rd_sm = Some sm\<rparr> = Some cache \<and>
       handle_ok (header_size sizeof_srd) ?cache \<lparr>rh_worker = wp, rh_cache = cache, rh_srd = sm_header ?os ob\<rparr>"
    using maps header u(4) c(2,6) by (intro exI [of _ ob]) (auto simp: shared_data_populate_def)
  show ?thesis
    by ((rule exI)+, intro conjI, rule reader, simp, rule parent, simp, rule u(1), simp, simp add: maps, rule mem)
qed

text \<open>Limits of 4 files and 4 datasets, entries that expire after 60 seconds, and buffers of 8 bytes.\<close>

theorem reader_starts_witness:
  "\<exists>sm os1 fc csm reply os2 inp rd os'.
    reader_start (snd (hdfstream_new_with_executable ''reader'' None 4 4 5 60)) (replicate 8 (Written 1)) (Some 5) (Some 8192) os1
        (replicate 2000 (Got 1), concat (region_messages sm)) = Some (Running fc 5 60 csm reply os2 inp) \<and>
    reader_init 1000 8 (fst (hdfstream_new_with_executable ''reader'' None 4 4 5 60)) 1 0 (replicate 2000 (Written 1))
        (replicate 8 (Got 1)) reply True sample_answers_sm no_memory sample_worker =
      Some (sample_worker, Some rd, 0, concat (region_messages sm), os') \<and>
    sm_maps os2 (sm_data csm) = sm_maps os' (sm_data sm) \<and> sm_maps os' (sm_data sm) \<noteq> None"
proof -
  have alive: "\<not> wp_is_dead sample_worker" by (simp add: sample_worker_def)
  obtain sm os1 where region: "reader_region 1000 8 (region_name 1 (wp_pid sample_worker)) sample_answers_sm no_memory = (Some sm, os1)"
    "length (concat (region_messages sm)) \<le> 2000" by (rule sample_region)
  let ?new = "hdfstream_new_with_executable ''reader'' None 4 4 5 60"
  have args: "?new = (fst ?new, snd ?new)" by simp
  have sizes: "1000 + ALIGNMENT + NR_BUFFERS * 8 < 2 ^ 64" by (simp add: ALIGNMENT_def NR_BUFFERS_def)
  have ones: "writes (replicate 8 (Written 1)) 8" "reads (replicate 8 (Got 1)) 8" by (rule writes_one reads_one, rule order.refl)+
  have pos: "0 < (8 :: nat)" by simp
  have limits: "1 \<le> (4 :: int)" "0 \<le> (5 :: int)" "0 \<le> (60 :: int)" by simp_all
  note started = reader_starts [OF args limits(1,1,2,3) pos sizes region(1) sample_unused alive writes_one [OF region(2)] ones(2,1)
      reads_one [OF region(2)], of 5 8192 Map.empty Map.empty 0]
  obtain fc csm reply os2 inp rd os' where
    "reader_start (snd ?new) (replicate 8 (Written 1)) (Some 5) (Some 8192) (os1\<lparr>sm_fds := Map.empty, sm_maps := Map.empty\<rparr>)
        (replicate 2000 (Got 1), concat (region_messages sm)) = Some (Running fc 5 60 csm reply os2 inp)"
    "reader_init 1000 8 (fst ?new) 1 0 (replicate 2000 (Written 1)) (replicate 8 (Got 1)) reply True sample_answers_sm no_memory
       sample_worker = Some (sample_worker, Some rd, 0, concat (region_messages sm), os')"
    "sm_maps os2 (sm_data csm) = sm_maps os' (sm_data sm)" "sm_maps os' (sm_data sm) \<noteq> None"
    using started by (elim exE conjE) (rule that, assumption+, simp)
  then show ?thesis by blast
qed

end
