(* ===== verification/ProcessPool.thy ===== *)
theory ProcessPool
  imports Prelude
begin

text \<open>
  The pool of reader processes: src/src/util/process_pool.c.

  The operations are functions on the pool, one for each piece of code that runs under the
  pool's mutex.  They are composed into a system of one pool and any number of client threads;
  a thread gives up the mutex between two steps, so the steps of different threads interleave
  as they can in the program.  What the operating system decides (whether a new process starts,
  whether a process is still alive) is an argument of the operations.

  A worker is the address of its struct worker_process.  None as the result of an operation is a
  failed assert().
\<close>

section \<open>State\<close>

datatype worker_state = IDLE | BUSY | STOPPED

record process_pool =
  max_nr_processes :: nat
  nr_processes_running :: nat
  worker :: "addr option list"
  worker_state :: "worker_state list"
  sem :: nat
  next_worker :: nat
  stop :: bool

section \<open>Operations\<close>

definition process_pool_new :: "nat \<Rightarrow> process_pool" where
  "process_pool_new n =
     \<lparr>max_nr_processes = n, nr_processes_running = 0, worker = replicate n None,
      worker_state = replicate n STOPPED, sem = 0, next_worker = 0, stop = False\<rparr>"

text \<open>new is the result of worker_process_new(), if it is called.\<close>

definition process_pool_start_worker :: "addr option \<Rightarrow> process_pool \<Rightarrow> (process_pool \<times> nat) option" where
  "process_pool_start_worker new pool =
     (if nr_processes_running pool < max_nr_processes pool \<and> \<not> stop pool then
        (let i = length (takeWhile (\<lambda>s. s \<noteq> STOPPED) (worker_state pool)) in
         if i < max_nr_processes pool then
           (case new of
              Some w \<Rightarrow>
                (let pool = pool\<lparr>worker := (worker pool)[i := Some w],
                                 worker_state := (worker_state pool)[i := IDLE],
                                 nr_processes_running := nr_processes_running pool + 1\<rparr>
                 in if nr_processes_running pool \<le> max_nr_processes pool
                    then Some (pool\<lparr>sem := sem pool + 1\<rparr>, nr_processes_running pool) else None)
            | None \<Rightarrow>
                Some (pool\<lparr>worker := (worker pool)[i := None],
                           worker_state := (worker_state pool)[i := STOPPED]\<rparr>, nr_processes_running pool))
         else Some (pool, nr_processes_running pool))
      else Some (pool, nr_processes_running pool))"

text \<open>
  The scan for a free process.  high is (high_score_index, high_score_value); the index None
  stands for -1.  cb is the score callback, which may be absent.
\<close>

fun scan_workers :: "(addr \<Rightarrow> int) option \<Rightarrow> process_pool \<Rightarrow> nat list \<Rightarrow> nat option \<times> int \<Rightarrow> nat option option" where
  "scan_workers cb pool [] high = Some (fst high)"
| "scan_workers cb pool (j # js) high =
     (if worker_state pool ! j = IDLE then
        (case worker pool ! j of
           None \<Rightarrow> None
         | Some w \<Rightarrow>
             (case cb of
                None \<Rightarrow> Some (Some j)
              | Some f \<Rightarrow>
                  if f w < 0 then None
                  else if f w > snd high then scan_workers cb pool js (Some j, f w)
                  else scan_workers cb pool js high))
      else scan_workers cb pool js high)"

definition scan_order :: "process_pool \<Rightarrow> nat list" where
  "scan_order pool = map (\<lambda>i. (i + next_worker pool) mod max_nr_processes pool) [0..<max_nr_processes pool]"

text \<open>
  The wait for the semaphore, with the answers of sem_wait(); 0 means that the semaphore was
  positive and has been decremented.  The loop ends on every answer but EINTR, and the answer is
  asserted to be 0.
\<close>

definition EINTR :: int where "EINTR = 4"

fun process_pool_wait_and_lock :: "int list \<Rightarrow> process_pool \<Rightarrow> process_pool option" where
  "process_pool_wait_and_lock [] pool = None"
| "process_pool_wait_and_lock (err # errs) pool =
     (if err = EINTR then process_pool_wait_and_lock errs pool
      else do { c_assert (err = 0); Some (pool\<lparr>sem := sem pool - 1\<rparr>) })"

lemma wait_and_lock [simp]: "process_pool_wait_and_lock [0] p = Some (p\<lparr>sem := sem p - 1\<rparr>)"
  by (simp add: EINTR_def)

text \<open>
  A wait that a signal interrupts returns -1, not EINTR (which is in errno): the assertion fails.
\<close>

lemma interrupted_wait: "process_pool_wait_and_lock (-1 # errs) p = None"
  by (simp add: EINTR_def)

declare process_pool_wait_and_lock.simps(2) [simp del]

text \<open>The part of try_process_pool_get_worker_by_score() after the wait for the semaphore.\<close>

definition assign_worker :: "(addr \<Rightarrow> int) option \<Rightarrow> process_pool \<Rightarrow> (process_pool \<times> addr option) option" where
  "assign_worker cb pool =
     (if stop pool then Some (pool\<lparr>sem := sem pool + 1\<rparr>, None)
      else (case scan_workers cb pool (scan_order pool) (None, -1) of
              None \<Rightarrow> None
            | Some None \<Rightarrow> None
            | Some (Some j) \<Rightarrow>
                Some (pool\<lparr>worker_state := (worker_state pool)[j := BUSY],
                           next_worker := (next_worker pool + 1) mod max_nr_processes pool\<rparr>,
                      worker pool ! j)))"

text \<open>
  A worker that turns out to be dead is removed.  The loop of process_pool_get_worker_by_score()
  visits every slot, the loop of process_pool_release_worker() stops at the first match.
\<close>

definition remove_slot :: "nat \<Rightarrow> process_pool \<Rightarrow> process_pool" where
  "remove_slot j pool =
     pool\<lparr>worker_state := (worker_state pool)[j := STOPPED], worker := (worker pool)[j := None],
          nr_processes_running := nr_processes_running pool - 1\<rparr>"

definition mark_dead :: "addr \<Rightarrow> process_pool \<Rightarrow> process_pool" where
  "mark_dead w pool =
     fold (\<lambda>j pool. if worker pool ! j = Some w then remove_slot j pool else pool) [0..<max_nr_processes pool] pool"

text \<open>
  process_pool_release_worker() up to the release of the lock; the second result says whether the
  semaphore is to be posted.
\<close>

definition release_worker :: "addr \<Rightarrow> bool \<Rightarrow> process_pool \<Rightarrow> process_pool \<times> bool" where
  "release_worker w alive pool =
     (case filter (\<lambda>i. worker pool ! i = Some w) [0..<max_nr_processes pool] of
        [] \<Rightarrow> (pool, False)
      | i # _ \<Rightarrow>
          if alive then (pool\<lparr>worker_state := (worker_state pool)[i := IDLE]\<rparr>, True)
          else (remove_slot i pool, False))"

text \<open>
  process_pool_free(): the first part blocks new processes, sends SIGKILL to the workers that
  process_pool_free_kills lists, and wakes up a waiting thread; the last part deallocates the
  workers.  Between them the code waits until no worker is BUSY.
\<close>

definition process_pool_free_begin :: "process_pool \<Rightarrow> process_pool" where
  "process_pool_free_begin pool = pool\<lparr>stop := True, sem := sem pool + 1\<rparr>"

definition process_pool_free_kills :: "process_pool \<Rightarrow> addr list" where
  "process_pool_free_kills pool =
     List.map_filter (\<lambda>i. case worker pool ! i of
         Some w \<Rightarrow> if worker_state pool ! i \<noteq> STOPPED then Some w else None
       | None \<Rightarrow> None) [0..<max_nr_processes pool]"

definition nr_busy :: "process_pool \<Rightarrow> nat" where
  "nr_busy pool = length (filter (\<lambda>s. s = BUSY) (worker_state pool))"

definition process_pool_free_end :: "process_pool \<Rightarrow> process_pool" where
  "process_pool_free_end pool = pool\<lparr>worker := map (\<lambda>_. None) (worker pool)\<rparr>"

text \<open>
  hdfstream_cache_info() of src/src/lib/hdfstream.c reports the state of a slot, as the number of the
  enumeration, and the counters that the worker keeps in its shared memory.
\<close>

record cache_info =
  ci_process_state :: int
  ci_nr_file_cache_hits :: int
  ci_nr_file_cache_misses :: int

fun state_number :: "worker_state \<Rightarrow> int" where
  "state_number IDLE = 0"
| "state_number BUSY = 1"
| "state_number STOPPED = 2"

definition hdfstream_cache_info :: "(addr \<Rightarrow> int \<times> int) \<Rightarrow> process_pool \<Rightarrow> int \<Rightarrow> cache_info option" where
  "hdfstream_cache_info counters pool worker_nr =
     (if 0 \<le> worker_nr \<and> worker_nr < int (max_nr_processes pool) then
        (let st = worker_state pool ! nat worker_nr in
         if st = IDLE \<or> st = BUSY then
           (case worker pool ! nat worker_nr of
              None \<Rightarrow> None
            | Some w \<Rightarrow> Some \<lparr>ci_process_state = state_number st, ci_nr_file_cache_hits = fst (counters w),
                              ci_nr_file_cache_misses = snd (counters w)\<rparr>)
         else Some \<lparr>ci_process_state = state_number st, ci_nr_file_cache_hits = 0, ci_nr_file_cache_misses = 0\<rparr>)
      else Some \<lparr>ci_process_state = -1, ci_nr_file_cache_hits = -1, ci_nr_file_cache_misses = -1\<rparr>)"

section \<open>The system\<close>

text \<open>
  Where a client thread is.  Try i is the start of the attempt number i of
  process_pool_get_worker_by_score(); Starting i has found no free worker and calls
  process_pool_start_worker(); Waiting i is about to wait for the semaphore; Reserved i has taken
  it; Checking i w was given the worker w and asks whether it is alive; Holding w uses the worker;
  Posting has put a worker back and is about to post the semaphore.  Freeing is the thread that
  frees the pool, between the two parts.
\<close>

datatype client =
    Outside | Try nat | Starting nat | Waiting nat | Reserved nat | Checking nat addr | Holding addr
  | Posting | Freeing

record pool_system =
  pool :: process_pool
  clients :: "client list"

definition goto :: "nat \<Rightarrow> client \<Rightarrow> process_pool \<Rightarrow> pool_system \<Rightarrow> pool_system" where
  "goto i c p s = s\<lparr>pool := p, clients := (clients s)[i := c]\<rparr>"

definition pool_init :: "nat \<Rightarrow> nat \<Rightarrow> pool_system" where
  "pool_init n m = \<lparr>pool = process_pool_new n, clients = replicate m Outside\<rparr>"

inductive pool_step :: "pool_system \<Rightarrow> pool_system \<Rightarrow> bool" where
  get: "i < length (clients s) \<Longrightarrow> clients s ! i = Outside \<Longrightarrow>
    pool_step s (goto i (Try 0) (pool s) s)"
| enough: "i < length (clients s) \<Longrightarrow> clients s ! i = Try n \<Longrightarrow> n < max_nr_processes (pool s) + 1 \<Longrightarrow>
    sem (pool s) > 0 \<Longrightarrow> pool_step s (goto i (Waiting n) (pool s) s)"
| scarce: "i < length (clients s) \<Longrightarrow> clients s ! i = Try n \<Longrightarrow> n < max_nr_processes (pool s) + 1 \<Longrightarrow>
    sem (pool s) = 0 \<Longrightarrow> pool_step s (goto i (Starting n) (pool s) s)"
| give_up: "i < length (clients s) \<Longrightarrow> clients s ! i = Try n \<Longrightarrow> \<not> n < max_nr_processes (pool s) + 1 \<Longrightarrow>
    pool_step s (goto i Outside (pool s) s)"
| start: "i < length (clients s) \<Longrightarrow> clients s ! i = Starting n \<Longrightarrow>
    (\<forall>w. new = Some w \<longrightarrow> Some w \<notin> set (worker (pool s))) \<Longrightarrow>
    process_pool_start_worker new (pool s) = Some (p, nr_running) \<Longrightarrow>
    pool_step s (goto i (if nr_running = 0 then Outside else Waiting n) p s)"
| wait: "i < length (clients s) \<Longrightarrow> clients s ! i = Waiting n \<Longrightarrow> sem (pool s) > 0 \<Longrightarrow>
    process_pool_wait_and_lock [0] (pool s) = Some p \<Longrightarrow> pool_step s (goto i (Reserved n) p s)"
| assign: "i < length (clients s) \<Longrightarrow> clients s ! i = Reserved n \<Longrightarrow>
    assign_worker cb (pool s) = Some (p, r) \<Longrightarrow>
    pool_step s (goto i (case r of None \<Rightarrow> Outside | Some w \<Rightarrow> Checking n w) p s)"
| alive: "i < length (clients s) \<Longrightarrow> clients s ! i = Checking n w \<Longrightarrow>
    pool_step s (goto i (Holding w) (pool s) s)"
| dead: "i < length (clients s) \<Longrightarrow> clients s ! i = Checking n w \<Longrightarrow>
    pool_step s (goto i (Try (n + 1)) (mark_dead w (pool s)) s)"
| release: "i < length (clients s) \<Longrightarrow> clients s ! i = Holding w \<Longrightarrow>
    release_worker w is_alive (pool s) = (p, running) \<Longrightarrow>
    pool_step s (goto i (if running then Posting else Outside) p s)"
| post: "i < length (clients s) \<Longrightarrow> clients s ! i = Posting \<Longrightarrow>
    pool_step s (goto i Outside ((pool s)\<lparr>sem := sem (pool s) + 1\<rparr>) s)"
| free_begin: "i < length (clients s) \<Longrightarrow> clients s ! i = Outside \<Longrightarrow> \<not> stop (pool s) \<Longrightarrow>
    pool_step s (goto i Freeing (process_pool_free_begin (pool s)) s)"
| free_end: "i < length (clients s) \<Longrightarrow> clients s ! i = Freeing \<Longrightarrow> nr_busy (pool s) = 0 \<Longrightarrow>
    pool_step s (goto i Outside (process_pool_free_end (pool s)) s)"

inductive_cases pool_stepE: "pool_step s s'"

abbreviation pool_reach :: "pool_system \<Rightarrow> pool_system \<Rightarrow> bool" where
  "pool_reach \<equiv> pool_step\<^sup>*\<^sup>*"

section \<open>The invariant\<close>

definition count_of :: "('a \<Rightarrow> bool) \<Rightarrow> 'a list \<Rightarrow> nat" where
  "count_of P xs = length (filter P xs)"

lemma count_of_update:
  "i < length xs \<Longrightarrow> count_of P (xs[i := x]) + (if P (xs ! i) then 1 else 0) = count_of P xs + (if P x then 1 else 0)"
proof (induction xs arbitrary: i)
  case (Cons y ys)
  then show ?case by (cases i) (auto simp: count_of_def)
qed simp

fun holds :: "client \<Rightarrow> addr option" where
  "holds (Checking n w) = Some w"
| "holds (Holding w) = Some w"
| "holds _ = None"

fun owes :: "client \<Rightarrow> bool" where
  "owes (Reserved n) = True"
| "owes Posting = True"
| "owes _ = False"

definition pool_shape :: "process_pool \<Rightarrow> bool" where
  "pool_shape p \<longleftrightarrow>
     length (worker p) = max_nr_processes p \<and> length (worker_state p) = max_nr_processes p \<and>
     nr_processes_running p = count_of (\<lambda>s. s \<noteq> STOPPED) (worker_state p) \<and>
     (\<forall>j < max_nr_processes p. worker_state p ! j = STOPPED \<longrightarrow> worker p ! j = None) \<and>
     (\<forall>j < max_nr_processes p. worker_state p ! j = BUSY \<longrightarrow> worker p ! j \<noteq> None) \<and>
     (\<forall>j < max_nr_processes p. \<not> stop p \<longrightarrow> worker_state p ! j = IDLE \<longrightarrow> worker p ! j \<noteq> None) \<and>
     (\<forall>j < max_nr_processes p. \<forall>k < max_nr_processes p. worker p ! j \<noteq> None \<longrightarrow> worker p ! j = worker p ! k \<longrightarrow> j = k)"

text \<open>A held worker has a BUSY slot, no worker is held twice, and every BUSY slot has a holder.\<close>

definition held_busy :: "process_pool \<Rightarrow> client list \<Rightarrow> bool" where
  "held_busy p cs \<longleftrightarrow>
     (\<forall>i < length cs. \<forall>w. holds (cs ! i) = Some w \<longrightarrow>
        (\<exists>j < max_nr_processes p. worker p ! j = Some w \<and> worker_state p ! j = BUSY))"

definition held_once :: "client list \<Rightarrow> bool" where
  "held_once cs \<longleftrightarrow>
     (\<forall>i < length cs. \<forall>i' < length cs. holds (cs ! i) \<noteq> None \<longrightarrow> holds (cs ! i) = holds (cs ! i') \<longrightarrow> i = i')"

definition busy_held :: "process_pool \<Rightarrow> client list \<Rightarrow> bool" where
  "busy_held p cs \<longleftrightarrow>
     (\<forall>j < max_nr_processes p. worker_state p ! j = BUSY \<longrightarrow> (\<exists>i < length cs. holds (cs ! i) = worker p ! j))"

text \<open>
  The semaphore counts the IDLE workers that nobody has reserved; after a shutdown it is one
  higher, which wakes up the threads that wait one after another.
\<close>

definition pays :: "bool \<Rightarrow> nat" where
  "pays b = (if b then 1 else 0)"

definition sem_balance :: "process_pool \<Rightarrow> client list \<Rightarrow> bool" where
  "sem_balance p cs \<longleftrightarrow>
     sem p + count_of owes cs = count_of (\<lambda>s. s = IDLE) (worker_state p) + pays (stop p)"

definition pool_inv :: "pool_system \<Rightarrow> bool" where
  "pool_inv s \<longleftrightarrow>
     pool_shape (pool s) \<and> sem_balance (pool s) (clients s) \<and>
     held_busy (pool s) (clients s) \<and> held_once (clients s) \<and> busy_held (pool s) (clients s) \<and>
     (Freeing \<in> set (clients s) \<longrightarrow> stop (pool s))"

lemma goto_simps [simp]: "pool (goto i c p s) = p" "clients (goto i c p s) = (clients s)[i := c]"
  by (simp_all add: goto_def)

lemma owes_goto:
  "i < length (clients s) \<Longrightarrow>
   count_of owes ((clients s)[i := c]) + pays (owes (clients s ! i)) = count_of owes (clients s) + pays (owes c)"
  unfolding pays_def by (rule count_of_update)

text \<open>Steps that leave the slots alone: only the balance of the semaphore has to be checked.\<close>

lemma inv_same_slots:
  assumes inv: "pool_inv s" and i: "i < length (clients s)" and h: "holds c = holds (clients s ! i)"
    and p: "worker p = worker (pool s)" "worker_state p = worker_state (pool s)"
      "max_nr_processes p = max_nr_processes (pool s)" "nr_processes_running p = nr_processes_running (pool s)"
      "stop (pool s) \<longrightarrow> stop p" "c = Freeing \<longrightarrow> stop p"
    and bal: "sem p + pays (owes c) + pays (stop (pool s)) = sem (pool s) + pays (owes (clients s ! i)) + pays (stop p)"
  shows "pool_inv (goto i c p s)"
proof -
  have hs: "holds ((clients s)[i := c] ! i') = holds (clients s ! i')" for i'
    using h by (cases "i' = i"; cases "i' < length (clients s)") (auto simp: i)
  have I: "pool_shape (pool s)" "sem_balance (pool s) (clients s)" "held_busy (pool s) (clients s)"
      "held_once (clients s)" "busy_held (pool s) (clients s)"
    using inv by (simp_all add: pool_inv_def)
  have "pool_shape p" using I(1) p unfolding pool_shape_def by auto
  moreover have "sem_balance p ((clients s)[i := c])"
    using owes_goto [OF i, of c] I(2) bal p unfolding sem_balance_def by simp
  moreover have "held_busy p ((clients s)[i := c])" "held_once ((clients s)[i := c])" "busy_held p ((clients s)[i := c])"
    using I p unfolding held_busy_def held_once_def busy_held_def hs length_list_update by simp_all
  moreover have "Freeing \<in> set ((clients s)[i := c]) \<longrightarrow> stop p"
    using inv p set_update_subset_insert [of "clients s" i c] by (auto simp: pool_inv_def)
  ultimately show ?thesis by (simp add: pool_inv_def)
qed

lemma first_stopped:
  assumes "length (takeWhile (\<lambda>s. s \<noteq> STOPPED) xs) < length xs"
  shows "xs ! length (takeWhile (\<lambda>s. s \<noteq> STOPPED) xs) = STOPPED"
  using assms nth_length_takeWhile by blast

lemma start_worker_cases:
  assumes sh: "pool_shape p0" and st: "process_pool_start_worker new p0 = Some (p, n)"
  obtains "p = p0" "n = nr_processes_running p0"
  | j w where "new = Some w" "j < max_nr_processes p0" "worker_state p0 ! j = STOPPED" "\<not> stop p0"
      "nr_processes_running p0 < max_nr_processes p0"
      "p = p0\<lparr>worker := (worker p0)[j := Some w], worker_state := (worker_state p0)[j := IDLE],
             nr_processes_running := nr_processes_running p0 + 1, sem := sem p0 + 1\<rparr>"
      "n = nr_processes_running p0 + 1"
proof -
  let ?j = "length (takeWhile (\<lambda>s. s \<noteq> STOPPED) (worker_state p0))"
  show thesis
  proof (cases "nr_processes_running p0 < max_nr_processes p0 \<and> \<not> stop p0 \<and> ?j < max_nr_processes p0")
    case False
    then have "p = p0 \<and> n = nr_processes_running p0"
      using st unfolding process_pool_start_worker_def Let_def by (auto split: if_split_asm)
    then show thesis using that(1) by blast
  next
    case True
    then have s: "worker_state p0 ! ?j = STOPPED" and n: "worker p0 ! ?j = None"
      using first_stopped [of "worker_state p0"] sh by (auto simp: pool_shape_def)
    show thesis
    proof (cases new)
      case None
      have "p = p0\<lparr>worker := (worker p0)[?j := None], worker_state := (worker_state p0)[?j := STOPPED]\<rparr>"
        using True None st by (simp add: process_pool_start_worker_def Let_def)
      moreover have "(worker p0)[?j := None] = worker p0" "(worker_state p0)[?j := STOPPED] = worker_state p0"
        using s n list_update_id by metis+
      ultimately show thesis using that(1) True None st by (simp add: process_pool_start_worker_def Let_def)
    next
      case (Some w)
      have "p = p0\<lparr>worker := (worker p0)[?j := Some w], worker_state := (worker_state p0)[?j := IDLE],
             nr_processes_running := nr_processes_running p0 + 1, sem := sem p0 + 1\<rparr> \<and> n = nr_processes_running p0 + 1"
        using True Some st unfolding process_pool_start_worker_def Let_def by auto
      then show thesis using True Some s by (intro that(2) [of w ?j]) auto
    qed
  qed
qed

lemma scan_result:
  "scan_workers cb p js high = Some (Some j) \<Longrightarrow>
   (j \<in> set js \<and> worker_state p ! j = IDLE \<and> worker p ! j \<noteq> None) \<or> fst high = Some j"
  by (induction cb p js high rule: scan_workers.induct) (auto split: if_splits option.splits)

lemma scan_order_set: "pool_shape p \<Longrightarrow> set (scan_order p) = {..<max_nr_processes p}"
proof -
  let ?n = "max_nr_processes p"
  have "j \<in> (\<lambda>i. (i + next_worker p) mod ?n) ` {0..<?n}" if "j < ?n" for j
  proof
    let ?i = "(j + (?n - next_worker p mod ?n)) mod ?n"
    have "(?i + next_worker p) mod ?n = (j + (?n - next_worker p mod ?n) + next_worker p mod ?n) mod ?n"
      by (simp add: mod_simps)
    also have "j + (?n - next_worker p mod ?n) + next_worker p mod ?n = j + ?n"
      using that mod_less_divisor [of ?n "next_worker p"] by linarith
    also have "(j + ?n) mod ?n = j" using that by simp
    finally show "j = (?i + next_worker p) mod ?n" by simp
  qed (use that in auto)
  then show ?thesis by (auto simp: scan_order_def)
qed

lemma assign_cases:
  assumes sh: "pool_shape p0" and a: "assign_worker cb p0 = Some (p, r)"
  obtains "stop p0" "p = p0\<lparr>sem := sem p0 + 1\<rparr>" "r = None"
  | j w where "\<not> stop p0" "j < max_nr_processes p0" "worker_state p0 ! j = IDLE" "worker p0 ! j = Some w" "r = Some w"
      "p = p0\<lparr>worker_state := (worker_state p0)[j := BUSY],
             next_worker := (next_worker p0 + 1) mod max_nr_processes p0\<rparr>"
proof (cases "stop p0")
  case True
  then show thesis using that(1) a by (simp add: assign_worker_def)
next
  case False
  then obtain j where j: "scan_workers cb p0 (scan_order p0) (None, -1) = Some (Some j)"
    and r: "r = worker p0 ! j" "p = p0\<lparr>worker_state := (worker_state p0)[j := BUSY],
             next_worker := (next_worker p0 + 1) mod max_nr_processes p0\<rparr>"
    using a by (auto simp: assign_worker_def split: option.splits)
  then show thesis
    using scan_result [OF j] scan_order_set [OF sh] that(2) [of j] False by auto
qed

lemma slot_unique:
  assumes "pool_shape p" "j < max_nr_processes p" "worker p ! j = Some w" "k < max_nr_processes p"
  shows "worker p ! k = Some w \<longleftrightarrow> k = j"
  using assms unfolding pool_shape_def by (metis option.distinct(1))

lemma fold_ignore: "(\<And>x. x \<in> set xs \<Longrightarrow> f x a = a) \<Longrightarrow> fold f xs a = a"
  by (induction xs) auto

lemma mark_dead_slot:
  assumes sh: "pool_shape p" and j: "j < max_nr_processes p" "worker p ! j = Some w"
  shows "mark_dead w p = remove_slot j p"
proof -
  let ?f = "\<lambda>j pool. if worker pool ! j = Some w then remove_slot j pool else pool"
  have len: "length (worker p) = max_nr_processes p" using sh by (simp add: pool_shape_def)
  have "[0..<max_nr_processes p] = [0..<j] @ j # [Suc j..<max_nr_processes p]"
    using upt_split [OF le0 less_imp_le, OF j(1)] upt_conv_Cons [OF j(1)] by (simp only:)
  moreover have "fold ?f [0..<j] p = p"
    using slot_unique [OF sh j] j(1) by (intro fold_ignore) auto
  moreover have "fold ?f [Suc j..<max_nr_processes p] (remove_slot j p) = remove_slot j p"
  proof (rule fold_ignore)
    fix k assume "k \<in> set [Suc j..<max_nr_processes p]"
    then have "k < max_nr_processes p" "k \<noteq> j" by auto
    then have "worker (remove_slot j p) ! k \<noteq> Some w"
      using slot_unique [OF sh j, of k] by (simp add: remove_slot_def)
    then show "?f k (remove_slot j p) = remove_slot j p" by simp
  qed
  ultimately show ?thesis using j by (simp add: mark_dead_def)
qed

lemma filter_eq_upt: "j < n \<Longrightarrow> filter (\<lambda>i. i = j) [0..<n] = [j]"
  by (induction n) (auto simp: less_Suc_eq)

lemma release_slot:
  assumes sh: "pool_shape p" and j: "j < max_nr_processes p" "worker p ! j = Some w"
  shows "release_worker w alive p =
    (if alive then (p\<lparr>worker_state := (worker_state p)[j := IDLE]\<rparr>, True) else (remove_slot j p, False))"
proof -
  have "filter (\<lambda>i. worker p ! i = Some w) [0..<max_nr_processes p] = filter (\<lambda>i. i = j) [0..<max_nr_processes p]"
    by (rule filter_cong) (simp_all add: slot_unique [OF sh j])
  also have "\<dots> = [j]" using j(1) by (simp add: filter_eq_upt)
  finally show ?thesis by (simp add: release_worker_def)
qed

text \<open>
  Steps that change one slot: the worker becomes x and its state st, and the client i goes from
  the one of BUSY and not BUSY to the other together with the slot.
\<close>

definition set_slot :: "nat \<Rightarrow> addr option \<Rightarrow> worker_state \<Rightarrow> process_pool \<Rightarrow> process_pool \<Rightarrow> bool" where
  "set_slot j x st p q \<longleftrightarrow>
     worker q = (worker p)[j := x] \<and> worker_state q = (worker_state p)[j := st] \<and>
     max_nr_processes q = max_nr_processes p \<and> stop q = stop p \<and>
     nr_processes_running q + pays (worker_state p ! j \<noteq> STOPPED) = nr_processes_running p + pays (st \<noteq> STOPPED)"

lemma count_slot:
  "j < length xs \<Longrightarrow> count_of P (xs[j := x]) + pays (P (xs ! j)) = count_of P xs + pays (P x)"
  unfolding pays_def by (rule count_of_update)

lemma shape_set_slot:
  assumes sh: "pool_shape p" and j: "j < max_nr_processes p" and q: "set_slot j x st p q"
    and x: "st = STOPPED \<longleftrightarrow> x = None" "\<forall>w. x = Some w \<longrightarrow> Some w \<notin> set (worker p) \<or> worker p ! j = Some w"
  shows "pool_shape q"
proof -
  have len: "length (worker p) = max_nr_processes p" "length (worker_state p) = max_nr_processes p"
    and run: "nr_processes_running p = count_of (\<lambda>s. s \<noteq> STOPPED) (worker_state p)"
    and inj: "\<forall>j < max_nr_processes p. \<forall>k < max_nr_processes p. worker p ! j \<noteq> None \<longrightarrow> worker p ! j = worker p ! k \<longrightarrow> j = k"
    and S: "\<forall>j < max_nr_processes p. worker_state p ! j = STOPPED \<longrightarrow> worker p ! j = None"
      "\<forall>j < max_nr_processes p. worker_state p ! j = BUSY \<longrightarrow> worker p ! j \<noteq> None"
      "\<forall>j < max_nr_processes p. \<not> stop p \<longrightarrow> worker_state p ! j = IDLE \<longrightarrow> worker p ! j \<noteq> None"
    using sh unfolding pool_shape_def by blast+
  have "count_of (\<lambda>s. s \<noteq> STOPPED) ((worker_state p)[j := st]) = nr_processes_running q"
    using count_slot [of j "worker_state p" "\<lambda>s. s \<noteq> STOPPED" st] q run j len by (simp add: set_slot_def)
  moreover have "x \<noteq> worker p ! k" if "x \<noteq> None" "k < max_nr_processes p" "k \<noteq> j" for k
    using that x(2) inj j len by (metis nth_mem option.exhaust)
  then have "\<forall>k < max_nr_processes p. \<forall>l < max_nr_processes p.
      (worker p)[j := x] ! k \<noteq> None \<longrightarrow> (worker p)[j := x] ! k = (worker p)[j := x] ! l \<longrightarrow> k = l"
    using inj len j by (auto simp: nth_list_update)
  moreover have "\<forall>k < max_nr_processes p. (worker_state p)[j := st] ! k = STOPPED \<longrightarrow> (worker p)[j := x] ! k = None"
    "\<forall>k < max_nr_processes p. (worker_state p)[j := st] ! k = BUSY \<longrightarrow> (worker p)[j := x] ! k \<noteq> None"
    "\<forall>k < max_nr_processes p. \<not> stop p \<longrightarrow> (worker_state p)[j := st] ! k = IDLE \<longrightarrow> (worker p)[j := x] ! k \<noteq> None"
    using S x(1) j len by (auto simp: nth_list_update)
  ultimately show ?thesis
    using q len unfolding pool_shape_def set_slot_def by simp
qed

text \<open>The three parts of the invariant that relate slots and holders, one at a time.\<close>

lemma held_busy_set_slot:
  assumes hb: "held_busy p cs" and i: "i < length cs" and j: "j < max_nr_processes p" and sh: "pool_shape p" and q: "set_slot j x st p q"
    and c: "holds c = (if st = BUSY then x else None)"
    and other: "\<And>i'. i' < length cs \<Longrightarrow> i' \<noteq> i \<Longrightarrow> worker_state p ! j \<noteq> BUSY \<or> holds (cs ! i') \<noteq> worker p ! j"
  shows "held_busy q (cs[i := c])"
  unfolding held_busy_def
proof (intro allI impI)
  fix i' w assume i': "i' < length (cs[i := c])" and w: "holds (cs[i := c] ! i') = Some w"
  have len: "length (worker p) = max_nr_processes p" "length (worker_state p) = max_nr_processes p"
    using sh by (auto simp: pool_shape_def)
  show "\<exists>k < max_nr_processes q. worker q ! k = Some w \<and> worker_state q ! k = BUSY"
  proof (cases "i' = i")
    case True
    then show ?thesis using w c q j len i by (intro exI [of _ j]) (auto simp: set_slot_def split: if_splits)
  next
    case False
    then have "holds (cs ! i') = Some w" using w by simp
    moreover then obtain k where "k < max_nr_processes p" "worker p ! k = Some w" "worker_state p ! k = BUSY"
      using hb i' unfolding held_busy_def by auto
    moreover then have "k \<noteq> j" using other [of i'] i' False calculation by auto
    ultimately show ?thesis using q by (intro exI [of _ k]) (simp add: set_slot_def)
  qed
qed

lemma held_once_set_slot:
  assumes ho: "held_once cs" and hb: "held_busy p cs" and i: "i < length cs" and j: "j < max_nr_processes p" and sh: "pool_shape p"
    and c: "holds c = (if st = BUSY then x else None)" "st = BUSY \<longrightarrow> worker_state p ! j = IDLE \<and> x = worker p ! j"
  shows "held_once (cs[i := c])"
proof -
  have "holds (cs ! i') \<noteq> holds c" if il: "i' < length cs" and cn: "holds c \<noteq> None" for i'
  proof
    assume e: "holds (cs ! i') = holds c"
    then obtain w where w: "holds (cs ! i') = Some w" "worker p ! j = Some w" "worker_state p ! j = IDLE"
      using cn c by (auto split: if_splits)
    then obtain k where "k < max_nr_processes p" "worker p ! k = Some w" "worker_state p ! k = BUSY"
      using hb il unfolding held_busy_def by blast
    then show False using slot_unique [OF sh j w(2)] w(3) by auto
  qed
  then show ?thesis using ho i unfolding held_once_def by (auto simp: nth_list_update)
qed

lemma busy_held_set_slot:
  assumes bh: "busy_held p cs" and i: "i < length cs" and j: "j < max_nr_processes p" and sh: "pool_shape p" and q: "set_slot j x st p q"
    and h: "holds (cs ! i) = (if worker_state p ! j = BUSY then worker p ! j else None)" and c: "holds c = (if st = BUSY then x else None)"
  shows "busy_held q (cs[i := c])"
  unfolding busy_held_def
proof (intro allI impI)
  have len: "length (worker p) = max_nr_processes p" "length (worker_state p) = max_nr_processes p"
    using sh by (auto simp: pool_shape_def)
  fix k assume k: "k < max_nr_processes q" and b: "worker_state q ! k = BUSY"
  show "\<exists>i' < length (cs[i := c]). holds (cs[i := c] ! i') = worker q ! k"
  proof (cases "k = j")
    case True
    then show ?thesis using b c q j len i by (intro exI [of _ i]) (auto simp: set_slot_def)
  next
    case False
    then have kb: "k < max_nr_processes p" "worker_state p ! k = BUSY" "worker q ! k = worker p ! k"
      using k b q by (simp_all add: set_slot_def)
    then obtain i' where i': "i' < length cs" "holds (cs ! i') = worker p ! k"
      using bh unfolding busy_held_def by blast
    moreover have "worker p ! k \<noteq> None" using kb sh unfolding pool_shape_def by blast
    then have "i' \<noteq> i" using i' h False kb j sh unfolding pool_shape_def by (metis (no_types))
    ultimately show ?thesis using kb by (intro exI [of _ i']) simp
  qed
qed

lemma inv_set_slot:
  assumes inv: "pool_inv s" and i: "i < length (clients s)" and j: "j < max_nr_processes (pool s)"
    and q: "set_slot j x st (pool s) q" and shq: "pool_shape q" and c: "c \<noteq> Freeing"
    and h: "holds (clients s ! i) = (if worker_state (pool s) ! j = BUSY then worker (pool s) ! j else None)"
      "holds c = (if st = BUSY then x else None)"
      "st = BUSY \<longrightarrow> worker_state (pool s) ! j = IDLE \<and> x = worker (pool s) ! j"
    and bal: "sem q + pays (owes c) + pays (worker_state (pool s) ! j = IDLE) =
              sem (pool s) + pays (owes (clients s ! i)) + pays (st = IDLE)"
  shows "pool_inv (goto i c q s)"
proof -
  let ?p = "pool s" and ?cs = "clients s"
  have sh: "pool_shape ?p" and sb: "sem_balance ?p ?cs" and hb: "held_busy ?p ?cs"
    and ho: "held_once ?cs" and bh: "busy_held ?p ?cs"
    using inv by (simp_all add: pool_inv_def)
  have len: "length (worker ?p) = max_nr_processes ?p" "length (worker_state ?p) = max_nr_processes ?p"
    using sh by (auto simp: pool_shape_def)
  have other: "worker_state ?p ! j \<noteq> BUSY \<or> holds (?cs ! i') \<noteq> worker ?p ! j"
    if "i' < length ?cs" "i' \<noteq> i" for i'
    using that ho i h(1) j sh unfolding held_once_def pool_shape_def by metis
  have "sem_balance q (?cs[i := c])"
    using owes_goto [OF i, of c] count_slot [of j "worker_state ?p" "\<lambda>s. s = IDLE" st] sb bal q j len
    unfolding sem_balance_def set_slot_def by simp
  moreover have "held_busy q (?cs[i := c])" by (rule held_busy_set_slot [OF hb i j sh q h(2) other])
  moreover have "held_once (?cs[i := c])" by (rule held_once_set_slot [OF ho hb i j sh h(2,3)])
  moreover have "busy_held q (?cs[i := c])" by (rule busy_held_set_slot [OF bh i j sh q h(1,2)])
  moreover have "Freeing \<in> set (?cs[i := c]) \<longrightarrow> stop q"
    using inv q c set_update_subset_insert [of ?cs i c] by (auto simp: pool_inv_def set_slot_def)
  ultimately show ?thesis using shq by (simp add: pool_inv_def)
qed

lemma pool_inv_free_end:
  assumes inv: "pool_inv s" and i: "i < length (clients s)" "clients s ! i = Freeing" and nb: "nr_busy (pool s) = 0"
  shows "pool_inv (goto i Outside (process_pool_free_end (pool s)) s)"
proof -
  let ?p = "pool s" and ?cs = "clients s"
  have I: "pool_shape ?p" "sem_balance ?p ?cs" "held_busy ?p ?cs" "held_once ?cs" "stop ?p"
    using inv i nth_mem [OF i(1)] by (auto simp: pool_inv_def)
  have nbusy: "worker_state ?p ! j \<noteq> BUSY" if "j < max_nr_processes ?p" for j
    using nb that I(1) by (auto simp: nr_busy_def pool_shape_def filter_empty_conv)
  have nh: "holds (?cs ! k) = None" if "k < length ?cs" for k
  proof (rule ccontr)
    assume "holds (?cs ! k) \<noteq> None"
    then obtain w where "holds (?cs ! k) = Some w" by auto
    then show False using I(3) that nbusy unfolding held_busy_def by blast
  qed
  then have nh': "holds (?cs[i := Outside] ! k) = None" if "k < length ?cs" for k
    using that by (cases "k = i") auto
  have "pool_shape (process_pool_free_end ?p)"
    using I(1,5) nbusy by (auto simp: pool_shape_def process_pool_free_end_def)
  moreover have "sem_balance (process_pool_free_end ?p) (?cs[i := Outside])"
    using owes_goto [OF i(1), of Outside] I(2) i(2) by (simp add: sem_balance_def process_pool_free_end_def pays_def)
  moreover have "held_busy (process_pool_free_end ?p) (?cs[i := Outside])" "held_once (?cs[i := Outside])"
      "busy_held (process_pool_free_end ?p) (?cs[i := Outside])"
    using nh' nbusy by (auto simp: held_busy_def held_once_def busy_held_def process_pool_free_end_def)
  ultimately show ?thesis using I(5) by (simp add: pool_inv_def process_pool_free_end_def)
qed

lemma held_slot:
  assumes "pool_inv s" "i < length (clients s)" "holds (clients s ! i) = Some w"
  obtains j where "j < max_nr_processes (pool s)" "worker (pool s) ! j = Some w" "worker_state (pool s) ! j = BUSY"
  using assms unfolding pool_inv_def held_busy_def by blast

lemma remove_set_slot:
  "pool_shape p \<Longrightarrow> j < max_nr_processes p \<Longrightarrow> worker_state p ! j = BUSY \<Longrightarrow>
   set_slot j None STOPPED p (remove_slot j p)"
proof -
  assume sh: "pool_shape p" and j: "j < max_nr_processes p" and b: "worker_state p ! j = BUSY"
  have "BUSY \<in> set (worker_state p)" using sh j b nth_mem [of j "worker_state p"] by (simp add: pool_shape_def)
  then have "0 < nr_processes_running p"
    using sh by (auto simp: pool_shape_def count_of_def filter_empty_conv)
  then show ?thesis using b by (simp add: set_slot_def remove_slot_def pays_def)
qed

lemma inv_remove:
  assumes inv: "pool_inv s" and i: "i < length (clients s)" "holds (clients s ! i) = Some w"
    and j: "j < max_nr_processes (pool s)" "worker (pool s) ! j = Some w" "worker_state (pool s) ! j = BUSY"
    and c: "holds c = None" "\<not> owes c" "c \<noteq> Freeing" "\<not> owes (clients s ! i)"
  shows "pool_inv (goto i c (remove_slot j (pool s)) s)"
proof -
  have sh: "pool_shape (pool s)" using inv by (simp add: pool_inv_def)
  note ss = remove_set_slot [OF sh j(1,3)]
  show ?thesis
    by (rule inv_set_slot [OF inv i(1) j(1) ss shape_set_slot [OF sh j(1) ss]])
       (use i j c in \<open>auto simp: pays_def remove_slot_def\<close>)
qed

lemma holds_owes: "holds c = Some w \<Longrightarrow> \<not> owes c"
  by (cases c) auto

lemma start_inv:
  assumes inv: "pool_inv s" and i: "i < length (clients s)" "clients s ! i = Starting n"
    and new: "\<forall>w. new = Some w \<longrightarrow> Some w \<notin> set (worker (pool s))"
    and st: "process_pool_start_worker new (pool s) = Some (p, nr)"
  shows "pool_inv (goto i (if nr = 0 then Outside else Waiting n) p s)"
proof -
  have sh: "pool_shape (pool s)" using inv by (simp add: pool_inv_def)
  from sh st show ?thesis
  proof (cases rule: start_worker_cases)
    case 1
    then show ?thesis using i inv by (intro inv_same_slots) (auto simp: pays_def)
  next
    case (2 j w)
    have ss: "set_slot j (Some w) IDLE (pool s) p" using 2 by (simp add: set_slot_def pays_def)
    have "pool_shape p" using 2 new by (intro shape_set_slot [OF sh _ ss]) auto
    note set = inv_set_slot [OF inv i(1) _ ss this]
    show ?thesis by (rule set) (use 2 i in \<open>simp_all add: pays_def\<close>)
  qed
qed

lemma assign_inv:
  assumes inv: "pool_inv s" and i: "i < length (clients s)" "clients s ! i = Reserved n"
    and as: "assign_worker cb (pool s) = Some (p, r)"
  shows "pool_inv (goto i (case r of None \<Rightarrow> Outside | Some w \<Rightarrow> Checking n w) p s)"
proof -
  have sh: "pool_shape (pool s)" using inv by (simp add: pool_inv_def)
  from sh as show ?thesis
  proof (cases rule: assign_cases)
    case 1
    then show ?thesis using i inv by (intro inv_same_slots) (auto simp: pays_def)
  next
    case (2 j w)
    have ss: "set_slot j (Some w) BUSY (pool s) p"
      using 2 list_update_id [of "worker (pool s)" j] by (simp add: set_slot_def pays_def)
    have "pool_shape p" using 2 by (intro shape_set_slot [OF sh _ ss]) auto
    note set = inv_set_slot [OF inv i(1) _ ss this]
    show ?thesis by (rule set) (use 2 i in \<open>simp_all add: pays_def\<close>)
  qed
qed

lemma dead_inv:
  assumes inv: "pool_inv s" and i: "i < length (clients s)" "clients s ! i = Checking n w"
  shows "pool_inv (goto i (Try (n + 1)) (mark_dead w (pool s)) s)"
proof -
  obtain j where j: "j < max_nr_processes (pool s)" "worker (pool s) ! j = Some w" "worker_state (pool s) ! j = BUSY"
    using held_slot [OF inv i(1), of w] i(2) by auto
  have sh: "pool_shape (pool s)" using inv by (simp add: pool_inv_def)
  show ?thesis unfolding mark_dead_slot [OF sh j(1,2)]
    by (rule inv_remove [OF inv i(1) _ j]) (use i in auto)
qed

lemma release_inv:
  assumes inv: "pool_inv s" and i: "i < length (clients s)" "clients s ! i = Holding w"
    and rl: "release_worker w a (pool s) = (p, running)"
  shows "pool_inv (goto i (if running then Posting else Outside) p s)"
proof -
  obtain j where j: "j < max_nr_processes (pool s)" "worker (pool s) ! j = Some w" "worker_state (pool s) ! j = BUSY"
    using held_slot [OF inv i(1), of w] i(2) by auto
  have sh: "pool_shape (pool s)" using inv by (simp add: pool_inv_def)
  note rel = release_slot [OF sh j(1,2), of a]
  show ?thesis
  proof (cases a)
    case False
    then have "p = remove_slot j (pool s)" "\<not> running" using rl rel by auto
    moreover have "pool_inv (goto i Outside (remove_slot j (pool s)) s)"
      by (rule inv_remove [OF inv i(1) _ j]) (use i in auto)
    ultimately show ?thesis by simp
  next
    case True
    then have p: "p = (pool s)\<lparr>worker_state := (worker_state (pool s))[j := IDLE]\<rparr>" "running"
      using rl rel by auto
    have ss: "set_slot j (Some w) IDLE (pool s) p"
      using p j list_update_id [of "worker (pool s)" j] by (simp add: set_slot_def pays_def)
    have "pool_shape p" using j by (intro shape_set_slot [OF sh _ ss]) auto
    note set = inv_set_slot [OF inv i(1) j(1) ss this]
    show ?thesis by (rule set) (use p j i in \<open>simp_all add: pays_def\<close>)
  qed
qed

theorem pool_inv_step: "pool_step s s' \<Longrightarrow> pool_inv s \<Longrightarrow> pool_inv s'"
proof (induction rule: pool_step.induct)
  case (start i s n new p nr)
  then show ?case by (intro start_inv)
next
  case (assign i s n cb p r)
  then show ?case by (intro assign_inv)
next
  case (dead i s n w)
  then show ?case by (intro dead_inv)
next
  case (release i s w a p running)
  then show ?case by (intro release_inv)
next
  case (free_end i s)
  then show ?case by (intro pool_inv_free_end)
qed (auto intro!: inv_same_slots simp: pays_def process_pool_free_begin_def)

lemma pool_inv_init: "pool_inv (pool_init n m)"
proof -
  have "count_of owes (replicate m Outside) = 0" "count_of (\<lambda>s. s \<noteq> STOPPED) (replicate n STOPPED) = 0"
    "count_of (\<lambda>s. s = IDLE) (replicate n STOPPED) = 0"
    by (simp_all add: count_of_def)
  then show ?thesis
    by (auto simp: pool_inv_def pool_init_def process_pool_new_def pool_shape_def sem_balance_def pays_def
        held_busy_def held_once_def busy_held_def)
qed

lemma max_step: "pool_step s s' \<Longrightarrow> max_nr_processes (pool s') = max_nr_processes (pool s)"
proof (induction rule: pool_step.induct)
  case (dead i s n w)
  have "max_nr_processes (fold (\<lambda>j p. if worker p ! j = Some w then remove_slot j p else p) js p) = max_nr_processes p" for js p
    by (induction js arbitrary: p) (auto simp: remove_slot_def)
  then show ?case by (simp add: mark_dead_def)
qed (auto simp: process_pool_start_worker_def assign_worker_def release_worker_def remove_slot_def Let_def
       process_pool_free_begin_def process_pool_free_end_def split: if_splits option.splits list.splits)

lemma pool_reach_inv:
  assumes "pool_reach (pool_init n m) s"
  shows "pool_inv s \<and> max_nr_processes (pool s) = n"
  using assms
  by (induction rule: rtranclp_induct)
     (auto simp: pool_inv_init pool_inv_step max_step, simp add: pool_init_def process_pool_new_def)

end
