(* ===== verification/PoolList.thy ===== *)
theory PoolList
  imports ProcessPool
begin

text \<open>
  The process pools in memory: the allocation of a pool by process_pool_new(), the list of all pools
  that starts at first_pool, and process_pool_cleanup(), which runs at exit (src/src/util/process_pool.c).

  The record memory has one heap for each type of block: the pools, the two arrays of a pool, the
  strings, the argument vectors, and the handles of src/src/lib/hdfstream.c, which theory Handles
  uses.  A semaphore or mutex that is initialised is an element of a set, under the address of its
  pool.  Theory ProcessPool works on the contents of one pool; pool_at reads them from the memory
  and pool_store writes them back.
\<close>

section \<open>Memory\<close>

record pool_struct =
  ps_max_nr_processes :: nat
  ps_nr_processes_running :: nat
  ps_executable :: addr
  ps_nargs :: nat
  ps_args :: addr
  ps_worker :: addr
  ps_worker_state :: addr
  ps_sem :: nat
  ps_data :: addr
  ps_next :: nat
  ps_stop :: bool
  ps_next_pool :: addr

record hdfstream_struct =
  hh_max_open_files :: int
  hh_max_open_datasets :: int
  hh_executable :: addr
  hh_pool :: addr

record memory =
  pm_pools :: "pool_struct heap"
  pm_workers :: "addr option list heap"
  pm_states :: "worker_state list heap"
  pm_strings :: "string heap"
  pm_args :: "addr list heap"
  pm_handles :: "hdfstream_struct heap"
  pm_sems :: "addr set"
  pm_mutexes :: "addr set"
  pm_first :: addr
  pm_atexit :: nat

text \<open>sem_destroy() and pthread_mutex_destroy().\<close>

definition destroy :: "addr \<Rightarrow> addr set \<Rightarrow> addr set option" where
  "destroy a S = (if a \<in> S then Some (S - {a}) else None)"

section \<open>A new pool\<close>

text \<open>What malloc() returns, in the order of the calls; ml_arg has one address for each argument.\<close>

record pool_mallocs =
  ml_pool :: addr
  ml_worker :: addr
  ml_state :: addr
  ml_executable :: addr
  ml_args :: addr
  ml_arg :: "addr list"

definition store_arguments :: "pool_mallocs \<Rightarrow> string \<Rightarrow> string list \<Rightarrow> memory \<Rightarrow> memory" where
  "store_arguments ml executable args m =
     (let nargs = length args;
          strings = (pm_strings m)(ml_executable ml \<mapsto> executable);
          strings = fold (\<lambda>(a, s) h. h(a \<mapsto> s)) (zip (ml_arg ml) args) strings
      in m\<lparr>pm_strings := strings, pm_args := (pm_args m)(ml_args ml \<mapsto> take nargs (ml_arg ml) @ [NULL])\<rparr>)"

definition prepend_pool :: "addr \<Rightarrow> memory \<Rightarrow> memory option" where
  "prepend_pool p m = do {
     let m = (if pm_first m = NULL then m\<lparr>pm_atexit := pm_atexit m + 1\<rparr> else m);
     pools \<leftarrow> update (pm_pools m) p (\<lambda>ps. ps\<lparr>ps_next_pool := pm_first m\<rparr>);
     Some (m\<lparr>pm_pools := pools, pm_first := p\<rparr>) }"

text \<open>
  The whole of process_pool_new(); junk is what malloc() leaves in the new block, and the result NULL
  is the pointer returned when an initialisation fails.
\<close>

definition new_pool ::
  "pool_mallocs \<Rightarrow> pool_struct \<Rightarrow> bool \<Rightarrow> bool \<Rightarrow> nat \<Rightarrow> string \<Rightarrow> string list \<Rightarrow> addr \<Rightarrow> memory \<Rightarrow> (memory \<times> addr) option" where
  "new_pool ml junk sem_ok mutex_ok n executable args data m = do {
     let p = ml_pool ml;
     let m = m\<lparr>pm_pools := (pm_pools m)(p \<mapsto> junk\<lparr>ps_next := 0, ps_data := data, ps_stop := False\<rparr>)\<rparr>;
     (if \<not> sem_ok then do {
        pools \<leftarrow> dealloc (pm_pools m) p;
        Some (m\<lparr>pm_pools := pools\<rparr>, NULL) }
      else do {
        pools \<leftarrow> update (pm_pools m) p (\<lambda>ps. ps\<lparr>ps_sem := 0\<rparr>);
        let m = m\<lparr>pm_pools := pools, pm_sems := insert p (pm_sems m)\<rparr>;
        (if \<not> mutex_ok then do {
           sems \<leftarrow> destroy p (pm_sems m);
           pools \<leftarrow> dealloc (pm_pools m) p;
           Some (m\<lparr>pm_pools := pools, pm_sems := sems\<rparr>, NULL) }
         else do {
           pools \<leftarrow> update (pm_pools m) p (\<lambda>ps. ps\<lparr>ps_max_nr_processes := n, ps_worker := ml_worker ml,
             ps_worker_state := ml_state ml, ps_nr_processes_running := 0, ps_executable := ml_executable ml,
             ps_nargs := length args, ps_args := ml_args ml\<rparr>);
           let m = m\<lparr>pm_pools := pools, pm_mutexes := insert p (pm_mutexes m),
             pm_workers := (pm_workers m)(ml_worker ml \<mapsto> replicate n None),
             pm_states := (pm_states m)(ml_state ml \<mapsto> replicate n STOPPED)\<rparr>;
           m \<leftarrow> prepend_pool p (store_arguments ml executable args m);
           Some (m, p) }) }) }"

section \<open>The pool at an address\<close>

definition pool_at :: "memory \<Rightarrow> addr \<Rightarrow> process_pool option" where
  "pool_at m p = do {
     ps \<leftarrow> load (pm_pools m) p;
     ws \<leftarrow> load (pm_workers m) (ps_worker ps);
     ss \<leftarrow> load (pm_states m) (ps_worker_state ps);
     Some \<lparr>max_nr_processes = ps_max_nr_processes ps, nr_processes_running = ps_nr_processes_running ps,
           worker = ws, worker_state = ss, sem = ps_sem ps, next_worker = ps_next ps, stop = ps_stop ps\<rparr> }"

definition pool_store :: "addr \<Rightarrow> process_pool \<Rightarrow> memory \<Rightarrow> memory option" where
  "pool_store p q m = do {
     ps \<leftarrow> load (pm_pools m) p;
     ws \<leftarrow> update (pm_workers m) (ps_worker ps) (\<lambda>_. worker q);
     ss \<leftarrow> update (pm_states m) (ps_worker_state ps) (\<lambda>_. worker_state q);
     pools \<leftarrow> update (pm_pools m) p (\<lambda>ps. ps\<lparr>ps_nr_processes_running := nr_processes_running q, ps_sem := sem q,
       ps_next := next_worker q, ps_stop := stop q\<rparr>);
     Some (m\<lparr>pm_workers := ws, pm_states := ss, pm_pools := pools\<rparr>) }"

text \<open>The executable and the arguments that process_pool_start_worker() passes to worker_process_new().\<close>

fun load_strings :: "string heap \<Rightarrow> addr list \<Rightarrow> string list option" where
  "load_strings h [] = Some []"
| "load_strings h (a # as) =
     (if a = NULL then Some []
      else do { s \<leftarrow> load h a; ss \<leftarrow> load_strings h as; Some (s # ss) })"

definition pool_command :: "memory \<Rightarrow> addr \<Rightarrow> (string \<times> string list) option" where
  "pool_command m p = do {
     ps \<leftarrow> load (pm_pools m) p;
     executable \<leftarrow> load (pm_strings m) (ps_executable ps);
     argv \<leftarrow> load (pm_args m) (ps_args ps);
     args \<leftarrow> load_strings (pm_strings m) argv;
     Some (executable, args) }"

section \<open>Cleanup\<close>

fun free_strings :: "addr list \<Rightarrow> string heap \<Rightarrow> string heap option" where
  "free_strings [] h = Some h"
| "free_strings (a # as) h = do { h \<leftarrow> dealloc h a; free_strings as h }"

text \<open>One round of the loop of process_pool_cleanup(), with the pool to go on with.\<close>

definition free_pool :: "addr \<Rightarrow> memory \<Rightarrow> (memory \<times> addr) option" where
  "free_pool p m = do {
     ps \<leftarrow> load (pm_pools m) p;
     workers \<leftarrow> dealloc (pm_workers m) (ps_worker ps);
     states \<leftarrow> dealloc (pm_states m) (ps_worker_state ps);
     mutexes \<leftarrow> destroy p (pm_mutexes m);
     sems \<leftarrow> destroy p (pm_sems m);
     strings \<leftarrow> dealloc (pm_strings m) (ps_executable ps);
     argv \<leftarrow> load (pm_args m) (ps_args ps);
     c_assert (ps_nargs ps \<le> length argv);
     strings \<leftarrow> free_strings (take (ps_nargs ps) argv) strings;
     args \<leftarrow> dealloc (pm_args m) (ps_args ps);
     pools \<leftarrow> dealloc (pm_pools m) p;
     Some (m\<lparr>pm_pools := pools, pm_workers := workers, pm_states := states, pm_strings := strings,
             pm_args := args, pm_sems := sems, pm_mutexes := mutexes\<rparr>, ps_next_pool ps) }"

partial_function (option) cleanup_loop :: "addr \<Rightarrow> memory \<Rightarrow> memory option" where
  "cleanup_loop p m =
     (if p = NULL then Some m
      else do { (m, next) \<leftarrow> free_pool p m; cleanup_loop next m })"

definition process_pool_cleanup :: "memory \<Rightarrow> memory option" where
  "process_pool_cleanup m = do {
     m \<leftarrow> cleanup_loop (pm_first m) m;
     Some (m\<lparr>pm_first := NULL\<rparr>) }"

section \<open>What freeing a pool needs and leaves\<close>

text \<open>The strings of a pool: its executable and its arguments.\<close>

definition pool_strings :: "pool_struct \<Rightarrow> addr list \<Rightarrow> addr list" where
  "pool_strings ps argv = ps_executable ps # take (ps_nargs ps) argv"

definition owns :: "memory \<Rightarrow> addr \<Rightarrow> pool_struct \<Rightarrow> addr list \<Rightarrow> bool" where
  "owns m p ps argv \<longleftrightarrow>
     p \<noteq> NULL \<and> pm_pools m p = Some ps \<and>
     ps_worker ps \<noteq> NULL \<and> ps_worker ps \<in> dom (pm_workers m) \<and>
     ps_worker_state ps \<noteq> NULL \<and> ps_worker_state ps \<in> dom (pm_states m) \<and>
     p \<in> pm_mutexes m \<and> p \<in> pm_sems m \<and>
     ps_args ps \<noteq> NULL \<and> pm_args m (ps_args ps) = Some argv \<and> ps_nargs ps \<le> length argv \<and>
     distinct (pool_strings ps argv) \<and> NULL \<notin> set (pool_strings ps argv) \<and>
     set (pool_strings ps argv) \<subseteq> dom (pm_strings m)"

definition without_pool :: "addr \<Rightarrow> pool_struct \<Rightarrow> addr list \<Rightarrow> memory \<Rightarrow> memory" where
  "without_pool p ps argv m =
     m\<lparr>pm_pools := (pm_pools m)(p := None), pm_workers := (pm_workers m)(ps_worker ps := None),
       pm_states := (pm_states m)(ps_worker_state ps := None),
       pm_strings := pm_strings m |` (- set (pool_strings ps argv)),
       pm_args := (pm_args m)(ps_args ps := None), pm_sems := pm_sems m - {p}, pm_mutexes := pm_mutexes m - {p}\<rparr>"

lemma dealloc_eq_Some: "dealloc h a = Some h' \<longleftrightarrow> a \<noteq> NULL \<and> a \<in> dom h \<and> h' = h(a := None)"
  by (auto simp: dealloc_def load_def split: option.splits)

lemma load_eq_Some: "load h a = Some c \<longleftrightarrow> a \<noteq> NULL \<and> h a = Some c"
  by (simp add: load_def)

lemma destroy_eq_Some: "destroy a S = Some S' \<longleftrightarrow> a \<in> S \<and> S' = S - {a}"
  by (auto simp: destroy_def)

lemma c_assert_eq_Some: "c_assert b = Some u \<longleftrightarrow> b"
  by (simp add: c_assert_def)

lemma upd_restrict: "h(a := None) |` (- S) = h |` (- insert a S)"
  by (rule ext) (simp add: restrict_map_def)

lemma free_strings_eq_Some:
  "free_strings as h = Some h' \<longleftrightarrow>
   distinct as \<and> NULL \<notin> set as \<and> set as \<subseteq> dom h \<and> h' = h |` (- set as)"
proof (induction as arbitrary: h)
  case Nil
  then show ?case by (auto simp: restrict_map_def)
next
  case (Cons a as)
  have "free_strings (a # as) h = Some h' \<longleftrightarrow> a \<noteq> NULL \<and> a \<in> dom h \<and> free_strings as (h(a := None)) = Some h'"
    by (auto simp: bind_eq_Some_conv dealloc_eq_Some)
  also have "\<dots> \<longleftrightarrow> distinct (a # as) \<and> NULL \<notin> set (a # as) \<and> set (a # as) \<subseteq> dom h \<and> h' = h |` (- set (a # as))"
    unfolding Cons.IH upd_restrict by auto
  finally show ?case .
qed

lemma free_pool_eq_Some:
  "free_pool p m = Some (n, q) \<longleftrightarrow> (\<exists>ps argv. owns m p ps argv \<and> n = without_pool p ps argv m \<and> q = ps_next_pool ps)"
proof -
  have "free_pool p m = Some (n, q) \<longleftrightarrow>
    (\<exists>ps argv. (p \<noteq> NULL \<and> pm_pools m p = Some ps) \<and> (ps_worker ps \<noteq> NULL \<and> ps_worker ps \<in> dom (pm_workers m)) \<and>
      (ps_worker_state ps \<noteq> NULL \<and> ps_worker_state ps \<in> dom (pm_states m)) \<and> p \<in> pm_mutexes m \<and> p \<in> pm_sems m \<and>
      (ps_executable ps \<noteq> NULL \<and> ps_executable ps \<in> dom (pm_strings m)) \<and>
      (ps_args ps \<noteq> NULL \<and> pm_args m (ps_args ps) = Some argv) \<and> ps_nargs ps \<le> length argv \<and>
      distinct (take (ps_nargs ps) argv) \<and> NULL \<notin> set (take (ps_nargs ps) argv) \<and>
      set (take (ps_nargs ps) argv) \<subseteq> dom (pm_strings m) - {ps_executable ps} \<and>
      n = without_pool p ps argv m \<and> q = ps_next_pool ps)"
    unfolding free_pool_def without_pool_def pool_strings_def
    by (simp add: bind_eq_Some_conv dealloc_eq_Some load_eq_Some destroy_eq_Some c_assert_eq_Some free_strings_eq_Some
      upd_restrict domI del: restrict_fun_upd cong: conj_cong)
      blast
  also have "\<dots> \<longleftrightarrow> (\<exists>ps argv. owns m p ps argv \<and> n = without_pool p ps argv m \<and> q = ps_next_pool ps)"
    unfolding owns_def pool_strings_def by auto
  finally show ?thesis .
qed

section \<open>The pools of the list own the memory\<close>

definition no_pools :: "string heap \<Rightarrow> memory \<Rightarrow> bool" where
  "no_pools R m \<longleftrightarrow> pm_pools m = Map.empty \<and> pm_workers m = Map.empty \<and> pm_states m = Map.empty \<and>
     pm_args m = Map.empty \<and> pm_strings m = R \<and> pm_sems m = {} \<and> pm_mutexes m = {}"

text \<open>
  The list from p has the pools as, they own what belongs to pools, and besides their own strings there
  are only those of R.
\<close>

fun pools_owned :: "string heap \<Rightarrow> memory \<Rightarrow> addr \<Rightarrow> addr list \<Rightarrow> bool" where
  "pools_owned R m p [] \<longleftrightarrow> p = NULL \<and> no_pools R m"
| "pools_owned R m p (a # as) \<longleftrightarrow>
     p = a \<and> (\<exists>ps argv. owns m a ps argv \<and> pools_owned R (without_pool a ps argv m) (ps_next_pool ps) as)"

lemma cleanup_owned:
  "pools_owned R m p as \<Longrightarrow>
   \<exists>m'. cleanup_loop p m = Some m' \<and> no_pools R m' \<and> pm_handles m' = pm_handles m \<and> pm_atexit m' = pm_atexit m"
proof (induction as arbitrary: m p)
  case Nil
  then show ?case by (simp add: cleanup_loop.simps)
next
  case (Cons a as)
  then obtain ps argv where o: "p = a" "owns m a ps argv" "pools_owned R (without_pool a ps argv m) (ps_next_pool ps) as"
    by auto
  then have "free_pool p m = Some (without_pool a ps argv m, ps_next_pool ps)" "p \<noteq> NULL"
    by (auto simp: free_pool_eq_Some owns_def)
  then have "cleanup_loop p m = cleanup_loop (ps_next_pool ps) (without_pool a ps argv m)"
    by (subst cleanup_loop.simps) simp
  then show ?case using Cons.IH [OF o(3)] by (simp add: without_pool_def)
qed

text \<open>Only the addresses matter, not the contents of the blocks.\<close>

definition pointers :: "pool_struct \<Rightarrow> addr \<times> nat \<times> addr \<times> addr \<times> addr \<times> addr" where
  "pointers ps = (ps_executable ps, ps_nargs ps, ps_args ps, ps_worker ps, ps_worker_state ps, ps_next_pool ps)"

definition same_blocks :: "memory \<Rightarrow> memory \<Rightarrow> bool" where
  "same_blocks m m' \<longleftrightarrow>
     (\<forall>p. map_option pointers (pm_pools m p) = map_option pointers (pm_pools m' p)) \<and>
     dom (pm_workers m) = dom (pm_workers m') \<and> dom (pm_states m) = dom (pm_states m') \<and>
     pm_strings m = pm_strings m' \<and> pm_args m = pm_args m' \<and> pm_sems m = pm_sems m' \<and> pm_mutexes m = pm_mutexes m'"

lemma owns_same:
  assumes "owns m p ps argv" and same: "same_blocks m m'"
  obtains ps' where "owns m' p ps' argv" "pointers ps' = pointers ps"
    "same_blocks (without_pool p ps argv m) (without_pool p ps' argv m')"
proof -
  have "map_option pointers (pm_pools m p) = map_option pointers (pm_pools m' p)"
    using same unfolding same_blocks_def by blast
  moreover have "pm_pools m p = Some ps" using assms(1) by (simp add: owns_def)
  ultimately obtain ps' where ps': "pm_pools m' p = Some ps'" "pointers ps' = pointers ps"
    by (cases "pm_pools m' p") auto
  then have ptr: "pool_strings ps' argv = pool_strings ps argv" "ps_args ps' = ps_args ps" "ps_worker ps' = ps_worker ps"
    "ps_worker_state ps' = ps_worker_state ps" "ps_nargs ps' = ps_nargs ps"
    by (simp_all add: pointers_def pool_strings_def)
  have "owns m' p ps' argv" using assms ps'(1) ptr by (simp add: owns_def same_blocks_def)
  moreover have "same_blocks (without_pool p ps argv m) (without_pool p ps' argv m')"
    using same ptr by (simp add: same_blocks_def without_pool_def)
  ultimately show thesis using that ps'(2) by blast
qed

lemma pools_owned_same: "pools_owned R m p as \<Longrightarrow> same_blocks m m' \<Longrightarrow> pools_owned R m' p as"
proof (induction as arbitrary: m m' p)
  case Nil
  then have "pm_pools m' = Map.empty" by (intro ext) (auto simp: same_blocks_def no_pools_def)
  then show ?case using Nil by (auto simp: same_blocks_def no_pools_def)
next
  case (Cons a as)
  then obtain ps argv where o: "p = a" "owns m a ps argv" "pools_owned R (without_pool a ps argv m) (ps_next_pool ps) as"
    by auto
  obtain ps' where o': "owns m' a ps' argv" "pointers ps' = pointers ps"
    "same_blocks (without_pool a ps argv m) (without_pool a ps' argv m')"
    using o(2) Cons.prems(2) by (rule owns_same)
  then have "ps_next_pool ps' = ps_next_pool ps" by (simp add: pointers_def)
  then have "pools_owned R (without_pool a ps' argv m') (ps_next_pool ps') as" using Cons.IH [OF o(3) o'(3)] by simp
  then show ?case using o'(1) o(1) by (simp only: pools_owned.simps) blast
qed

text \<open>Strings that belong to no pool come and go.\<close>

lemma pools_owned_rest: "pools_owned R m p as \<Longrightarrow> R x = Some s \<Longrightarrow> pm_strings m x = Some s"
proof (induction as arbitrary: m p)
  case (Cons a as)
  then obtain ps argv where "pm_strings (without_pool a ps argv m) x = Some s" by auto
  then show ?case by (auto simp: without_pool_def restrict_map_def split: if_splits)
qed (simp add: no_pools_def)

lemma pools_owned_string:
  "pools_owned R m p as \<Longrightarrow> pm_strings m x = None \<or> R x \<noteq> None \<Longrightarrow>
   pools_owned (R(x := v)) (m\<lparr>pm_strings := (pm_strings m)(x := v)\<rparr>) p as"
proof (induction as arbitrary: m p)
  case Nil
  then show ?case by (simp add: no_pools_def)
next
  case (Cons a as)
  let ?m = "m\<lparr>pm_strings := (pm_strings m)(x := v)\<rparr>"
  obtain ps argv where o: "p = a" "owns m a ps argv" "pools_owned R (without_pool a ps argv m) (ps_next_pool ps) as"
    using Cons.prems by auto
  have x: "x \<notin> set (pool_strings ps argv)"
  proof
    assume "x \<in> set (pool_strings ps argv)"
    moreover from this have "pm_strings (without_pool a ps argv m) x = None" by (simp add: without_pool_def restrict_map_def)
    ultimately show False using o(2) pools_owned_rest [OF o(3), of x] Cons.prems(2) by (auto simp: owns_def)
  qed
  have owns: "owns ?m a ps argv" using o(2) x by (auto simp: owns_def)
  have eq: "without_pool a ps argv ?m =
      (without_pool a ps argv m)\<lparr>pm_strings := (pm_strings (without_pool a ps argv m))(x := v)\<rparr>"
    using x by (simp add: without_pool_def fun_eq_iff restrict_map_def)
  have "pm_strings (without_pool a ps argv m) x = None \<or> R x \<noteq> None"
    using Cons.prems(2) by (auto simp: without_pool_def restrict_map_def)
  note m' = this
  have "pools_owned (R(x := v)) (without_pool a ps argv ?m) (ps_next_pool ps) as"
    unfolding eq by (rule Cons.IH [OF o(3) m'])
  then show ?case using o(1) owns by (simp only: pools_owned.simps) blast
qed

text \<open>The pools have blocks of their own.\<close>

lemma owns_without:
  assumes "owns (without_pool a ps0 argv0 m) b ps argv"
  shows "owns m b ps argv \<and> b \<noteq> a \<and> ps_worker ps \<noteq> ps_worker ps0 \<and> ps_worker_state ps \<noteq> ps_worker_state ps0 \<and>
    set (pool_strings ps argv) \<inter> set (pool_strings ps0 argv0) = {}"
  using assms by (auto simp: owns_def without_pool_def split: if_splits)

lemma pools_owned_owns: "pools_owned R m p as \<Longrightarrow> b \<in> set as \<Longrightarrow> \<exists>ps argv. owns m b ps argv"
proof (induction as arbitrary: m p)
  case (Cons a as)
  then show ?case using owns_without by (cases "b = a") (auto, blast)
qed simp

lemma pools_owned_dom: "pools_owned R m p as \<Longrightarrow> dom (pm_pools m) = set as \<and> distinct as"
proof (induction as arbitrary: m p)
  case (Cons a as)
  then obtain ps argv where o: "owns m a ps argv" "pools_owned R (without_pool a ps argv m) (ps_next_pool ps) as"
    by auto
  have "dom (pm_pools m) - {a} = set as \<and> distinct as" using Cons.IH [OF o(2)] by (simp add: without_pool_def flip: fun_upd_def)
  then show ?case using o(1) by (auto simp: owns_def)
qed (simp add: no_pools_def)

lemma pools_owned_apart:
  "pools_owned R m p as \<Longrightarrow> pm_pools m a = Some ps \<Longrightarrow> pm_pools m b = Some ps' \<Longrightarrow> a \<noteq> b \<Longrightarrow>
   ps_worker ps \<noteq> ps_worker ps' \<and> ps_worker_state ps \<noteq> ps_worker_state ps'"
proof (induction as arbitrary: m p)
  case Nil
  then show ?case by (simp add: no_pools_def)
next
  case (Cons c as)
  then obtain pc argv where o: "owns m c pc argv" "pools_owned R (without_pool c pc argv m) (ps_next_pool pc) as"
    by auto
  have sub: "x \<in> set as" if "pm_pools m x = Some y" "x \<noteq> c" for x y
    using that pools_owned_dom [OF o(2)] by (auto simp: without_pool_def)
  have apart: "ps_worker y \<noteq> ps_worker pc \<and> ps_worker_state y \<noteq> ps_worker_state pc" if y: "pm_pools m x = Some y" "x \<noteq> c" for x y
  proof -
    obtain py argvy where py: "owns (without_pool c pc argv m) x py argvy" using pools_owned_owns [OF o(2) sub [OF y]] by blast
    from owns_without [OF this] have "pm_pools m x = Some py" by (simp add: owns_def)
    then show ?thesis using owns_without [OF py] y(1) by simp
  qed
  have pc: "pm_pools m c = Some pc" using o(1) by (simp add: owns_def)
  show ?case
  proof (cases "a = c \<or> b = c")
    case True
    then show ?thesis using apart [OF Cons.prems(2)] apart [OF Cons.prems(3)] Cons.prems(2-4) pc by auto
  next
    case False
    then show ?thesis using Cons.IH [OF o(2)] Cons.prems by (simp add: without_pool_def)
  qed
qed

lemma pools_owned_sems: "pools_owned R m p as \<Longrightarrow> pm_sems m = set as \<and> pm_mutexes m = set as"
proof (induction as arbitrary: m p)
  case (Cons a as)
  then obtain ps argv where o: "owns m a ps argv" "pools_owned R (without_pool a ps argv m) (ps_next_pool ps) as"
    by auto
  have "pm_sems m - {a} = set as \<and> pm_mutexes m - {a} = set as" using Cons.IH [OF o(2)] by (simp add: without_pool_def)
  moreover have "a \<in> pm_sems m" "a \<in> pm_mutexes m" using o(1) by (simp_all add: owns_def)
  ultimately show ?case by auto
qed (simp add: no_pools_def)

section \<open>A new pool is added to the list\<close>

definition mallocs_ok :: "pool_mallocs \<Rightarrow> nat \<Rightarrow> memory \<Rightarrow> bool" where
  "mallocs_ok ml nargs m \<longleftrightarrow>
     fresh (pm_pools m) (ml_pool ml) \<and> fresh (pm_workers m) (ml_worker ml) \<and> fresh (pm_states m) (ml_state ml) \<and>
     fresh (pm_args m) (ml_args ml) \<and> length (ml_arg ml) = nargs \<and> distinct (ml_executable ml # ml_arg ml) \<and>
     list_all (fresh (pm_strings m)) (ml_executable ml # ml_arg ml)"

definition new_struct :: "pool_mallocs \<Rightarrow> pool_struct \<Rightarrow> nat \<Rightarrow> nat \<Rightarrow> addr \<Rightarrow> addr \<Rightarrow> pool_struct" where
  "new_struct ml junk n nargs data next =
     junk\<lparr>ps_max_nr_processes := n, ps_nr_processes_running := 0, ps_executable := ml_executable ml, ps_nargs := nargs,
          ps_args := ml_args ml, ps_worker := ml_worker ml, ps_worker_state := ml_state ml, ps_sem := 0, ps_data := data,
          ps_next := 0, ps_stop := False, ps_next_pool := next\<rparr>"

definition new_strings :: "pool_mallocs \<Rightarrow> string \<Rightarrow> string list \<Rightarrow> string heap \<Rightarrow> string heap" where
  "new_strings ml executable args h = h ++ map_of (zip (ml_executable ml # ml_arg ml) (executable # args))"

definition with_pool :: "pool_mallocs \<Rightarrow> pool_struct \<Rightarrow> nat \<Rightarrow> string \<Rightarrow> string list \<Rightarrow> addr \<Rightarrow> memory \<Rightarrow> memory" where
  "with_pool ml junk n executable args data m =
     m\<lparr>pm_pools := (pm_pools m)(ml_pool ml \<mapsto> new_struct ml junk n (length args) data (pm_first m)),
       pm_workers := (pm_workers m)(ml_worker ml \<mapsto> replicate n None),
       pm_states := (pm_states m)(ml_state ml \<mapsto> replicate n STOPPED),
       pm_strings := new_strings ml executable args (pm_strings m),
       pm_args := (pm_args m)(ml_args ml \<mapsto> ml_arg ml @ [NULL]),
       pm_sems := insert (ml_pool ml) (pm_sems m), pm_mutexes := insert (ml_pool ml) (pm_mutexes m),
       pm_first := ml_pool ml, pm_atexit := (if pm_first m = NULL then pm_atexit m + 1 else pm_atexit m)\<rparr>"

lemma fold_strings:
  "distinct as \<Longrightarrow> length as = length ss \<Longrightarrow>
   fold (\<lambda>(a, s) h. h(a \<mapsto> s)) (zip as ss) h = h ++ map_of (zip as ss)"
proof (induction as ss arbitrary: h rule: list_induct2')
  case (4 a as s ss)
  have "map_of (zip as ss) a = None" using 4 by (simp add: map_of_zip_is_None)
  then have "h(a \<mapsto> s) ++ map_of (zip as ss) = h ++ (map_of (zip as ss))(a \<mapsto> s)"
    by (auto simp: fun_eq_iff map_add_def split: option.splits)
  moreover have "fold (\<lambda>(a, s) h. h(a \<mapsto> s)) (zip as ss) (h(a \<mapsto> s)) = h(a \<mapsto> s) ++ map_of (zip as ss)"
    using 4 by (intro 4(1)) simp_all
  ultimately show ?case by (simp del: fun_upd_apply)
qed simp_all

lemma new_pool_ok:
  assumes ml: "mallocs_ok ml (length args) m" and free: "ml_pool ml \<notin> pm_sems m" 
  shows "new_pool ml junk sem_ok mutex_ok n executable args data m =
    Some (if sem_ok \<and> mutex_ok then (with_pool ml junk n executable args data m, ml_pool ml) else (m, NULL))"
proof -
  have p: "ml_pool ml \<noteq> NULL" "(pm_pools m)(ml_pool ml := None) = pm_pools m"
    using ml by (auto simp: mallocs_ok_def fresh_def)
  have "fold (\<lambda>(a, s) h. h(a \<mapsto> s)) (zip (ml_arg ml) args) ((pm_strings m)(ml_executable ml \<mapsto> executable)) =
      new_strings ml executable args (pm_strings m)"
    using ml fold_strings [of "ml_executable ml # ml_arg ml" "executable # args" "pm_strings m"]
    by (simp add: mallocs_ok_def new_strings_def)
  moreover have "take (length args) (ml_arg ml) = ml_arg ml" using ml by (simp add: mallocs_ok_def)
  ultimately show ?thesis using p free
    by (cases m, cases junk)
      (simp add: new_pool_def with_pool_def new_struct_def prepend_pool_def store_arguments_def heap_simps Let_def destroy_def)
qed

lemma new_strings_lookup:
  assumes "distinct (ml_executable ml # ml_arg ml)" "length (ml_arg ml) = length args"
  shows "new_strings ml executable args h (ml_executable ml) = Some executable"
    and "i < length args \<Longrightarrow> new_strings ml executable args h (ml_arg ml ! i) = Some (args ! i)"
    and "a \<notin> set (ml_executable ml # ml_arg ml) \<Longrightarrow> new_strings ml executable args h a = h a"
    and "new_strings ml executable args h |` (- set (ml_executable ml # ml_arg ml)) = h |` (- set (ml_executable ml # ml_arg ml))"
proof -
  have e: "ml_arg ml ! i \<noteq> ml_executable ml" if "i < length args" for i
    using assms that by (metis distinct.simps(2) nth_mem)
  show "new_strings ml executable args h (ml_executable ml) = Some executable" by (simp add: new_strings_def map_add_def)
  show "i < length args \<Longrightarrow> new_strings ml executable args h (ml_arg ml ! i) = Some (args ! i)"
    using assms e by (simp add: new_strings_def map_add_def map_of_zip_nth)
  show other: "a \<notin> set (ml_executable ml # ml_arg ml) \<Longrightarrow> new_strings ml executable args h a = h a" for a
    using assms by (auto simp: new_strings_def map_add_def split: option.split dest!: map_of_SomeD set_zip_leftD)
  show "new_strings ml executable args h |` (- set (ml_executable ml # ml_arg ml)) = h |` (- set (ml_executable ml # ml_arg ml))"
    using other by (simp add: fun_eq_iff restrict_map_def)
qed

lemma restrict_fresh: "list_all (fresh h) as \<Longrightarrow> h |` (- set as) = h"
  by (auto simp: fun_eq_iff restrict_map_def list_all_iff fresh_def)

lemma new_pool_owned:
  assumes ml: "mallocs_ok ml (length args) m" and own: "pools_owned R m (pm_first m) as"
  shows "pools_owned R (with_pool ml junk n executable args data m) (ml_pool ml) (ml_pool ml # as)"
proof -
  let ?m = "with_pool ml junk n executable args data m" and ?ps = "new_struct ml junk n (length args) data (pm_first m)"
  have fr: "pm_pools m (ml_pool ml) = None" "pm_workers m (ml_worker ml) = None" "pm_states m (ml_state ml) = None"
    "pm_args m (ml_args ml) = None" "length (ml_arg ml) = length args" "distinct (ml_executable ml # ml_arg ml)"
    "list_all (fresh (pm_strings m)) (ml_executable ml # ml_arg ml)"
    using ml by (simp_all add: mallocs_ok_def fresh_def)
  have s: "pool_strings ?ps (ml_arg ml @ [NULL]) = ml_executable ml # ml_arg ml"
    using fr by (simp add: pool_strings_def new_struct_def)
  have "set (ml_executable ml # ml_arg ml) \<subseteq> dom (pm_strings ?m)"
  proof
    fix a assume "a \<in> set (ml_executable ml # ml_arg ml)"
    then show "a \<in> dom (pm_strings ?m)"
      using new_strings_lookup(1,2) [OF fr(6,5)] fr(5) by (auto simp: in_set_conv_nth with_pool_def)
  qed
  moreover have "NULL \<notin> set (ml_executable ml # ml_arg ml)" using fr(7) by (auto simp: list_all_iff fresh_def)
  ultimately have "owns ?m (ml_pool ml) ?ps (ml_arg ml @ [NULL])"
    using ml fr unfolding owns_def s by (simp add: with_pool_def new_struct_def mallocs_ok_def fresh_def)
  moreover have "same_blocks m (without_pool (ml_pool ml) ?ps (ml_arg ml @ [NULL]) ?m)"
  proof -
    have "ml_pool ml \<notin> pm_sems m" "ml_pool ml \<notin> pm_mutexes m"
      using fr(1) pools_owned_sems [OF own] pools_owned_dom [OF own] by auto
    moreover have "pm_strings m = pm_strings ?m |` (- set (ml_executable ml # ml_arg ml))"
      using new_strings_lookup(4) [OF fr(6,5)] restrict_fresh [OF fr(7)] by (simp add: with_pool_def)
    ultimately show ?thesis
      using fr unfolding same_blocks_def without_pool_def s by (auto simp: with_pool_def new_struct_def)
  qed
  then have "pools_owned R (without_pool (ml_pool ml) ?ps (ml_arg ml @ [NULL]) ?m) (pm_first m) as"
    using own pools_owned_same by blast
  moreover have "ps_next_pool ?ps = pm_first m" by (simp add: new_struct_def)
  ultimately show ?thesis unfolding pools_owned.simps by metis
qed

lemma new_pool_at:
  "mallocs_ok ml nargs m \<Longrightarrow> pool_at (with_pool ml junk n executable args data m) (ml_pool ml) = Some (process_pool_new n)"
  by (simp add: pool_at_def with_pool_def new_struct_def process_pool_new_def mallocs_ok_def fresh_def heap_simps)

lemma load_strings_nth:
  "(\<And>i. i < length as \<Longrightarrow> as ! i \<noteq> NULL \<and> h (as ! i) = Some (ss ! i)) \<Longrightarrow> length as = length ss \<Longrightarrow>
   load_strings h (as @ [NULL]) = Some ss"
proof (induction as arbitrary: ss)
  case (Cons a as)
  then obtain s ss' where ss: "ss = s # ss'" by (cases ss) auto
  have "load_strings h (as @ [NULL]) = Some ss'"
  proof (rule Cons.IH)
    fix i assume "i < length as"
    then show "as ! i \<noteq> NULL \<and> h (as ! i) = Some (ss' ! i)" using Cons.prems(1) [of "Suc i"] ss by simp
  qed (use Cons.prems(2) ss in simp)
  then show ?case using Cons.prems(1) [of 0] ss by (simp add: heap_simps)
qed simp

lemma new_pool_command:
  assumes ml: "mallocs_ok ml (length args) m"
  shows "pool_command (with_pool ml junk n executable args data m) (ml_pool ml) = Some (executable, args)"
proof -
  have d: "distinct (ml_executable ml # ml_arg ml)" and l: "length (ml_arg ml) = length args"
    and f: "list_all (fresh (pm_strings m)) (ml_executable ml # ml_arg ml)"
    using ml by (simp_all add: mallocs_ok_def)
  have "load_strings (new_strings ml executable args (pm_strings m)) (ml_arg ml @ [NULL]) = Some args"
    using new_strings_lookup(2) [OF d l] f l
    by (intro load_strings_nth) (auto simp: list_all_iff fresh_def)
  then show ?thesis
    using ml f new_strings_lookup(1) [OF d l]
    by (simp add: pool_command_def with_pool_def new_struct_def mallocs_ok_def fresh_def heap_simps)
qed

section \<open>Operations on one pool leave the others alone\<close>

lemma pool_store_ok:
  assumes own: "pools_owned R m p as" and at: "pool_at m a = Some q0" and q: "max_nr_processes q = max_nr_processes q0"
  obtains m' where "pool_store a q m = Some m'" "same_blocks m m'" "pool_at m' a = Some q"
    "\<And>b. b \<noteq> a \<Longrightarrow> pool_at m' b = pool_at m b"
    "pm_handles m' = pm_handles m" "pm_first m' = pm_first m" "pm_atexit m' = pm_atexit m"
    "\<And>b. map_option ps_data (pm_pools m' b) = map_option ps_data (pm_pools m b)"
proof -
  obtain ps where ps: "a \<noteq> NULL" "pm_pools m a = Some ps" "ps_worker ps \<noteq> NULL" "ps_worker ps \<in> dom (pm_workers m)"
    "ps_worker_state ps \<noteq> NULL" "ps_worker_state ps \<in> dom (pm_states m)" "ps_max_nr_processes ps = max_nr_processes q0"
    using at by (auto simp: pool_at_def bind_eq_Some_conv load_eq_Some domI)
  let ?ps = "ps\<lparr>ps_nr_processes_running := nr_processes_running q, ps_sem := sem q, ps_next := next_worker q, ps_stop := stop q\<rparr>"
  let ?m = "m\<lparr>pm_workers := (pm_workers m)(ps_worker ps \<mapsto> worker q), pm_states := (pm_states m)(ps_worker_state ps \<mapsto> worker_state q),
    pm_pools := (pm_pools m)(a \<mapsto> ?ps)\<rparr>"
  have "pool_store a q m = Some ?m" using ps by (auto simp: pool_store_def heap_simps)
  moreover have "same_blocks m ?m" using ps by (auto simp: same_blocks_def pointers_def)
  moreover have "pool_at ?m a = Some q" using ps q by (simp add: pool_at_def heap_simps)
  moreover have "pool_at ?m b = pool_at m b" if "b \<noteq> a" for b
  proof (cases "pm_pools m b")
    case None
    then show ?thesis using that by (simp add: pool_at_def load_def)
  next
    case (Some pb)
    then have "ps_worker pb \<noteq> ps_worker ps" "ps_worker_state pb \<noteq> ps_worker_state ps"
      using pools_owned_apart [OF own ps(2) Some] that by auto
    then show ?thesis using that Some by (simp add: pool_at_def load_def)
  qed
  ultimately show thesis using ps(2) by (intro that [of ?m]) auto
qed

text \<open>The operations keep the address and the size of the arrays, and a stopped pool stays stopped.\<close>

lemma stop_step: "pool_step s s' \<Longrightarrow> stop (pool s) \<Longrightarrow> stop (pool s')"
proof (induction rule: pool_step.induct)
  case (dead i s n w)
  have "stop (fold (\<lambda>j p. if worker p ! j = Some w then remove_slot j p else p) js p) = stop p" for js p
    by (induction js arbitrary: p) (auto simp: remove_slot_def)
  then show ?case using dead by (simp add: mark_dead_def)
qed (auto simp: process_pool_start_worker_def assign_worker_def release_worker_def remove_slot_def Let_def
       process_pool_free_begin_def process_pool_free_end_def split: if_splits option.splits list.splits)

section \<open>The command line of a pool\<close>

text \<open>Argument vectors end with a null pointer after the number of arguments that the pool has stored.\<close>

definition terminated :: "memory \<Rightarrow> addr \<Rightarrow> bool" where
  "terminated m a \<longleftrightarrow>
     (\<forall>ps. pm_pools m a = Some ps \<longrightarrow>
        (\<exists>as. pm_args m (ps_args ps) = Some (as @ [NULL]) \<and> length as = ps_nargs ps))"

lemma load_strings_agree:
  "load_strings h (as @ [NULL]) = Some ss \<Longrightarrow> (\<And>a. a \<in> set as \<Longrightarrow> h' a = h a) \<Longrightarrow>
   load_strings h' (as @ [NULL]) = Some ss"
  by (induction as arbitrary: ss) (auto simp: bind_eq_Some_conv load_def split: if_splits)

lemma pool_command_agree:
  assumes "pool_command m a = Some c" and "owns m a ps argv" and "terminated m a"
    and "pm_pools m' a = Some ps'" "pointers ps' = pointers ps" "pm_args m' (ps_args ps) = pm_args m (ps_args ps)"
    and "\<And>x. x \<in> set (pool_strings ps argv) \<Longrightarrow> pm_strings m' x = pm_strings m x"
  shows "pool_command m' a = Some c \<and> terminated m' a"
proof -
  have ps: "pm_pools m a = Some ps" "pm_args m (ps_args ps) = Some argv" "a \<noteq> NULL" "ps_args ps \<noteq> NULL" "ps_executable ps \<noteq> NULL"
    using assms(2) by (auto simp: owns_def pool_strings_def)
  obtain as where as: "argv = as @ [NULL]" "length as = ps_nargs ps"
    using assms(3) ps by (auto simp: terminated_def)
  have ptr: "ps_args ps' = ps_args ps" "ps_executable ps' = ps_executable ps" "ps_nargs ps' = ps_nargs ps"
    using assms(5) by (simp_all add: pointers_def)
  obtain e args where c: "c = (e, args)" "pm_strings m (ps_executable ps) = Some e"
    "load_strings (pm_strings m) (as @ [NULL]) = Some args"
    using assms(1) ps as by (auto simp: pool_command_def bind_eq_Some_conv load_eq_Some)
  have str: "pm_strings m' x = pm_strings m x" if "x = ps_executable ps \<or> x \<in> set as" for x
    using assms(7) that as by (auto simp: pool_strings_def)
  have "load_strings (pm_strings m') (as @ [NULL]) = Some args"
    using c(3) str by (rule load_strings_agree) auto
  then show ?thesis
    using c assms(4,6) ps as ptr str by (simp add: pool_command_def terminated_def heap_simps)
qed

text \<open>A new pool does not disturb the others.\<close>

lemma new_pool_others:
  assumes ml: "mallocs_ok ml (length args) m" and own: "pools_owned R m p as" and b: "b \<in> set as"
    and m'_def: "m' = with_pool ml junk n executable args data m"
  shows "b \<noteq> ml_pool ml" and "pool_at m' b = pool_at m b" and "pm_pools m' b = pm_pools m b"
    and "owns m b ps argv \<Longrightarrow> pm_args m' (ps_args ps) = pm_args m (ps_args ps) \<and>
           (\<forall>x \<in> set (pool_strings ps argv). pm_strings m' x = pm_strings m x)"
proof -
  obtain ps0 argv0 where o: "owns m b ps0 argv0" using pools_owned_owns [OF own b] by auto
  have fr: "pm_pools m (ml_pool ml) = None" "pm_workers m (ml_worker ml) = None" "pm_states m (ml_state ml) = None"
    "pm_args m (ml_args ml) = None" "length (ml_arg ml) = length args" "distinct (ml_executable ml # ml_arg ml)"
    "list_all (fresh (pm_strings m)) (ml_executable ml # ml_arg ml)"
    using ml by (simp_all add: mallocs_ok_def fresh_def)
  show b': "b \<noteq> ml_pool ml" using o fr(1) by (auto simp: owns_def)
  then show pb: "pm_pools m' b = pm_pools m b" by (simp add: m'_def with_pool_def)
  have "ps_worker ps0 \<noteq> ml_worker ml" "ps_worker_state ps0 \<noteq> ml_state ml" using o fr by (auto simp: owns_def)
  then show "pool_at m' b = pool_at m b" using o pb by (simp add: pool_at_def load_def owns_def m'_def with_pool_def)
  show "pm_args m' (ps_args ps) = pm_args m (ps_args ps) \<and> (\<forall>x \<in> set (pool_strings ps argv). pm_strings m' x = pm_strings m x)"
    if "owns m b ps argv"
  proof -
    have "ps_args ps \<noteq> ml_args ml" using that fr by (auto simp: owns_def)
    moreover have "x \<notin> set (ml_executable ml # ml_arg ml)" if "x \<in> set (pool_strings ps argv)" for x
      using that \<open>owns m b ps argv\<close> fr(7) by (auto simp: owns_def list_all_iff fresh_def)
    ultimately show ?thesis using new_strings_lookup(3) [OF fr(6,5)] by (simp add: m'_def with_pool_def)
  qed
qed

end
