(* ===== verification/PoolProperties.thy ===== *)
theory PoolProperties
  imports ProcessPool
begin

text \<open>
  What the invariant of theory ProcessPool gives for one pool: the scan finds the best worker, no
  worker is forgotten, process_pool_free() waits for the threads and returns, and the thread that
  is not woken up.
\<close>

section \<open>The scan finds the best worker\<close>

lemma scan_best:
  assumes "\<forall>w. 0 \<le> f w"
  shows "\<forall>j \<in> set js. worker_state p ! j = IDLE \<longrightarrow> worker p ! j \<noteq> None \<Longrightarrow>
    (case fst high of None \<Rightarrow> snd high = -1 | Some h \<Rightarrow> \<exists>w. worker p ! h = Some w \<and> snd high = f w) \<Longrightarrow>
    \<exists>r. scan_workers (Some f) p js high = Some r \<and>
      (\<forall>j \<in> set js. worker_state p ! j = IDLE \<longrightarrow> (\<exists>h. r = Some h \<and> f (the (worker p ! j)) \<le> f (the (worker p ! h)))) \<and>
      (\<forall>h0. fst high = Some h0 \<longrightarrow> (\<exists>h. r = Some h \<and> f (the (worker p ! h0)) \<le> f (the (worker p ! h))))"
proof (induction js arbitrary: high)
  case Nil
  then show ?case by auto
next
  case (Cons j js)
  show ?case
  proof (cases "worker_state p ! j = IDLE")
    case False
    then show ?thesis using Cons by auto
  next
    case True
    then obtain w where w: "worker p ! j = Some w" using Cons.prems(1) by auto
    have f0: "\<not> f w < 0" using assms by (simp add: not_less)
    show ?thesis
    proof (cases "f w > snd high")
      case better: True
      have "\<forall>h0. fst high = Some h0 \<longrightarrow> f (the (worker p ! h0)) \<le> f w"
        using better Cons.prems(2) by auto
      then show ?thesis
        using Cons.IH [of "(Some j, f w)"] Cons.prems(1) True w f0 better by fastforce
    next
      case worse: False
      then obtain h where "fst high = Some h" "f w \<le> f (the (worker p ! h))"
        using Cons.prems(2) assms by (cases "fst high") (auto simp: not_less, smt (verit))
      then show ?thesis
        using Cons.IH [of high] Cons.prems True w f0 worse by fastforce
    qed
  qed
qed

lemma scan_first:
  "\<forall>j \<in> set js. worker_state p ! j = IDLE \<longrightarrow> worker p ! j \<noteq> None \<Longrightarrow>
   \<exists>j \<in> set js. worker_state p ! j = IDLE \<Longrightarrow> \<exists>h. scan_workers None p js high = Some (Some h)"
  by (induction js) auto

section \<open>Exclusive use and counting\<close>

lemma inv_exclusive:
  assumes inv: "pool_inv s" and i: "i < length (clients s)" "holds (clients s ! i) = Some w"
  shows "(\<exists>j < max_nr_processes (pool s). worker (pool s) ! j = Some w \<and> worker_state (pool s) ! j = BUSY) \<and>
    (\<forall>i' < length (clients s). holds (clients s ! i') = Some w \<longrightarrow> i' = i)"
  using held_slot [OF inv i] i inv unfolding pool_inv_def held_once_def by (metis option.distinct(1))

lemma inv_bounds:
  assumes "pool_inv s"
  shows "nr_processes_running (pool s) = length (filter (\<lambda>st. st \<noteq> STOPPED) (worker_state (pool s))) \<and>
    nr_processes_running (pool s) \<le> max_nr_processes (pool s)"
proof -
  have "nr_processes_running (pool s) = length (filter (\<lambda>st. st \<noteq> STOPPED) (worker_state (pool s)))"
    "length (worker_state (pool s)) = max_nr_processes (pool s)"
    using assms by (auto simp: pool_inv_def pool_shape_def count_of_def)
  then show ?thesis using length_filter_le [of "\<lambda>st. st \<noteq> STOPPED" "worker_state (pool s)"] by simp
qed

section \<open>The threads can always give their workers back\<close>

lemma busy_iff_held:
  assumes inv: "pool_inv s"
  shows "nr_busy (pool s) = 0 \<longleftrightarrow> list_all (\<lambda>c. holds c = None) (clients s)"
proof
  assume nb: "nr_busy (pool s) = 0"
  show "list_all (\<lambda>c. holds c = None) (clients s)"
    unfolding list_all_length
  proof (intro allI impI, rule ccontr)
    fix k assume "k < length (clients s)" "holds (clients s ! k) \<noteq> None"
    then obtain w where "k < length (clients s)" "holds (clients s ! k) = Some w" by auto
    from held_slot [OF inv this] obtain j where "j < max_nr_processes (pool s)" "worker_state (pool s) ! j = BUSY" .
    then have "BUSY \<in> set (worker_state (pool s))"
      using inv nth_mem [of j "worker_state (pool s)"] by (simp add: pool_inv_def pool_shape_def)
    then show False using nb by (auto simp: nr_busy_def filter_empty_conv)
  qed
next
  assume free: "list_all (\<lambda>c. holds c = None) (clients s)"
  have "st \<noteq> BUSY" if "st \<in> set (worker_state (pool s))" for st
  proof
    assume "st = BUSY"
    with that inv obtain j where j: "j < max_nr_processes (pool s)" "worker_state (pool s) ! j = BUSY"
      by (auto simp: in_set_conv_nth pool_inv_def pool_shape_def)
    then obtain i where "i < length (clients s)" "holds (clients s ! i) = worker (pool s) ! j"
      using inv unfolding pool_inv_def busy_held_def by blast
    moreover have "worker (pool s) ! j \<noteq> None" using inv j unfolding pool_inv_def pool_shape_def by blast
    ultimately show False using free by (auto simp: list_all_length)
  qed
  then show "nr_busy (pool s) = 0" by (auto simp: nr_busy_def filter_empty_conv)
qed

text \<open>A thread that holds a worker needs at most two steps to return it.\<close>

lemma client_releases:
  assumes inv: "pool_inv s" and k: "k < length (clients s)" "holds (clients s ! k) = Some w"
  obtains p where "pool_reach s (goto k Outside p s)"
proof -
  have step: "\<exists>p. pool_step s' (goto k Outside p s')"
    if inv': "pool_inv s'" and h: "clients s' ! k = Holding w" and l: "k < length (clients s')" for s'
  proof -
    obtain j where "j < max_nr_processes (pool s')" "worker (pool s') ! j = Some w"
      using held_slot [OF inv' l, of w] h by auto
    then have "release_worker w False (pool s') = (remove_slot j (pool s'), False)"
      using release_slot inv' by (simp add: pool_inv_def)
    from pool_step.release [OF l h this] show ?thesis by auto
  qed
  show thesis
  proof (cases "clients s ! k")
    case (Checking n w')
    let ?s = "goto k (Holding w') (pool s) s"
    have "pool_step s ?s" using alive [OF k(1) Checking] .
    moreover from this have "pool_inv ?s" using inv by (rule pool_inv_step)
    then obtain p where "pool_step ?s (goto k Outside p ?s)" using step [of ?s] k Checking by auto
    moreover have "goto k Outside p ?s = goto k Outside p s" by (simp add: goto_def)
    ultimately show thesis using that [of p] by (auto intro: rtranclp.rtrancl_into_rtrancl)
  qed (use step [OF inv _ k(1)] k(2) that in auto)
qed

lemma all_release:
  assumes "pool_inv s"
  shows "\<exists>s'. pool_reach s s' \<and> list_all (\<lambda>c. holds c = None) (clients s') \<and> length (clients s') = length (clients s) \<and>
    (\<forall>i < length (clients s). holds (clients s ! i) = None \<longrightarrow> clients s' ! i = clients s ! i)"
  using assms
proof (induction "count_of (\<lambda>c. holds c \<noteq> None) (clients s)" arbitrary: s rule: less_induct)
  case less
  show ?case
  proof (cases "list_all (\<lambda>c. holds c = None) (clients s)")
    case True
    then show ?thesis by blast
  next
    case False
    then obtain k w where k: "k < length (clients s)" "holds (clients s ! k) = Some w" by (auto simp: list_all_length)
    obtain p where p: "pool_reach s (goto k Outside p s)" using client_releases [OF less.prems k] .
    let ?s = "goto k Outside p s"
    have "count_of (\<lambda>c. holds c \<noteq> None) (clients ?s) < count_of (\<lambda>c. holds c \<noteq> None) (clients s)"
      using count_of_update [OF k(1), of "\<lambda>c. holds c \<noteq> None" Outside] k(2) by simp
    moreover have "pool_inv ?s" using p less.prems by (induction rule: rtranclp_induct) (auto intro: pool_inv_step)
    ultimately obtain s' where s': "pool_reach ?s s'" "list_all (\<lambda>c. holds c = None) (clients s')"
      "length (clients s') = length (clients ?s)"
      "\<forall>i < length (clients ?s). holds (clients ?s ! i) = None \<longrightarrow> clients s' ! i = clients ?s ! i"
      using less.hyps by blast
    have "clients s' ! i = clients s ! i" if "i < length (clients s)" "holds (clients s ! i) = None" for i
      using s'(4) that k(2) by (cases "i = k") auto
    then show ?thesis using p s' rtranclp_trans [OF p s'(1)] by auto
  qed
qed

section \<open>A run of the pool\<close>

text \<open>
  One slot and two threads.  Thread 0 starts the worker 5 and holds it, thread 1 asks for a worker
  and waits because the pool is full, and then the worker dies and thread 0 gives it back.
\<close>

definition one_slot :: "nat \<Rightarrow> addr option \<Rightarrow> worker_state \<Rightarrow> nat \<Rightarrow> client list \<Rightarrow> pool_system" where
  "one_slot running w st v cs =
     \<lparr>pool = \<lparr>max_nr_processes = 1, nr_processes_running = running, worker = [w], worker_state = [st],
              sem = v, next_worker = 0, stop = False\<rparr>, clients = cs\<rparr>"

lemma one_slot_step:
  "pool_step (one_slot n w st v [Outside, d]) (one_slot n w st v [Try 0, d])"
  "pool_step (one_slot n w st v [c, Outside]) (one_slot n w st v [c, Try 0])"
  "pool_step (one_slot n w st 0 [Try 0, d]) (one_slot n w st 0 [Starting 0, d])"
  "pool_step (one_slot n w st 0 [c, Try 0]) (one_slot n w st 0 [c, Starting 0])"
  "pool_step (one_slot 0 None STOPPED 0 [Starting 0, d]) (one_slot 1 (Some 5) IDLE 1 [Waiting 0, d])"
  "pool_step (one_slot 1 w st 0 [c, Starting 0]) (one_slot 1 w st 0 [c, Waiting 0])"
  "pool_step (one_slot n w st 1 [Waiting 0, d]) (one_slot n w st 0 [Reserved 0, d])"
  "pool_step (one_slot n (Some 5) IDLE 0 [Reserved 0, d]) (one_slot n (Some 5) BUSY 0 [Checking 0 5, d])"
  "pool_step (one_slot n w st v [Checking 0 5, d]) (one_slot n w st v [Holding 5, d])"
  "pool_step (one_slot 1 (Some 5) BUSY 0 [Holding 5, d]) (one_slot 0 None STOPPED 0 [Outside, d])"
  using get [of 0 "one_slot n w st v [Outside, d]"] get [of 1 "one_slot n w st v [c, Outside]"]
    scarce [of 0 "one_slot n w st 0 [Try 0, d]" 0] scarce [of 1 "one_slot n w st 0 [c, Try 0]" 0]
    start [of 0 "one_slot 0 None STOPPED 0 [Starting 0, d]" 0 "Some 5" _ 1]
    start [of 1 "one_slot 1 w st 0 [c, Starting 0]" 0 None _ 1]
    wait [OF _ _ _ wait_and_lock, of 0 "one_slot n w st 1 [Waiting 0, d]" 0]
    assign [of 0 "one_slot n (Some 5) IDLE 0 [Reserved 0, d]" 0 None]
    alive [of 0 "one_slot n w st v [Checking 0 5, d]" 0 5]
    release [of 0 "one_slot 1 (Some 5) BUSY 0 [Holding 5, d]" 5 False _ False]
  by (simp_all add: one_slot_def goto_def process_pool_start_worker_def assign_worker_def scan_order_def
      release_worker_def remove_slot_def)

lemma one_slot_init: "pool_init 1 2 = one_slot 0 None STOPPED 0 [Outside, Outside]"
  by (simp add: pool_init_def process_pool_new_def one_slot_def numeral_2_eq_2)

lemma reach_init: "pool_reach (pool_init 1 2) (one_slot 0 None STOPPED 0 [Outside, Outside])"
  unfolding one_slot_init by simp

lemmas pool_run = rtranclp.rtrancl_into_rtrancl [of pool_step]

lemmas reach_reserved =
  pool_run [OF pool_run [OF pool_run [OF pool_run [OF reach_init one_slot_step(1)] one_slot_step(3)] one_slot_step(5)] one_slot_step(7)]

lemmas reach_holding = pool_run [OF pool_run [OF reach_reserved one_slot_step(8)] one_slot_step(9)]

lemmas reach_stuck =
  pool_run [OF pool_run [OF pool_run [OF pool_run [OF reach_holding one_slot_step(2)] one_slot_step(4)] one_slot_step(6)] one_slot_step(10)]

section \<open>Properties\<close>

text \<open>
  C33. A thread that got past the semaphore is given a worker (unless the pool has been shut down):
  the assertions of the scan, "Should not happen: we reserved a process", never fail.  The worker
  was IDLE and no IDLE worker has a higher score.
\<close>

theorem pool_assigns_best:
  assumes "pool_reach (pool_init n m) s"
    and "i < length (clients s)" and "clients s ! i = Reserved k" and "\<forall>w. 0 \<le> f w"
  shows "\<exists>p r. assign_worker (Some f) (pool s) = Some (p, r) \<and>
    (if stop (pool s) then r = None
     else \<exists>j w. r = Some w \<and> j < n \<and> worker (pool s) ! j = Some w \<and> worker_state (pool s) ! j = IDLE \<and>
       worker_state p ! j = BUSY \<and>
       (\<forall>j' < n. worker_state (pool s) ! j' = IDLE \<longrightarrow> f (the (worker (pool s) ! j')) \<le> f w))"
proof (cases "stop (pool s)")
  case True
  then show ?thesis by (simp add: assign_worker_def)
next
  case False
  let ?p = "pool s"
  have inv: "pool_inv s" and n: "max_nr_processes ?p = n" using pool_reach_inv [OF assms(1)] by auto
  then have sh: "pool_shape ?p" and sb: "sem_balance ?p (clients s)" by (auto simp: pool_inv_def)
  have order: "set (scan_order ?p) = {..<n}" using scan_order_set [OF sh] n by simp
  have len: "length (worker_state ?p) = n" using sh n by (simp add: pool_shape_def)
  have "clients s ! i \<in> set (filter owes (clients s))" using assms(3) nth_mem [OF assms(2)] by simp
  then have "0 < count_of owes (clients s)"
    unfolding count_of_def by (metis length_pos_if_in_set)
  then have "0 < count_of (\<lambda>st. st = IDLE) (worker_state ?p)"
    using sb False by (simp add: sem_balance_def pays_def)
  then obtain j0 where j0: "j0 < n" "worker_state ?p ! j0 = IDLE"
    by (auto simp: count_of_def filter_empty_conv in_set_conv_nth len)
  have idle: "\<forall>j \<in> set (scan_order ?p). worker_state ?p ! j = IDLE \<longrightarrow> worker ?p ! j \<noteq> None"
    using sh False n order unfolding pool_shape_def by auto
  obtain r where r: "scan_workers (Some f) ?p (scan_order ?p) (None, -1) = Some r"
    "\<forall>j \<in> set (scan_order ?p). worker_state ?p ! j = IDLE \<longrightarrow> (\<exists>h. r = Some h \<and> f (the (worker ?p ! j)) \<le> f (the (worker ?p ! h)))"
    using scan_best [OF assms(4) idle, of "(None, -1)"] by auto
  then obtain h where h: "r = Some h" using j0 order by blast
  have hs: "h < n" "worker_state ?p ! h = IDLE" "worker ?p ! h \<noteq> None"
    using scan_result [of "Some f" ?p "scan_order ?p" "(None, -1)" h] r(1) h order by auto
  then obtain w where w: "worker ?p ! h = Some w" by auto
  have "assign_worker (Some f) ?p = Some (?p\<lparr>worker_state := (worker_state ?p)[h := BUSY],
      next_worker := (next_worker ?p + 1) mod max_nr_processes ?p\<rparr>, Some w)"
    using False r(1) h w by (simp add: assign_worker_def)
  moreover have "\<forall>j' < n. worker_state ?p ! j' = IDLE \<longrightarrow> f (the (worker ?p ! j')) \<le> f w"
    using r(2) h w order by auto
  ultimately show ?thesis using False hs w len by auto
qed

theorem pool_assigns_best_witness:
  "\<exists>p. assign_worker (Some (\<lambda>w. 2)) (pool (one_slot 1 (Some 5) IDLE 0 [Reserved 0, Outside])) = Some (p, Some 5)"
  using pool_assigns_best [OF reach_reserved, of 0 0 "\<lambda>w. 2"] by (auto simp: one_slot_def)

text \<open>
  C35. No thread sleeps while a worker is free: if the semaphore is 0 and no thread is between the
  semaphore and the pool, then no worker is IDLE.  After a shutdown the semaphore cannot stay 0,
  so the threads that wait are all woken up.
\<close>

theorem pool_no_lost_worker:
  assumes "pool_reach (pool_init n m) s" and "sem (pool s) = 0" and "list_all (\<lambda>c. \<not> owes c) (clients s)"
  shows "\<not> stop (pool s) \<and> IDLE \<notin> set (worker_state (pool s))"
proof -
  have "sem_balance (pool s) (clients s)" using pool_reach_inv [OF assms(1)] by (simp add: pool_inv_def)
  moreover have "count_of owes (clients s) = 0"
    using assms(3) by (simp add: count_of_def list_all_iff filter_empty_conv)
  ultimately show ?thesis
    using assms(2) by (auto simp: sem_balance_def pays_def count_of_def filter_empty_conv split: if_splits)
qed

theorem pool_no_lost_worker_witness:
  "IDLE \<notin> set (worker_state (pool (one_slot 1 (Some 5) BUSY 0 [Holding 5, Outside])))"
  using pool_no_lost_worker [OF reach_holding] by (simp add: one_slot_def)

text \<open>
  C36. process_pool_free() waits exactly for the threads that hold a worker: it counts no BUSY worker if
  and only if no thread holds one.  Once it is past the wait no worker that it deallocates is in use,
  and no thread is given one afterwards.  It can always return: from every state in which it
  waits, the threads reach a state where it has returned and all workers are deallocated.
\<close>

theorem pool_free_waits:
  assumes "pool_reach (pool_init n m) s" and "i < length (clients s)" and "clients s ! i = Freeing"
  shows "(nr_busy (pool s) = 0 \<longleftrightarrow> list_all (\<lambda>c. holds c = None) (clients s)) \<and>
    (\<forall>cb. assign_worker cb (process_pool_free_end (pool s)) =
       Some ((process_pool_free_end (pool s))\<lparr>sem := sem (pool s) + 1\<rparr>, None)) \<and>
    (\<exists>s'. pool_reach s s' \<and> clients s' ! i = Outside \<and> set (worker (pool s')) \<subseteq> {None})"
proof (intro conjI)
  have inv: "pool_inv s" using pool_reach_inv [OF assms(1)] by auto
  then show "nr_busy (pool s) = 0 \<longleftrightarrow> list_all (\<lambda>c. holds c = None) (clients s)" by (rule busy_iff_held)
  have "stop (pool s)" using inv assms(2,3) nth_mem [OF assms(2)] by (simp add: pool_inv_def)
  then show "\<forall>cb. assign_worker cb (process_pool_free_end (pool s)) =
       Some ((process_pool_free_end (pool s))\<lparr>sem := sem (pool s) + 1\<rparr>, None)"
    by (simp add: assign_worker_def process_pool_free_end_def)
  obtain s' where s': "pool_reach s s'" "list_all (\<lambda>c. holds c = None) (clients s')"
    "length (clients s') = length (clients s)" "clients s' ! i = Freeing"
    using all_release [OF inv] assms(2,3) by auto
  have "pool_inv s'" using s'(1) inv by (induction rule: rtranclp_induct) (auto intro: pool_inv_step)
  then have "nr_busy (pool s') = 0" using s'(2) busy_iff_held by blast
  from free_end [OF _ s'(4) this] have "pool_reach s (goto i Outside (process_pool_free_end (pool s')) s')"
    using s'(1,3) assms(2) by (auto intro: rtranclp.rtrancl_into_rtrancl)
  then show "\<exists>s'. pool_reach s s' \<and> clients s' ! i = Outside \<and> set (worker (pool s')) \<subseteq> {None}"
    by (rule exI [where P = "\<lambda>t. pool_reach s t \<and> clients t ! i = Outside \<and> set (worker (pool t)) \<subseteq> {None}", OF conjI])
      (use s'(3) assms(2) in \<open>auto simp: process_pool_free_end_def\<close>)
qed

text \<open>Thread 1 frees the pool while thread 0 holds its only worker.\<close>

theorem pool_free_waits_witness:
  "\<exists>s'. pool_reach (goto 1 Freeing (process_pool_free_begin (pool (one_slot 1 (Some 5) BUSY 0 [Holding 5, Outside])))
       (one_slot 1 (Some 5) BUSY 0 [Holding 5, Outside])) s' \<and>
     clients s' ! 1 = Outside \<and> set (worker (pool s')) \<subseteq> {None}"
proof -
  let ?s = "one_slot 1 (Some 5) BUSY 0 [Holding 5, Outside]"
  have "pool_step ?s (goto 1 Freeing (process_pool_free_begin (pool ?s)) ?s)"
    by (rule free_begin) (simp_all add: one_slot_def)
  from pool_free_waits [OF pool_run [OF reach_holding this], of 1] show ?thesis
    by (simp add: one_slot_def goto_def)
qed

text \<open>
  C37. The thread that waits is never woken up, although the pool has room for a new process: when
  the last worker dies in the hands of a thread, process_pool_release_worker() does not post the
  semaphore, and a process is only started before the wait.  The thread stays where it is until
  another thread asks for a worker or the pool is freed.
\<close>

theorem waiting_thread_not_woken:
  "\<exists>s. pool_reach (pool_init 1 2) s \<and> clients s = [Outside, Waiting 0] \<and>
     nr_processes_running (pool s) = 0 \<and> sem (pool s) = 0 \<and> \<not> stop (pool s) \<and>
     \<not> (\<exists>s'. pool_step s s' \<and> clients s' ! 1 \<noteq> Waiting 0)"
proof -
  let ?s = "one_slot 0 None STOPPED 0 [Outside, Waiting 0]"
  have "pool_reach (pool_init 1 2) ?s"
    by (rule reach_stuck)
  moreover have "\<not> (\<exists>s'. pool_step ?s s' \<and> clients s' ! 1 \<noteq> Waiting 0)"
    by (auto elim!: pool_stepE simp: one_slot_def less_Suc_eq nth_Cons split: nat.splits)
  ultimately show ?thesis by (intro exI [of _ ?s]) (simp add: one_slot_def)
qed

end
