(* ===== verification/Handles.thy ===== *)
theory Handles
  imports PoolList PoolProperties ReaderData
begin

text \<open>
  The handles of the library, hdfstream_new_with_executable() and hdfstream_free() of
  src/src/lib/hdfstream.c, in the memory of theory PoolList, and the whole program as seen by its
  pools: handles are created and freed while the threads of every pool take steps, and at exit
  process_pool_cleanup() runs.
\<close>

section \<open>Operations\<close>

text \<open>The end of hdfstream_free(), after process_pool_free(), and the failure branch of the creation.\<close>

definition free_handle :: "addr \<Rightarrow> memory \<Rightarrow> memory option" where
  "free_handle hs m = do {
     h \<leftarrow> load (pm_handles m) hs;
     strings \<leftarrow> (if hh_executable h \<noteq> NULL then dealloc (pm_strings m) (hh_executable h) else Some (pm_strings m));
     handles \<leftarrow> dealloc (pm_handles m) hs;
     Some (m\<lparr>pm_strings := strings, pm_handles := handles\<rparr>) }"

text \<open>
  hs and ex are the two addresses from malloc(), ml those in process_pool_new().  The result is the
  pointer to the new handle, or NULL.
\<close>

definition new_hdfstream ::
  "addr \<Rightarrow> addr \<Rightarrow> pool_mallocs \<Rightarrow> pool_struct \<Rightarrow> bool \<Rightarrow> bool \<Rightarrow> string \<Rightarrow> int \<Rightarrow> string option \<Rightarrow> int \<Rightarrow> int \<Rightarrow> int \<Rightarrow> int \<Rightarrow>
     memory \<Rightarrow> (memory \<times> addr) option" where
  "new_hdfstream hs ex ml junk sem_ok mutex_ok default_executable nr_processes executable max_open_files max_open_datasets
     check_interval expiry_interval m = do {
     let (h, args) = hdfstream_new_with_executable default_executable executable max_open_files max_open_datasets
       check_interval expiry_interval;
     let m = m\<lparr>pm_handles := (pm_handles m)(hs \<mapsto> \<lparr>hh_max_open_files = hs_max_open_files h,
               hh_max_open_datasets = hs_max_open_datasets h, hh_executable = ex, hh_pool = NULL\<rparr>),
             pm_strings := (pm_strings m)(ex \<mapsto> hs_executable h)\<rparr>;
     (m, pool) \<leftarrow> new_pool ml junk sem_ok mutex_ok (nat nr_processes) (hs_executable h) args hs m;
     handles \<leftarrow> update (pm_handles m) hs (\<lambda>h. h\<lparr>hh_pool := pool\<rparr>);
     let m = m\<lparr>pm_handles := handles\<rparr>;
     (if pool = NULL then do { m \<leftarrow> free_handle hs m; Some (m, NULL) }
      else Some (m, hs)) }"

text \<open>What reader_init() reads from the handle.\<close>

definition handle_at :: "memory \<Rightarrow> addr \<Rightarrow> hdfstream option" where
  "handle_at m hs = do {
     h \<leftarrow> load (pm_handles m) hs;
     e \<leftarrow> load (pm_strings m) (hh_executable h);
     Some \<lparr>hs_max_open_files = hh_max_open_files h, hs_max_open_datasets = hh_max_open_datasets h, hs_executable = e\<rparr> }"

section \<open>The program\<close>

text \<open>
  pr_threads has the threads that use each pool.  The argument data of a new pool is the handle, so
  that ps_data leads from the pool back to it.
\<close>

record program =
  pr_mem :: memory
  pr_threads :: "addr \<Rightarrow> client list"

definition program_init :: program where
  "program_init = \<lparr>pr_mem = \<lparr>pm_pools = Map.empty, pm_workers = Map.empty, pm_states = Map.empty, pm_strings = Map.empty,
     pm_args = Map.empty, pm_handles = Map.empty, pm_sems = {}, pm_mutexes = {}, pm_first = NULL, pm_atexit = 0\<rparr>,
     pr_threads = (\<lambda>_. [])\<rparr>"

text \<open>What malloc() returns for a new handle.\<close>

definition handle_mallocs_ok :: "addr \<Rightarrow> addr \<Rightarrow> pool_mallocs \<Rightarrow> memory \<Rightarrow> bool" where
  "handle_mallocs_ok hs ex ml m \<longleftrightarrow>
     fresh (pm_handles m) hs \<and> fresh (pm_strings m) ex \<and> ex \<notin> set (ml_executable ml # ml_arg ml) \<and> mallocs_ok ml 5 m"

text \<open>
  create is a call of the library; a pool with a handle is used by any number of threads.  step is a
  step of a thread of the pool at a, whose new worker has an address that no other pool uses.
  free is the end of hdfstream_free(), after process_pool_free() has stopped the pool and returned.
\<close>

inductive program_step :: "string \<Rightarrow> program \<Rightarrow> program \<Rightarrow> bool" for default_executable where
  create: "handle_mallocs_ok hs ex ml (pr_mem s) \<Longrightarrow>
    new_hdfstream hs ex ml junk sem_ok mutex_ok default_executable n executable f d c x (pr_mem s) = Some (m, r) \<Longrightarrow>
    program_step default_executable s \<lparr>pr_mem = m,
      pr_threads = (if r = NULL then pr_threads s else (pr_threads s)(ml_pool ml := replicate k Outside))\<rparr>"
| step: "pool_at (pr_mem s) a = Some p \<Longrightarrow> pool_step \<lparr>pool = p, clients = pr_threads s a\<rparr> q \<Longrightarrow>
    (\<forall>b p' w. b \<noteq> a \<longrightarrow> pool_at (pr_mem s) b = Some p' \<longrightarrow> Some w \<in> set (worker (pool q)) \<longrightarrow>
       Some w \<notin> set (worker p) \<longrightarrow> Some w \<notin> set (worker p')) \<Longrightarrow>
    pool_store a (pool q) (pr_mem s) = Some m \<Longrightarrow>
    program_step default_executable s \<lparr>pr_mem = m, pr_threads = (pr_threads s)(a := clients q)\<rparr>"
| free: "pm_handles (pr_mem s) hs = Some h \<Longrightarrow> pool_at (pr_mem s) (hh_pool h) = Some p \<Longrightarrow> stop p \<Longrightarrow>
    Freeing \<notin> set (pr_threads s (hh_pool h)) \<Longrightarrow> free_handle hs (pr_mem s) = Some m \<Longrightarrow>
    program_step default_executable s (s\<lparr>pr_mem := m\<rparr>)"

definition program_reach :: "string \<Rightarrow> program \<Rightarrow> bool" where
  "program_reach default_executable = (program_step default_executable)\<^sup>*\<^sup>* program_init"

section \<open>The invariant\<close>

definition executables :: "memory \<Rightarrow> addr set" where
  "executables m = hh_executable ` ran (pm_handles m)"

definition handles_ok :: "memory \<Rightarrow> bool" where
  "handles_ok m \<longleftrightarrow>
     (\<forall>hs h. pm_handles m hs = Some h \<longrightarrow>
        hs \<noteq> NULL \<and> hh_executable h \<noteq> NULL \<and> map_option ps_data (pm_pools m (hh_pool h)) = Some hs) \<and>
     (\<forall>hs hs' h h'. pm_handles m hs = Some h \<longrightarrow> pm_handles m hs' = Some h' \<longrightarrow> hh_executable h = hh_executable h' \<longrightarrow> hs = hs')"

definition commands_ok :: "memory \<Rightarrow> bool" where
  "commands_ok m \<longleftrightarrow>
     (\<forall>hs h. pm_handles m hs = Some h \<longrightarrow>
        (\<exists>e c x. pm_strings m (hh_executable h) = Some e \<and>
           pool_command m (hh_pool h) =
             Some (e, [e, show_int (hh_max_open_files h), show_int (hh_max_open_datasets h), show_int c, show_int x])))"

definition pool_ok :: "program \<Rightarrow> addr \<Rightarrow> bool" where
  "pool_ok s a \<longleftrightarrow>
     (\<exists>p. pool_at (pr_mem s) a = Some p \<and> pool_inv \<lparr>pool = p, clients = pr_threads s a\<rparr> \<and> terminated (pr_mem s) a \<and>
        (\<not> stop p \<longrightarrow> (\<exists>ps h. pm_pools (pr_mem s) a = Some ps \<and> pm_handles (pr_mem s) (ps_data ps) = Some h \<and> hh_pool h = a)))"

definition apart :: "memory \<Rightarrow> bool" where
  "apart m \<longleftrightarrow>
     (\<forall>a b p q w. a \<noteq> b \<longrightarrow> pool_at m a = Some p \<longrightarrow> pool_at m b = Some q \<longrightarrow>
        Some w \<in> set (worker p) \<longrightarrow> Some w \<notin> set (worker q))"

definition owned :: "memory \<Rightarrow> addr list \<Rightarrow> bool" where
  "owned m as \<longleftrightarrow> pools_owned (pm_strings m |` executables m) m (pm_first m) as \<and> executables m \<subseteq> dom (pm_strings m) \<and>
     pm_atexit m = (if as = [] then 0 else 1)"

definition program_inv :: "program \<Rightarrow> addr list \<Rightarrow> bool" where
  "program_inv s as \<longleftrightarrow>
     owned (pr_mem s) as \<and> (\<forall>a \<in> set as. pool_ok s a) \<and> handles_ok (pr_mem s) \<and> commands_ok (pr_mem s) \<and> apart (pr_mem s)"

lemma init_inv: "program_inv program_init []"
  by (simp add: program_inv_def program_init_def owned_def no_pools_def executables_def handles_ok_def commands_ok_def
      apart_def pool_at_def load_def)

lemma pool_at_in: "owned m as \<Longrightarrow> pool_at m a = Some p \<Longrightarrow> a \<in> set as"
  using pools_owned_dom by (fastforce simp: owned_def pool_at_def bind_eq_Some_conv load_eq_Some)

section \<open>A thread of a pool takes a step\<close>

lemma same_blocks_pointers:
  assumes "same_blocks m m'" and "pm_pools m a = Some ps"
  obtains ps' where "pm_pools m' a = Some ps'" "pointers ps' = pointers ps"
proof -
  have "map_option pointers (pm_pools m a) = map_option pointers (pm_pools m' a)"
    using assms(1) unfolding same_blocks_def by blast
  then show thesis using that assms(2) by (cases "pm_pools m' a") auto
qed

lemma same_blocks_sym: "same_blocks m m' \<Longrightarrow> same_blocks m' m"
  by (simp add: same_blocks_def)

lemma terminated_same: "same_blocks m m' \<Longrightarrow> terminated m a \<Longrightarrow> terminated m' a"
proof -
  assume same: "same_blocks m m'" and t: "terminated m a"
  show ?thesis unfolding terminated_def
  proof (intro allI impI)
    fix ps' assume "pm_pools m' a = Some ps'"
    then obtain ps where "pm_pools m a = Some ps" "pointers ps = pointers ps'"
      using same_blocks_pointers [OF same_blocks_sym [OF same]] by blast
    then show "\<exists>as. pm_args m' (ps_args ps') = Some (as @ [NULL]) \<and> length as = ps_nargs ps'"
      using t same by (auto simp: terminated_def same_blocks_def pointers_def)
  qed
qed

lemma command_same: "same_blocks m m' \<Longrightarrow> pool_command m a = Some c \<Longrightarrow> pool_command m' a = Some c"
proof -
  assume same: "same_blocks m m'" and c: "pool_command m a = Some c"
  then obtain ps where "pm_pools m a = Some ps" "a \<noteq> NULL" by (auto simp: pool_command_def bind_eq_Some_conv load_eq_Some)
  moreover from same this(1) obtain ps' where "pm_pools m' a = Some ps'" "pointers ps' = pointers ps"
    by (rule same_blocks_pointers)
  ultimately show ?thesis using c same by (simp add: pool_command_def pointers_def same_blocks_def heap_simps)
qed

lemma step_inv:
  assumes inv: "program_inv s as" and at: "pool_at (pr_mem s) a = Some p"
    and st: "pool_step \<lparr>pool = p, clients = pr_threads s a\<rparr> q"
    and new: "\<And>b p' w. b \<noteq> a \<Longrightarrow> pool_at (pr_mem s) b = Some p' \<Longrightarrow> Some w \<in> set (worker (pool q)) \<Longrightarrow>
       Some w \<notin> set (worker p) \<Longrightarrow> Some w \<notin> set (worker p')"
    and store: "pool_store a (pool q) (pr_mem s) = Some m"
  shows "program_inv \<lparr>pr_mem = m, pr_threads = (pr_threads s)(a := clients q)\<rparr> as"
proof -
  let ?m = "pr_mem s" and ?s = "\<lparr>pr_mem = m, pr_threads = (pr_threads s)(a := clients q)\<rparr>"
  have own: "owned ?m as" and ok: "\<And>b. b \<in> set as \<Longrightarrow> pool_ok s b" and h: "handles_ok ?m" and c: "commands_ok ?m" and ap: "apart ?m"
    using inv by (simp_all add: program_inv_def)
  have "pools_owned (pm_strings ?m |` executables ?m) ?m (pm_first ?m) as" using own by (simp add: owned_def)
  moreover have "max_nr_processes (pool q) = max_nr_processes p" using max_step [OF st] by simp
  ultimately obtain m' where m': "pool_store a (pool q) ?m = Some m'" "same_blocks ?m m'" "pool_at m' a = Some (pool q)"
    "\<And>b. b \<noteq> a \<Longrightarrow> pool_at m' b = pool_at ?m b"
    "pm_handles m' = pm_handles ?m" "pm_first m' = pm_first ?m" "pm_atexit m' = pm_atexit ?m"
    "\<And>b. map_option ps_data (pm_pools m' b) = map_option ps_data (pm_pools ?m b)"
    using at pool_store_ok by blast
  then have [simp]: "m' = m" and str: "pm_strings m = pm_strings ?m" and ex: "executables m = executables ?m"
    using store by (simp_all add: same_blocks_def executables_def)
  note m = m' [unfolded \<open>m' = m\<close>]
  have "owned m as" using own pools_owned_same [OF _ m(2)] by (simp add: owned_def str ex m)
  moreover have "pool_ok ?s b" if b: "b \<in> set as" for b
  proof -
    obtain pb where pb: "pool_at ?m b = Some pb" "pool_inv \<lparr>pool = pb, clients = pr_threads s b\<rparr>" "terminated ?m b"
      "\<not> stop pb \<Longrightarrow> \<exists>ps h. pm_pools ?m b = Some ps \<and> pm_handles ?m (ps_data ps) = Some h \<and> hh_pool h = b"
      using ok [OF b] unfolding pool_ok_def by blast
    have live: "\<exists>ps h. pm_pools m b = Some ps \<and> pm_handles m (ps_data ps) = Some h \<and> hh_pool h = b" if "\<not> stop pb"
      using pb(4) [OF that] m(5) m(8) [of b] by auto
    show ?thesis
    proof (cases "b = a")
      case False
      then show ?thesis using pb live m(4) terminated_same [OF m(2)] by (auto simp: pool_ok_def)
    next
      case True
      then have "pb = p" using at pb(1) by simp
      then have "pool_inv q" "stop p \<Longrightarrow> stop (pool q)"
        using pool_inv_step [OF st] stop_step [OF st] pb(2) True by simp_all
      moreover from this(1) have "pool_inv \<lparr>pool = pool q, clients = clients q\<rparr>" by (cases q) simp
      ultimately have "pool_inv \<lparr>pool = pool q, clients = clients q\<rparr>" "stop p \<Longrightarrow> stop (pool q)" by blast+
      then show ?thesis using m(3) live True \<open>pb = p\<close> terminated_same [OF m(2) pb(3)] by (auto simp: pool_ok_def)
    qed
  qed
  moreover have "handles_ok m" using h m(5,8) by (simp add: handles_ok_def)
  moreover have "commands_ok m" unfolding commands_ok_def m(5) str
    using c command_same [OF m(2)] unfolding commands_ok_def by metis
  moreover have "apart m" unfolding apart_def
  proof (intro allI impI)
    fix b d pb pd w assume bd: "b \<noteq> d" "pool_at m b = Some pb" "pool_at m d = Some pd" "Some w \<in> set (worker pb)"
    show "Some w \<notin> set (worker pd)"
      using bd m(3,4) ap at new unfolding apart_def by (metis option.inject)
  qed
  ultimately show ?thesis by (simp add: program_inv_def)
qed

section \<open>A handle is freed\<close>

lemma owns_unique: "owns m b ps argv \<Longrightarrow> owns m b ps' argv' \<Longrightarrow> ps' = ps \<and> argv' = argv"
  by (auto simp: owns_def)

lemma rest_not_owned:
  "pools_owned R m p as \<Longrightarrow> b \<in> set as \<Longrightarrow> owns m b ps argv \<Longrightarrow> R x \<noteq> None \<Longrightarrow> x \<notin> set (pool_strings ps argv)"
proof (induction as arbitrary: m p)
  case (Cons a as)
  then obtain pa argva where o: "owns m a pa argva" "pools_owned R (without_pool a pa argva m) (ps_next_pool pa) as"
    by auto
  show ?case
  proof (cases "b = a")
    case True
    then have e: "ps = pa" "argv = argva" using owns_unique [OF o(1)] Cons.prems(3) by auto
    obtain s where "R x = Some s" using Cons.prems(4) by auto
    from pools_owned_rest [OF o(2) this] show ?thesis by (auto simp: e without_pool_def restrict_map_def split: if_splits)
  next
    case False
    then have b: "b \<in> set as" using Cons.prems(2) by simp
    obtain ps' argv' where o': "owns (without_pool a pa argva m) b ps' argv'" using pools_owned_owns [OF o(2) b] by auto
    then have "ps' = ps" "argv' = argv" using owns_without [OF o'] owns_unique [OF Cons.prems(3)] by auto
    then show ?thesis using Cons.IH [OF o(2) b _ Cons.prems(4)] o' by simp
  qed
qed simp

lemma free_handle_eq_Some:
  "pm_handles m hs = Some h \<Longrightarrow> hh_executable h \<noteq> NULL \<Longrightarrow> free_handle hs m = Some m' \<Longrightarrow>
   m' = m\<lparr>pm_strings := (pm_strings m)(hh_executable h := None), pm_handles := (pm_handles m)(hs := None)\<rparr>"
  by (auto simp: free_handle_def bind_eq_Some_conv load_eq_Some dealloc_eq_Some)

lemma pool_at_same:
  "pm_pools m' = pm_pools m \<Longrightarrow> pm_workers m' = pm_workers m \<Longrightarrow> pm_states m' = pm_states m \<Longrightarrow> pool_at m' b = pool_at m b"
  by (simp add: pool_at_def)

lemma owned_owns: "owned m as \<Longrightarrow> b \<in> set as \<Longrightarrow> \<exists>ps argv. owns m b ps argv"
  using pools_owned_owns by (auto simp: owned_def)

lemma handle_pool: "owned m as \<Longrightarrow> handles_ok m \<Longrightarrow> pm_handles m hs = Some h \<Longrightarrow> hh_pool h \<in> set as"
proof -
  assume own: "owned m as" and "handles_ok m" "pm_handles m hs = Some h"
  then have "map_option ps_data (pm_pools m (hh_pool h)) = Some hs" by (auto simp: handles_ok_def)
  then have "hh_pool h \<in> dom (pm_pools m)" by auto
  moreover have "pools_owned (pm_strings m |` executables m) m (pm_first m) as" using own by (simp add: owned_def)
  note pools_owned_dom [OF this]
  ultimately show ?thesis by simp
qed

lemma in_executables: "x \<in> executables m \<longleftrightarrow> (\<exists>hs h. pm_handles m hs = Some h \<and> hh_executable h = x)"
  by (auto simp: executables_def ran_def)

lemma free_handle_owned:
  assumes own: "owned m as" and ok: "handles_ok m" and hs: "pm_handles m hs = Some h"
    and m': "m' = m\<lparr>pm_strings := (pm_strings m)(hh_executable h := None), pm_handles := (pm_handles m)(hs := None)\<rparr>"
  shows "owned m' as"
proof -
  let ?x = "hh_executable h"
  have inj: "hs' = hs" if "pm_handles m hs' = Some h'" "hh_executable h' = ?x" for hs' h'
    using ok hs that unfolding handles_ok_def by blast
  have mem: "y \<in> executables m' \<longleftrightarrow> (\<exists>hs' h'. hs' \<noteq> hs \<and> pm_handles m hs' = Some h' \<and> hh_executable h' = y)" for y
    by (auto simp: in_executables m' split: if_splits)
  have ex: "executables m' = executables m - {?x}"
  proof (intro set_eqI iffI)
    fix y assume "y \<in> executables m'"
    then obtain hs' h' where "hs' \<noteq> hs" "pm_handles m hs' = Some h'" "hh_executable h' = y" unfolding mem by blast
    moreover from this have "y \<noteq> ?x" using inj [of hs' h'] by blast
    ultimately show "y \<in> executables m - {?x}" unfolding Diff_iff in_executables by blast
  next
    fix y assume "y \<in> executables m - {?x}"
    then obtain hs' h' where "pm_handles m hs' = Some h'" "hh_executable h' = y" "y \<noteq> ?x" unfolding Diff_iff in_executables by blast
    moreover from this have "hs' \<noteq> hs" using hs by auto
    ultimately show "y \<in> executables m'" unfolding mem by blast
  qed
  have x: "?x \<in> executables m" using hs by (auto simp: in_executables)
  have po: "pools_owned (pm_strings m |` executables m) m (pm_first m) as" using own by (simp add: owned_def)
  have "(pm_strings m |` executables m) ?x \<noteq> None" using own x by (auto simp: owned_def restrict_map_def)
  then have "pools_owned ((pm_strings m |` executables m)(?x := None)) (m\<lparr>pm_strings := (pm_strings m)(?x := None)\<rparr>) (pm_first m) as"
    using pools_owned_string [OF po] by blast
  moreover have "(pm_strings m |` executables m)(?x := None) = pm_strings m' |` executables m'"
    unfolding ex by (simp add: fun_eq_iff restrict_map_def m')
  ultimately have "pools_owned (pm_strings m' |` executables m') (m\<lparr>pm_strings := (pm_strings m)(?x := None)\<rparr>) (pm_first m) as"
    by simp
  then have "pools_owned (pm_strings m' |` executables m') m' (pm_first m) as"
    by (rule pools_owned_same) (simp add: m' same_blocks_def)
  then show ?thesis using own ex by (auto simp: owned_def m')
qed

lemma free_commands_ok:
  assumes own: "owned m as" and H: "handles_ok m" and c: "commands_ok m" and t: "\<And>b. b \<in> set as \<Longrightarrow> terminated m b"
    and hs: "pm_handles m hs = Some h"
    and m': "m' = m\<lparr>pm_strings := (pm_strings m)(hh_executable h := None), pm_handles := (pm_handles m)(hs := None)\<rparr>"
  shows "commands_ok m'"
  unfolding commands_ok_def
proof (intro allI impI)
  let ?x = "hh_executable h"
  fix hs' h' assume "pm_handles m' hs' = Some h'"
  then have h': "pm_handles m hs' = Some h'" "hs' \<noteq> hs" by (auto simp: m' split: if_splits)
  then have x: "hh_executable h' \<noteq> ?x" using H hs unfolding handles_ok_def by blast
  obtain e cc x where cmd: "pm_strings m (hh_executable h') = Some e"
    "pool_command m (hh_pool h') =
       Some (e, [e, show_int (hh_max_open_files h'), show_int (hh_max_open_datasets h'), show_int cc, show_int x])"
    using c h'(1) unfolding commands_ok_def by blast
  have b: "hh_pool h' \<in> set as" by (rule handle_pool [OF own H h'(1)])
  then obtain ps argv where o: "owns m (hh_pool h') ps argv" using owned_owns [OF own] by blast
  have "(pm_strings m |` executables m) ?x \<noteq> None"
    using hs own by (auto simp: owned_def executables_def ran_def restrict_map_def)
  then have "?x \<notin> set (pool_strings ps argv)" using rest_not_owned [OF _ b o] own unfolding owned_def by blast
  then have "pool_command m' (hh_pool h') =
       Some (e, [e, show_int (hh_max_open_files h'), show_int (hh_max_open_datasets h'), show_int cc, show_int x])"
    using o by (intro pool_command_agree [OF cmd(2) o t [OF b], of m' ps, THEN conjunct1]) (auto simp: m' owns_def)
  then show "\<exists>e c x. pm_strings m' (hh_executable h') = Some e \<and> pool_command m' (hh_pool h') =
       Some (e, [e, show_int (hh_max_open_files h'), show_int (hh_max_open_datasets h'), show_int c, show_int x])"
    using cmd(1) x by (auto simp: m')
qed

lemma free_inv:
  assumes inv: "program_inv s as" and hs: "pm_handles (pr_mem s) hs = Some h" and at: "pool_at (pr_mem s) (hh_pool h) = Some p"
    and stop: "stop p" and free: "free_handle hs (pr_mem s) = Some m"
  shows "program_inv (s\<lparr>pr_mem := m\<rparr>) as"
proof -
  let ?m = "pr_mem s" and ?x = "hh_executable h"
  have own: "owned ?m as" and ok: "\<And>b. b \<in> set as \<Longrightarrow> pool_ok s b" and H: "handles_ok ?m" and c: "commands_ok ?m" and ap: "apart ?m"
    using inv by (simp_all add: program_inv_def)
  have "?x \<noteq> NULL" using H hs unfolding handles_ok_def by blast
  from free_handle_eq_Some [OF hs this free]
  have m: "m = ?m\<lparr>pm_strings := (pm_strings ?m)(?x := None), pm_handles := (pm_handles ?m)(hs := None)\<rparr>" .
  have at': "pool_at m b = pool_at ?m b" for b by (rule pool_at_same) (simp_all add: m)
  have "pool_ok (s\<lparr>pr_mem := m\<rparr>) b" if b: "b \<in> set as" for b
  proof -
    obtain pb where pb: "pool_at ?m b = Some pb" "pool_inv \<lparr>pool = pb, clients = pr_threads s b\<rparr>" "terminated ?m b"
      "\<not> stop pb \<Longrightarrow> \<exists>ps h. pm_pools ?m b = Some ps \<and> pm_handles ?m (ps_data ps) = Some h \<and> hh_pool h = b"
      using ok [OF b] unfolding pool_ok_def by blast
    have "\<exists>ps h. pm_pools m b = Some ps \<and> pm_handles m (ps_data ps) = Some h \<and> hh_pool h = b" if live: "\<not> stop pb"
    proof -
      obtain ps h' where h': "pm_pools ?m b = Some ps" "pm_handles ?m (ps_data ps) = Some h'" "hh_pool h' = b"
        using pb(4) [OF live] by blast
      have "ps_data ps \<noteq> hs"
        using h'(2,3) pb(1) at stop live hs by auto
      then show ?thesis using h' by (intro exI [of _ ps] exI [of _ h']) (simp add: m)
    qed
    then show ?thesis using pb by (auto simp: pool_ok_def at') (simp add: terminated_def m)
  qed
  moreover have "handles_ok m" using H unfolding handles_ok_def m by auto
  moreover have "terminated ?m b" if "b \<in> set as" for b using ok [OF that] by (auto simp: pool_ok_def)
  then have "commands_ok m" by (intro free_commands_ok [OF own H c _ hs m])
  moreover have "apart m" using ap unfolding apart_def at' .
  ultimately show ?thesis using free_handle_owned [OF own H hs m] by (simp add: program_inv_def)
qed

section \<open>A handle is created\<close>

definition add_handle :: "addr \<Rightarrow> hdfstream_struct \<Rightarrow> string \<Rightarrow> memory \<Rightarrow> memory" where
  "add_handle hs h e m =
     m\<lparr>pm_handles := (pm_handles m)(hs \<mapsto> h), pm_strings := (pm_strings m)(hh_executable h \<mapsto> e)\<rparr>"

definition created :: "addr \<Rightarrow> hdfstream_struct \<Rightarrow> pool_mallocs \<Rightarrow> pool_struct \<Rightarrow> nat \<Rightarrow> string \<Rightarrow> string list \<Rightarrow> memory \<Rightarrow> memory" where
  "created hs h ml junk n e args m =
     (with_pool ml junk n e args hs (add_handle hs h e m))\<lparr>pm_handles := (pm_handles m)(hs \<mapsto> h\<lparr>hh_pool := ml_pool ml\<rparr>)\<rparr>"

lemma add_handle_mallocs:
  "handle_mallocs_ok hs ex ml m \<Longrightarrow> hh_executable h = ex \<Longrightarrow> mallocs_ok ml 5 (add_handle hs h e m)"
  by (auto simp: handle_mallocs_ok_def mallocs_ok_def add_handle_def fresh_def list_all_iff)

lemma owned_free_address: "owned m as \<Longrightarrow> pm_pools m a = None \<Longrightarrow> a \<notin> pm_sems m \<and> a \<notin> set as"
proof -
  assume own: "owned m as" and a: "pm_pools m a = None"
  then have po: "pools_owned (pm_strings m |` executables m) m (pm_first m) as" by (simp add: owned_def)
  have "a \<notin> dom (pm_pools m)" using a by auto
  then show ?thesis using pools_owned_sems [OF po] pools_owned_dom [OF po] by simp
qed

lemma new_hdfstream_run:
  assumes ml: "handle_mallocs_ok hs ex ml m" and own: "owned m as"
    and h_def: "h = \<lparr>hh_max_open_files = f, hh_max_open_datasets = d, hh_executable = ex, hh_pool = NULL\<rparr>"
    and e_def: "e = (case executable of Some e \<Rightarrow> e | None \<Rightarrow> default_executable)"
  shows "new_hdfstream hs ex ml junk sem_ok mutex_ok default_executable n executable f d c x m =
    Some (if sem_ok \<and> mutex_ok
          then (created hs h ml junk (nat n) e [e, show_int f, show_int d, show_int c, show_int x] m, hs) else (m, NULL))"
proof -
  have e: "hdfstream_new_with_executable default_executable executable f d c x =
      (\<lparr>hs_max_open_files = f, hs_max_open_datasets = d, hs_executable = e\<rparr>, [e, show_int f, show_int d, show_int c, show_int x])"
    by (simp add: hdfstream_new_with_executable_def Let_def e_def)
  let ?args = "[e, show_int f, show_int d, show_int c, show_int x]" and ?m = "add_handle hs h e m"
  have "mallocs_ok ml (length ?args) ?m" using add_handle_mallocs [OF ml, of h e] by (simp add: eval_nat_numeral h_def)
  moreover have "ml_pool ml \<notin> pm_sems ?m"
    using owned_free_address [OF own, of "ml_pool ml"] ml by (simp add: handle_mallocs_ok_def mallocs_ok_def fresh_def add_handle_def)
  ultimately have p: "new_pool ml junk sem_ok mutex_ok (nat n) e ?args hs ?m =
      Some (if sem_ok \<and> mutex_ok then (with_pool ml junk (nat n) e ?args hs ?m, ml_pool ml) else (?m, NULL))"
    by (rule new_pool_ok)
  have fr: "hs \<noteq> NULL" "ex \<noteq> NULL" "ml_pool ml \<noteq> NULL" "(pm_handles m)(hs := None) = pm_handles m" "(pm_strings m)(ex := None) = pm_strings m"
    using ml by (auto simp: handle_mallocs_ok_def mallocs_ok_def fresh_def)
  have run: "new_hdfstream hs ex ml junk sem_ok mutex_ok default_executable n executable f d c x m = do {
       (m, pool) \<leftarrow> new_pool ml junk sem_ok mutex_ok (nat n) e ?args hs ?m;
       handles \<leftarrow> update (pm_handles m) hs (\<lambda>h. h\<lparr>hh_pool := pool\<rparr>);
       let m = m\<lparr>pm_handles := handles\<rparr>;
       (if pool = NULL then do { m \<leftarrow> free_handle hs m; Some (m, NULL) } else Some (m, hs)) }"
    by (simp add: new_hdfstream_def e add_handle_def h_def)
  show ?thesis
  proof (cases "sem_ok \<and> mutex_ok")
    case False
    with p have p': "new_pool ml junk sem_ok mutex_ok (nat n) e ?args hs ?m = Some (?m, NULL)" by (simp only: if_False)
    show ?thesis using fr False unfolding run p' by (auto simp: add_handle_def heap_simps free_handle_def h_def)
  next
    case True
    let ?w = "with_pool ml junk (nat n) e ?args hs ?m"
    from True p have p': "new_pool ml junk sem_ok mutex_ok (nat n) e ?args hs ?m = Some (?w, ml_pool ml)"
      by (simp only: simp_thms if_True)
    have "pm_handles ?w = (pm_handles m)(hs \<mapsto> h)" by (simp add: with_pool_def add_handle_def)
    then show ?thesis using fr True unfolding run p' created_def by (simp add: heap_simps)
  qed
qed

lemma created_strings:
  assumes ml: "handle_mallocs_ok hs ex ml m" and h: "hh_executable h = ex" and args: "length args = 5"
    and y: "y = ex \<or> y \<in> dom (pm_strings m)"
  shows "pm_strings (created hs h ml junk n e args m) y = ((pm_strings m)(ex := Some e)) y"
proof -
  have fr: "distinct (ml_executable ml # ml_arg ml)" "length (ml_arg ml) = length args"
    "list_all (fresh (pm_strings m)) (ml_executable ml # ml_arg ml)" "ex \<notin> set (ml_executable ml # ml_arg ml)"
    using ml args by (auto simp: handle_mallocs_ok_def mallocs_ok_def)
  have "y \<notin> set (ml_executable ml # ml_arg ml)" using y fr(3,4) by (auto simp: list_all_iff fresh_def)
  from new_strings_lookup(3) [OF fr(1,2) this] show ?thesis by (simp add: created_def with_pool_def add_handle_def h)
qed

lemma created_owned:
  assumes ml: "handle_mallocs_ok hs ex ml m" and h: "hh_executable h = ex" and own: "owned m as" and args: "length args = 5"
  shows "owned (created hs h ml junk n e args m) (ml_pool ml # as)"
proof -
  let ?m1 = "add_handle hs h e m" and ?R = "pm_strings m |` executables m" and ?m = "created hs h ml junk n e args m"
  have po: "pools_owned ?R m (pm_first m) as" and sub: "executables m \<subseteq> dom (pm_strings m)" using own by (simp_all add: owned_def)
  have fr: "pm_strings m ex = None" "pm_handles m hs = None" using ml by (simp_all add: handle_mallocs_ok_def fresh_def)
  have "pools_owned (?R(ex := Some e)) (m\<lparr>pm_strings := (pm_strings m)(ex := Some e)\<rparr>) (pm_first m) as"
    by (rule pools_owned_string [OF po]) (simp add: fr)
  then have "pools_owned (?R(ex := Some e)) ?m1 (pm_first m) as"
    by (rule pools_owned_same) (simp add: add_handle_def h same_blocks_def)
  then have po1: "pools_owned (?R(ex := Some e)) ?m1 (pm_first ?m1) as" by (simp add: add_handle_def)
  have "mallocs_ok ml (length args) ?m1" using add_handle_mallocs [OF ml h] args by simp
  from new_pool_owned [OF this po1]
  have "pools_owned (?R(ex := Some e)) (with_pool ml junk n e args hs ?m1) (ml_pool ml) (ml_pool ml # as)" .
  then have own': "pools_owned (?R(ex := Some e)) ?m (ml_pool ml) (ml_pool ml # as)"
    by (rule pools_owned_same) (simp add: created_def same_blocks_def)
  have ex: "executables ?m = insert ex (executables m)"
    using fr(2) h by (simp add: executables_def created_def ran_map_upd)
  have str: "pm_strings ?m y = ((pm_strings m)(ex := Some e)) y" if "y \<in> insert ex (executables m)" for y
    using that sub by (intro created_strings [OF ml h args]) auto
  have "?R(ex := Some e) = pm_strings ?m |` executables ?m"
    unfolding ex using str by (auto simp: fun_eq_iff restrict_map_def)
  moreover have "executables ?m \<subseteq> dom (pm_strings ?m)" unfolding ex using str sub by auto
  moreover have "pm_first ?m = ml_pool ml" by (simp add: created_def with_pool_def)
  moreover have "pm_atexit ?m = 1"
    using own pools_owned.elims(2) [OF po] by (auto simp: owned_def created_def with_pool_def add_handle_def owns_def)
  ultimately show ?thesis using own' by (simp add: owned_def)
qed

lemma created_simps:
  "pool_at (created hs h ml junk n e args m) b = pool_at (with_pool ml junk n e args hs (add_handle hs h e m)) b"
  "pool_command (created hs h ml junk n e args m) b = pool_command (with_pool ml junk n e args hs (add_handle hs h e m)) b"
  "terminated (created hs h ml junk n e args m) b \<longleftrightarrow> terminated (with_pool ml junk n e args hs (add_handle hs h e m)) b"
  "pm_pools (created hs h ml junk n e args m) = pm_pools (with_pool ml junk n e args hs (add_handle hs h e m))"
  "pm_strings (created hs h ml junk n e args m) = pm_strings (with_pool ml junk n e args hs (add_handle hs h e m))"
  "pm_args (created hs h ml junk n e args m) = pm_args (with_pool ml junk n e args hs (add_handle hs h e m))"
  "pm_workers (created hs h ml junk n e args m) = pm_workers (with_pool ml junk n e args hs (add_handle hs h e m))"
  "pm_states (created hs h ml junk n e args m) = pm_states (with_pool ml junk n e args hs (add_handle hs h e m))"
  "pm_handles (created hs h ml junk n e args m) = (pm_handles m)(hs \<mapsto> h\<lparr>hh_pool := ml_pool ml\<rparr>)"
  "pool_at (add_handle hs h e m) b = pool_at m b" "pm_pools (add_handle hs h e m) = pm_pools m"
  "pm_args (add_handle hs h e m) = pm_args m" "pm_workers (add_handle hs h e m) = pm_workers m"
  "pm_states (add_handle hs h e m) = pm_states m"
  by (simp_all add: created_def pool_at_def pool_command_def terminated_def add_handle_def)

text \<open>The new pool, and the pools that were there before.\<close>

lemma created_new:
  assumes ml: "handle_mallocs_ok hs ex ml m" and h: "hh_executable h = ex" and args: "length args = 5"
    and m': "m' = created hs h ml junk n e args m"
  shows "pool_at m' (ml_pool ml) = Some (process_pool_new n)" and "map_option ps_data (pm_pools m' (ml_pool ml)) = Some hs"
    and "pool_command m' (ml_pool ml) = Some (e, args)" and "terminated m' (ml_pool ml)" and "pm_strings m' ex = Some e"
proof -
  have ml1: "mallocs_ok ml (length args) (add_handle hs h e m)" using add_handle_mallocs [OF ml h] unfolding args .
  show "pool_at m' (ml_pool ml) = Some (process_pool_new n)" "pool_command m' (ml_pool ml) = Some (e, args)"
    using new_pool_at [OF ml1] new_pool_command [OF ml1] by (simp_all add: m' created_simps)
  show "map_option ps_data (pm_pools m' (ml_pool ml)) = Some hs" "terminated m' (ml_pool ml)"
    using ml1 by (simp_all add: m' created_simps terminated_def with_pool_def new_struct_def mallocs_ok_def)
  have "ex \<notin> set (ml_executable ml # ml_arg ml)" using ml by (simp add: handle_mallocs_ok_def)
  then show "pm_strings m' ex = Some e"
    using new_strings_lookup(3) ml1 by (simp add: m' created_simps with_pool_def mallocs_ok_def add_handle_def h)
qed

lemma created_others:
  assumes ml: "handle_mallocs_ok hs ex ml m" and h: "hh_executable h = ex" and args: "length args = 5"
    and m': "m' = created hs h ml junk n e args m" and own: "owned m as" and b: "b \<in> set as"
  shows "b \<noteq> ml_pool ml" and "pool_at m' b = pool_at m b" and "pm_pools m' b = pm_pools m b"
    and "terminated m b \<Longrightarrow> terminated m' b"
    and "terminated m b \<Longrightarrow> pool_command m b = Some c \<Longrightarrow> pool_command m' b = Some c"
proof -
  let ?m1 = "add_handle hs h e m" and ?R = "pm_strings m |` executables m"
  have ex: "pm_strings m ex = None" using ml by (simp add: handle_mallocs_ok_def fresh_def)
  have ml1: "mallocs_ok ml (length args) ?m1" using add_handle_mallocs [OF ml h] unfolding args .
  have po: "pools_owned ?R m (pm_first m) as" using own by (simp add: owned_def)
  have "pools_owned (?R(ex := Some e)) (m\<lparr>pm_strings := (pm_strings m)(ex := Some e)\<rparr>) (pm_first m) as"
    by (rule pools_owned_string [OF po]) (simp add: ex)
  then have po1: "pools_owned (?R(ex := Some e)) ?m1 (pm_first m) as"
    by (rule pools_owned_same) (simp add: add_handle_def h same_blocks_def)
  note others = new_pool_others [OF ml1 po1 b refl [of "with_pool ml junk n e args hs ?m1"]]
  show "b \<noteq> ml_pool ml" "pool_at m' b = pool_at m b" "pm_pools m' b = pm_pools m b"
    using others(1-3) by (simp_all add: m' created_simps)
  obtain ps argv where o: "owns m b ps argv" using owned_owns [OF own b] by blast
  have o1: "owns ?m1 b ps argv" using o by (auto simp: owns_def add_handle_def h)
  have s: "pm_strings ?m1 y = pm_strings m y" if "y \<in> set (pool_strings ps argv)" for y
    using that o ex by (auto simp: owns_def add_handle_def h)
  have a: "pm_args m' (ps_args ps) = pm_args m (ps_args ps)"
    "\<And>y. y \<in> set (pool_strings ps argv) \<Longrightarrow> pm_strings m' y = pm_strings m y"
    using others(4) [OF o1] s by (simp_all add: m' created_simps)
  have p: "pm_pools m' b = Some ps" "pm_pools m b = Some ps" using others(3) o by (simp_all add: owns_def m' created_simps)
  show "terminated m b \<Longrightarrow> terminated m' b" using p a(1) by (auto simp: terminated_def)
  show "terminated m b \<Longrightarrow> pool_command m b = Some c \<Longrightarrow> pool_command m' b = Some c"
    using pool_command_agree [OF _ o _ p(1) refl a] by blast
qed

lemma created_handles:
  "pm_handles m hs = None \<Longrightarrow> pm_handles (created hs h ml junk n e args m) hs' = Some h' \<longleftrightarrow>
   hs' = hs \<and> h' = h\<lparr>hh_pool := ml_pool ml\<rparr> \<or> pm_handles m hs' = Some h' \<and> hs' \<noteq> hs"
  by (auto simp: created_simps)

lemma created_executable:
  assumes ml: "handle_mallocs_ok hs ex ml m" and h: "hh_executable h = ex" and args: "length args = 5"
    and own: "owned m as" and h': "pm_handles m hs' = Some h'"
  shows "hh_executable h' \<noteq> ex \<and>
    pm_strings (created hs h ml junk n e args m) (hh_executable h') = pm_strings m (hh_executable h')"
proof -
  have "hh_executable h' \<in> executables m" using h' unfolding in_executables by blast
  then have "hh_executable h' \<in> dom (pm_strings m)" using own by (auto simp: owned_def)
  moreover from this have "hh_executable h' \<noteq> ex" using ml by (auto simp: handle_mallocs_ok_def fresh_def)
  ultimately show ?thesis using created_strings [OF ml h args] by simp
qed

lemma created_handles_ok:
  assumes ml: "handle_mallocs_ok hs ex ml m" and h: "hh_executable h = ex" and args: "length args = 5"
    and own: "owned m as" and ok: "handles_ok m"
  shows "handles_ok (created hs h ml junk n e args m)"
proof -
  let ?m = "created hs h ml junk n e args m"
  have fr: "pm_handles m hs = None" "hs \<noteq> NULL" "ex \<noteq> NULL" using ml by (simp_all add: handle_mallocs_ok_def fresh_def)
  note handles = created_handles [OF fr(1)] and exec = created_executable [OF ml h args own, of _ _ junk n e]
  show ?thesis
    unfolding handles_ok_def
  proof (intro conjI allI impI)
    fix hs' h' assume "pm_handles ?m hs' = Some h'"
    then consider "hs' = hs" "h' = h\<lparr>hh_pool := ml_pool ml\<rparr>" | "pm_handles m hs' = Some h'" unfolding handles by blast
    then have "hs' \<noteq> NULL \<and> hh_executable h' \<noteq> NULL \<and> map_option ps_data (pm_pools ?m (hh_pool h')) = Some hs'"
    proof cases
      case 1
      then show ?thesis using fr h created_new(2) [OF ml h args refl] by simp
    next
      case 2
      then show ?thesis using ok created_others(3) [OF ml h args refl own handle_pool [OF own ok 2]]
        by (simp add: handles_ok_def)
    qed
    then show "hs' \<noteq> NULL" "hh_executable h' \<noteq> NULL" "map_option ps_data (pm_pools ?m (hh_pool h')) = Some hs'" by simp_all
  next
    fix hs1 hs2 h1 h2 assume "pm_handles ?m hs1 = Some h1" "pm_handles ?m hs2 = Some h2" "hh_executable h1 = hh_executable h2"
    then show "hs1 = hs2" using ok exec [of hs1 h1] exec [of hs2 h2] h unfolding handles handles_ok_def by auto
  qed
qed

lemma created_commands_ok:
  assumes ml: "handle_mallocs_ok hs ex ml m" and own: "owned m as" and ok: "handles_ok m" and c: "commands_ok m"
    and t: "\<And>b. b \<in> set as \<Longrightarrow> terminated m b"
    and h: "h = \<lparr>hh_max_open_files = f, hh_max_open_datasets = d, hh_executable = ex, hh_pool = NULL\<rparr>"
    and args: "args = [e, show_int f, show_int d, show_int cc, show_int x]"
  shows "commands_ok (created hs h ml junk n e args m)"
  unfolding commands_ok_def
proof (intro allI impI)
  let ?m = "created hs h ml junk n e args m"
  have hex: "hh_executable h = ex" and len: "length args = 5" by (simp_all add: h args eval_nat_numeral)
  have fr: "pm_handles m hs = None" using ml by (simp add: handle_mallocs_ok_def fresh_def)
  fix hs' h' assume "pm_handles ?m hs' = Some h'"
  then consider "h' = h\<lparr>hh_pool := ml_pool ml\<rparr>" | "pm_handles m hs' = Some h'" unfolding created_handles [OF fr] by blast
  then show "\<exists>e c x. pm_strings ?m (hh_executable h') = Some e \<and> pool_command ?m (hh_pool h') =
       Some (e, [e, show_int (hh_max_open_files h'), show_int (hh_max_open_datasets h'), show_int c, show_int x])"
  proof cases
    case 1
    then show ?thesis using created_new(3,5) [OF ml hex len refl, of junk n e] by (auto simp: h args)
  next
    case 2
    note b = handle_pool [OF own ok 2]
    show ?thesis
      using c 2 created_others(5) [OF ml hex len refl own b t [OF b]] created_executable [OF ml hex len own 2, of junk n e]
      unfolding commands_ok_def by metis
  qed
qed

lemma create_inv:
  assumes inv: "program_inv s as" and ml: "handle_mallocs_ok hs ex ml (pr_mem s)"
    and h: "h = \<lparr>hh_max_open_files = f, hh_max_open_datasets = d, hh_executable = ex, hh_pool = NULL\<rparr>"
    and m: "m = created hs h ml junk n e [e, show_int f, show_int d, show_int c, show_int x] (pr_mem s)"
  shows "program_inv \<lparr>pr_mem = m, pr_threads = (pr_threads s)(ml_pool ml := replicate k Outside)\<rparr> (ml_pool ml # as)"
proof -
  let ?m = "pr_mem s" and ?a = "ml_pool ml" and ?s = "\<lparr>pr_mem = m, pr_threads = (pr_threads s)(ml_pool ml := replicate k Outside)\<rparr>"
  have own: "owned ?m as" and ok: "\<And>b. b \<in> set as \<Longrightarrow> pool_ok s b" and H: "handles_ok ?m" and C: "commands_ok ?m" and ap: "apart ?m"
    using inv by (simp_all add: program_inv_def)
  have hex: "hh_executable h = ex" and args: "length [e, show_int f, show_int d, show_int c, show_int x] = 5"
    by (simp_all add: h eval_nat_numeral)
  have fr: "pm_handles ?m hs = None" using ml by (simp add: handle_mallocs_ok_def fresh_def)
  have own': "owned m (?a # as)" unfolding m by (rule created_owned [OF ml hex own args])
  note new = created_new [OF ml hex args m] and old = created_others [OF ml hex args m own]
  note handles = created_handles [OF fr, of h ml junk n e "[e, show_int f, show_int d, show_int c, show_int x]", folded m]
  obtain ps where ps: "pm_pools m ?a = Some ps" "ps_data ps = hs" using new(2) by auto
  have "pool_ok ?s ?a"
    using new(1,4) ps pool_inv_init [of n k] by (auto simp: pool_ok_def pool_init_def handles)
  moreover have "pool_ok ?s b" if b: "b \<in> set as" for b
  proof -
    obtain pb where "pool_at ?m b = Some pb" "pool_inv \<lparr>pool = pb, clients = pr_threads s b\<rparr>" "terminated ?m b"
      "\<not> stop pb \<Longrightarrow> \<exists>ps h. pm_pools ?m b = Some ps \<and> pm_handles ?m (ps_data ps) = Some h \<and> hh_pool h = b"
      using ok [OF b] unfolding pool_ok_def by blast
    then show ?thesis using old(1-4) [OF b] fr by (auto simp: pool_ok_def handles) (metis option.distinct(1))
  qed
  moreover have "handles_ok m" unfolding m by (rule created_handles_ok [OF ml hex args own H])
  moreover have "terminated ?m b" if "b \<in> set as" for b using ok [OF that] by (auto simp: pool_ok_def)
  then have "commands_ok m" unfolding m by (intro created_commands_ok [OF ml own H C _ h refl])
  moreover have "apart m"
  proof -
    have "Some w \<notin> set (worker (process_pool_new n))" for w by (auto simp: process_pool_new_def)
    moreover have "b = ?a \<or> b \<noteq> ?a \<and> pool_at ?m b = Some pb" if "pool_at m b = Some pb" for b pb
      using pool_at_in [OF own' that] old(2) that by auto
    ultimately show ?thesis using ap new(1) unfolding apart_def by (metis option.inject)
  qed
  ultimately show ?thesis using own' by (simp add: program_inv_def)
qed

theorem program_inv_reach: "program_reach default_executable s \<Longrightarrow> \<exists>as. program_inv s as"
  unfolding program_reach_def
proof (induction rule: rtranclp_induct)
  case base
  then show ?case using init_inv by blast
next
  case (step s s')
  then obtain as where inv: "program_inv s as" by blast
  from step.hyps(2) show ?case
  proof cases
    case (create hs ex ml junk sem_ok mutex_ok n executable f d c x m r k)
    have own: "owned (pr_mem s) as" using inv by (simp add: program_inv_def)
    show ?thesis
    proof (cases "sem_ok \<and> mutex_ok")
      case False
      then have "m = pr_mem s" "r = NULL" using create(3) new_hdfstream_run [OF create(2) own refl refl] by auto
      then have "s' = s" using create(1) by (cases s) simp
      then show ?thesis using inv by auto
    next
      case True
      let ?h = "\<lparr>hh_max_open_files = f, hh_max_open_datasets = d, hh_executable = ex, hh_pool = NULL\<rparr>"
      let ?e = "case executable of Some e \<Rightarrow> e | None \<Rightarrow> default_executable"
      have m: "m = created hs ?h ml junk (nat n) ?e [?e, show_int f, show_int d, show_int c, show_int x] (pr_mem s) \<and> r = hs"
        using create(3) True unfolding new_hdfstream_run [OF create(2) own refl refl] by auto
      have "hs \<noteq> NULL" using create(2) by (simp add: handle_mallocs_ok_def fresh_def)
      then have "s' = \<lparr>pr_mem = m, pr_threads = (pr_threads s)(ml_pool ml := replicate k Outside)\<rparr>" using create(1) m by simp
      then show ?thesis using create_inv [OF inv create(2) refl conjunct1 [OF m], of k] by blast
    qed
  next
    case (step a p q m)
    then show ?thesis using step_inv [OF inv] by blast
  next
    case (free hs h p m)
    then show ?thesis using free_inv [OF inv] by blast
  qed
qed

section \<open>A program with one pool\<close>

text \<open>Every run of the threads of a pool is a run of the program, when it is the only pool.\<close>

lemma pool_run_lifts:
  assumes run: "pool_reach \<lparr>pool = p, clients = cs\<rparr> q"
    and s: "program_reach e s" "pool_at (pr_mem s) a = Some p" "pr_threads s a = cs" "\<And>b. b \<noteq> a \<Longrightarrow> pool_at (pr_mem s) b = None"
  shows "\<exists>s'. program_reach e s' \<and> pool_at (pr_mem s') a = Some (pool q) \<and> pr_threads s' a = clients q \<and>
    (\<forall>b. b \<noteq> a \<longrightarrow> pool_at (pr_mem s') b = None) \<and> pm_handles (pr_mem s') = pm_handles (pr_mem s)"
  using run
proof (induction rule: rtranclp_induct)
  case base
  then show ?case using s by auto
next
  case (step q q')
  then obtain t where t: "program_reach e t" "pool_at (pr_mem t) a = Some (pool q)" "pr_threads t a = clients q"
    "\<forall>b. b \<noteq> a \<longrightarrow> pool_at (pr_mem t) b = None" "pm_handles (pr_mem t) = pm_handles (pr_mem s)" by blast
  obtain as where "program_inv t as" using program_inv_reach [OF t(1)] by blast
  then have po: "pools_owned (pm_strings (pr_mem t) |` executables (pr_mem t)) (pr_mem t) (pm_first (pr_mem t)) as"
    by (simp add: program_inv_def owned_def)
  have q: "\<lparr>pool = pool q, clients = pr_threads t a\<rparr> = q" using t(3) by (cases q) simp
  obtain m where st: "pool_store a (pool q') (pr_mem t) = Some m" "same_blocks (pr_mem t) m" and m: "pool_at m a = Some (pool q')"
    "\<And>b. b \<noteq> a \<Longrightarrow> pool_at m b = pool_at (pr_mem t) b"
    "pm_handles m = pm_handles (pr_mem t)" "pm_first m = pm_first (pr_mem t)" "pm_atexit m = pm_atexit (pr_mem t)"
    "\<And>b. map_option ps_data (pm_pools m b) = map_option ps_data (pm_pools (pr_mem t) b)"
    by (rule pool_store_ok [OF po t(2) max_step [OF step.hyps(2)]]) (rule that)
  let ?t = "\<lparr>pr_mem = m, pr_threads = (pr_threads t)(a := clients q')\<rparr>"
  have "pool_step \<lparr>pool = pool q, clients = pr_threads t a\<rparr> q'" unfolding q by (rule step.hyps(2))
  moreover have "\<forall>b p' w. b \<noteq> a \<longrightarrow> pool_at (pr_mem t) b = Some p' \<longrightarrow> Some w \<in> set (worker (pool q')) \<longrightarrow>
      Some w \<notin> set (worker (pool q)) \<longrightarrow> Some w \<notin> set (worker p')" using t(4) by simp
  ultimately have "program_step e t ?t" using st(1) by (rule program_step.step [OF t(2)])
  then have "program_reach e ?t" using t(1) unfolding program_reach_def by (rule rtranclp.rtrancl_into_rtrancl [rotated])
  then show ?case using m(1-3) t(4,5) by (intro exI [of _ ?t]) simp
qed

text \<open>A program that creates one handle, whose pool has one process and two threads.\<close>

definition sample_struct :: pool_struct where
  "sample_struct = \<lparr>ps_max_nr_processes = 0, ps_nr_processes_running = 0, ps_executable = 0, ps_nargs = 0, ps_args = 0,
     ps_worker = 0, ps_worker_state = 0, ps_sem = 0, ps_data = 0, ps_next = 0, ps_stop = True, ps_next_pool = 0\<rparr>"

definition sample_mallocs :: pool_mallocs where
  "sample_mallocs = \<lparr>ml_pool = 1, ml_worker = 1, ml_state = 1, ml_executable = 2, ml_args = 1, ml_arg = [3, 4, 5, 6, 7]\<rparr>"

definition sample_handle :: hdfstream_struct where
  "sample_handle = \<lparr>hh_max_open_files = 4, hh_max_open_datasets = 8, hh_executable = 1, hh_pool = NULL\<rparr>"

definition sample_program :: program where
  "sample_program = \<lparr>pr_mem = created 1 sample_handle sample_mallocs sample_struct 1 ''reader''
       [''reader'', show_int 4, show_int 8, show_int 5, show_int 60] (pr_mem program_init),
     pr_threads = (pr_threads program_init)(1 := replicate 2 Outside)\<rparr>"

lemma sample_mallocs_ok: "handle_mallocs_ok 1 1 sample_mallocs (pr_mem program_init)"
  by (simp add: handle_mallocs_ok_def mallocs_ok_def fresh_def sample_mallocs_def program_init_def)

lemma sample_reach: "program_reach ''reader'' sample_program"
proof -
  have own: "owned (pr_mem program_init) []" using init_inv by (simp add: program_inv_def)
  have "new_hdfstream 1 1 sample_mallocs sample_struct True True ''reader'' 1 None 4 8 5 60 (pr_mem program_init) =
      Some (pr_mem sample_program, 1)"
    unfolding new_hdfstream_run [OF sample_mallocs_ok own refl refl] sample_program_def sample_handle_def by simp
  from program_step.create [OF sample_mallocs_ok this, of 2] have "program_step ''reader'' program_init sample_program"
    by (simp add: sample_program_def sample_mallocs_def)
  then show ?thesis unfolding program_reach_def by blast
qed

lemma sample_at: "pool_at (pr_mem sample_program) 1 = Some (process_pool_new 1)" "b \<noteq> 1 \<Longrightarrow> pool_at (pr_mem sample_program) b = None"
  by (simp_all add: sample_program_def created_simps pool_at_def with_pool_def sample_mallocs_def load_def new_struct_def
      program_init_def process_pool_new_def)

lemma sample_run:
  assumes "pool_reach (pool_init 1 2) q"
  obtains s where "program_reach ''reader'' s" "pool_at (pr_mem s) 1 = Some (pool q)" "pr_threads s 1 = clients q"
    "pm_handles (pr_mem s) = pm_handles (pr_mem sample_program)"
proof -
  have "pool_reach \<lparr>pool = process_pool_new 1, clients = replicate 2 Outside\<rparr> q" using assms by (simp add: pool_init_def)
  moreover have "pr_threads sample_program 1 = replicate 2 Outside" by (simp add: sample_program_def)
  ultimately show thesis using pool_run_lifts [OF _ sample_reach sample_at(1) _ sample_at(2)] that by blast
qed

section \<open>Properties\<close>

text \<open>
  C14. In the whole program, with any number of handles and of threads, a worker is used by at most one
  thread at a time: the slot of a worker that a thread holds is BUSY and still has the worker, so it
  has not been freed, and no other thread of any pool holds it.  No pool runs more processes
  than its maximum, and nr_processes_running is the number of slots that are not STOPPED.
\<close>

theorem program_exclusive:
  assumes "program_reach e s" and "pool_at (pr_mem s) a = Some p"
    and "i < length (pr_threads s a)" and "holds (pr_threads s a ! i) = Some w"
  shows "(\<exists>j < max_nr_processes p. worker p ! j = Some w \<and> worker_state p ! j = BUSY) \<and>
    (\<forall>b q i'. pool_at (pr_mem s) b = Some q \<longrightarrow> i' < length (pr_threads s b) \<longrightarrow> holds (pr_threads s b ! i') = Some w \<longrightarrow>
       b = a \<and> i' = i) \<and>
    nr_processes_running p = length (filter (\<lambda>st. st \<noteq> STOPPED) (worker_state p)) \<and> nr_processes_running p \<le> max_nr_processes p"
proof -
  obtain as where inv: "program_inv s as" using program_inv_reach [OF assms(1)] by blast
  have pinv: "pool_inv \<lparr>pool = q, clients = pr_threads s b\<rparr>" if "pool_at (pr_mem s) b = Some q" for b q
    using inv pool_at_in that unfolding program_inv_def pool_ok_def by (metis option.inject)
  note excl = inv_exclusive [OF pinv, simplified]
  have mem: "Some w \<in> set (worker q)"
    if b: "pool_at (pr_mem s) b = Some q" "i' < length (pr_threads s b)" "holds (pr_threads s b ! i') = Some w" for b q i'
  proof -
    obtain j where "j < max_nr_processes q" "worker q ! j = Some w" using excl [OF b] by blast
    then show ?thesis using pinv [OF b(1)] nth_mem [of j "worker q"] by (simp add: pool_inv_def pool_shape_def)
  qed
  have "b = a" if b: "pool_at (pr_mem s) b = Some q" "i' < length (pr_threads s b)" "holds (pr_threads s b ! i') = Some w" for b q i'
    using mem [OF b] mem [OF assms(2-4)] inv b(1) assms(2) unfolding program_inv_def apart_def by blast
  then have "b = a \<and> i' = i" if "pool_at (pr_mem s) b = Some q" "i' < length (pr_threads s b)" "holds (pr_threads s b ! i') = Some w" for b q i'
    using that excl [OF assms(2-4)] by metis
  then show ?thesis using excl [OF assms(2-4)] inv_bounds [OF pinv [OF assms(2)]] by simp
qed

theorem program_exclusive_witness:
  "\<exists>s p. program_reach ''reader'' s \<and> pool_at (pr_mem s) 1 = Some p \<and> pr_threads s 1 = [Holding 5, Outside] \<and>
     (\<exists>j < max_nr_processes p. worker p ! j = Some 5 \<and> worker_state p ! j = BUSY)"
proof -
  let ?q = "one_slot 1 (Some 5) BUSY 0 [Holding 5, Outside]"
  obtain s where s: "program_reach ''reader'' s" "pool_at (pr_mem s) 1 = Some (pool ?q)" "pr_threads s 1 = clients ?q"
    using sample_run [OF reach_holding] by blast
  have "pr_threads s 1 = [Holding 5, Outside]" using s(3) by (simp add: one_slot_def)
  with program_exclusive [OF s(1,2), of 0 5] s(1,2) show ?thesis by auto
qed

text \<open>
  C34. No process is started with a handle that has been freed: whenever the outcome of
  worker_process_new() can matter, so that process_pool_start_worker() calls it, the handle that
  reader_init() is going to read is allocated, and the copies of the arguments in the pool are the
  executable and the limits of this handle.
\<close>

theorem handle_outlives_starts:
  assumes "program_reach e s" and "pool_at (pr_mem s) a = Some p"
    and "process_pool_start_worker (Some w) p \<noteq> process_pool_start_worker None p"
  shows "\<exists>ps hs c x. pm_pools (pr_mem s) a = Some ps \<and> handle_at (pr_mem s) (ps_data ps) = Some hs \<and>
    pool_command (pr_mem s) a = Some (hs_executable hs, [hs_executable hs, show_int (hs_max_open_files hs),
      show_int (hs_max_open_datasets hs), show_int c, show_int x])"
proof -
  obtain as where inv: "program_inv s as" using program_inv_reach [OF assms(1)] by blast
  have "\<not> stop p" using assms(3) by (auto simp: process_pool_start_worker_def)
  then obtain ps h where h: "pm_pools (pr_mem s) a = Some ps" "pm_handles (pr_mem s) (ps_data ps) = Some h" "hh_pool h = a"
    using inv pool_at_in assms(2) unfolding program_inv_def pool_ok_def by (metis option.inject)
  obtain e c x where "pm_strings (pr_mem s) (hh_executable h) = Some e"
    "pool_command (pr_mem s) a = Some (e, [e, show_int (hh_max_open_files h), show_int (hh_max_open_datasets h), show_int c, show_int x])"
    using inv h unfolding program_inv_def commands_ok_def by blast
  moreover have "ps_data ps \<noteq> NULL" "hh_executable h \<noteq> NULL" using inv h(2) unfolding program_inv_def handles_ok_def by blast+
  ultimately have "handle_at (pr_mem s) (ps_data ps) = Some \<lparr>hs_max_open_files = hh_max_open_files h,
      hs_max_open_datasets = hh_max_open_datasets h, hs_executable = e\<rparr>"
    using h(2) by (simp add: handle_at_def heap_simps)
  then show ?thesis using h(1) \<open>pool_command _ _ = _\<close> by auto
qed

theorem handle_outlives_starts_witness:
  "\<exists>ps hs. pm_pools (pr_mem sample_program) 1 = Some ps \<and> handle_at (pr_mem sample_program) (ps_data ps) = Some hs"
proof -
  have "process_pool_start_worker (Some 5) (process_pool_new 1) \<noteq> process_pool_start_worker None (process_pool_new 1)"
    by (simp add: process_pool_start_worker_def process_pool_new_def)
  from handle_outlives_starts [OF sample_reach sample_at(1) this] show ?thesis by blast
qed



end
