(* ===== verification/CloseStream.thy ===== *)
theory CloseStream
  imports Streams PoolProperties
begin

text \<open>
  hdfstream_close_stream() of src/src/lib/hdfstream.c as a whole: the flag that tells the reader to
  stop, the loop that reads on to the end of the stream, and the return of the worker to the pool.
  Theory DataStream has the same loop as steps that are interleaved with those of the reader; here
  the reader takes no steps, which is the case when it has died.
\<close>

partial_function (option) drain_loop :: "bool \<Rightarrow> shared \<Rightarrow> data_stream \<Rightarrow> (shared \<times> data_stream) option" where
  "drain_loop dead sh stream = do {
     (sh, stream, data, status) \<leftarrow> hdfstream_read_chunk dead sh stream;
     (if length data > 0 then drain_loop dead sh stream else Some (sh, stream)) }"

text \<open>alive is what worker_process_is_alive() answers; the last result is that of release_worker.\<close>

definition hdfstream_close_stream ::
  "bool \<Rightarrow> bool \<Rightarrow> shared \<Rightarrow> data_stream \<Rightarrow> addr \<Rightarrow> process_pool \<Rightarrow> (shared \<times> data_stream \<times> process_pool \<times> bool) option" where
  "hdfstream_close_stream dead alive sh stream w p = do {
     (sh, stream) \<leftarrow> (if \<not> ds_ended stream then drain_loop dead (cancel sh) stream else Some (sh, stream));
     (case release_worker w alive p of (p, running) \<Rightarrow> Some (sh, stream, p, running)) }"

section \<open>The loop ends\<close>

text \<open>The number of full buffers that a dead reader has left.\<close>

definition unread :: "shared \<Rightarrow> nat" where
  "unread sh = sum_list (map bd_ready_for_read (srd_buffer (sh_srd sh)))"

lemma sum_list_update:
  "i < length xs \<Longrightarrow> sum_list (map f (xs[i := x])) + f (xs ! i) = sum_list (map f xs) + (f x :: nat)"
  by (induction xs arbitrary: i) (auto split: nat.splits)

lemma unread_update:
  "i < length (srd_buffer (sh_srd sh)) \<Longrightarrow>
   unread (upd_buffer i g sh) + bd_ready_for_read (buffer sh i) = unread sh + bd_ready_for_read (g (buffer sh i))"
  unfolding unread_def upd_buffer_def by (simp add: sum_list_update)

lemma read_chunk_progress:
  assumes "length (srd_buffer (sh_srd sh)) = NR_BUFFERS" and "ds_next_buffer stream < NR_BUFFERS"
  obtains sh' stream' data status where "hdfstream_read_chunk True sh stream = Some (sh', stream', data, status)"
    "ds_ended stream' \<and> data = [] \<or>
     data \<noteq> [] \<and> unread sh' < unread sh \<and> length (srd_buffer (sh_srd sh')) = NR_BUFFERS \<and> ds_next_buffer stream' < NR_BUFFERS"
proof (cases "ds_ended stream")
  case True
  then show thesis using that by (simp add: hdfstream_read_chunk_def)
next
  case False
  let ?i = "ds_next_buffer stream"
  have i: "?i < length (srd_buffer (sh_srd sh))" using assms by simp
  show thesis
  proof (cases "bd_ready_for_read (buffer sh ?i)")
    case 0
    then have "hdfstream_read_chunk True sh stream = Some (sh, stream\<lparr>ds_ended := True\<rparr>, [], Some BUFFER_STATUS_ERROR)"
      using False by (simp add: hdfstream_read_chunk_def worker_process_wait_for_semaphore_def sem_trywait_def)
    then show thesis by (rule that) simp
  next
    case (Suc v)
    let ?sh = "upd_buffer ?i (bd_ready_for_write_update sem_post) (upd_buffer ?i (bd_used_update (\<lambda>_. 0))
        (upd_buffer ?i (bd_ready_for_read_update (\<lambda>_. v)) sh))"
    let ?used = "bd_used (buffer sh ?i)" and ?first = "upd_buffer ?i (bd_ready_for_read_update (\<lambda>_. v)) sh"
    have run: "hdfstream_read_chunk True sh stream =
        (if ?used = 0 then Some (?first, stream\<lparr>ds_ended := True\<rparr>, [], Some (bd_status (buffer sh ?i)))
         else Some (?sh, stream\<lparr>ds_next_buffer := (?i + 1) mod NR_BUFFERS\<rparr>, mem_read (sh_mem sh) (bd_offset (buffer sh ?i)) ?used, Some 0))"
      using False Suc by (simp add: hdfstream_read_chunk_def worker_process_wait_for_semaphore_def sem_trywait_def Let_def
          buffer_upd_same [OF i])
    show thesis
    proof (cases "?used = 0")
      case True
      then have "hdfstream_read_chunk True sh stream =
          Some (?first, stream\<lparr>ds_ended := True\<rparr>, [], Some (bd_status (buffer sh ?i)))" using run by simp
      then show thesis by (rule that) simp
    next
      case used: False
      have "unread ?sh < unread sh" using unread_update [OF i, of "bd_ready_for_write_update sem_post \<circ> (bd_used_update (\<lambda>_. 0) \<circ> bd_ready_for_read_update (\<lambda>_. v))"] Suc
        by (simp add: upd_buffer_twice)
      moreover have "(?i + 1) mod NR_BUFFERS < NR_BUFFERS" by (simp add: NR_BUFFERS_def)
      moreover have "mem_read (sh_mem sh) (bd_offset (buffer sh ?i)) ?used \<noteq> []" using used mem_read_length by (metis length_0_conv)
      moreover from used have "hdfstream_read_chunk True sh stream =
          Some (?sh, stream\<lparr>ds_next_buffer := (?i + 1) mod NR_BUFFERS\<rparr>, mem_read (sh_mem sh) (bd_offset (buffer sh ?i)) ?used, Some 0)"
        using run by simp
      ultimately show thesis using assms(1) by (intro that) (assumption, simp)
    qed
  qed
qed

lemma drain_loop_ends:
  "length (srd_buffer (sh_srd sh)) = NR_BUFFERS \<Longrightarrow> ds_next_buffer stream < NR_BUFFERS \<Longrightarrow>
   \<exists>sh' stream'. drain_loop True sh stream = Some (sh', stream') \<and> ds_ended stream'"
proof (induction "unread sh" arbitrary: sh stream rule: less_induct)
  case less
  obtain sh' stream' data status where c: "hdfstream_read_chunk True sh stream = Some (sh', stream', data, status)"
    "ds_ended stream' \<and> data = [] \<or>
     data \<noteq> [] \<and> unread sh' < unread sh \<and> length (srd_buffer (sh_srd sh')) = NR_BUFFERS \<and> ds_next_buffer stream' < NR_BUFFERS"
    by (rule read_chunk_progress [OF less.prems])
  show ?case
  proof (cases "data = []")
    case True
    then show ?thesis using c by (subst drain_loop.simps) simp
  next
    case False
    then obtain sh'' stream'' where "drain_loop True sh' stream' = Some (sh'', stream'')" "ds_ended stream''"
      using c(2) less.hyps by blast
    then show ?thesis using c(1) False by (subst drain_loop.simps) simp
  qed
qed

section \<open>Properties\<close>

text \<open>
  C22. A stream whose reader has died can always be closed: hdfstream_close_stream() returns, however many
  blocks the reader has left in the ring, the stream is at its end, and the worker has left the pool,
  so that its slot is free for a new process and nothing posts the semaphore for it.
\<close>

theorem close_after_crash:
  assumes "length (srd_buffer (sh_srd sh)) = NR_BUFFERS" and "ds_next_buffer stream < NR_BUFFERS"
    and "pool_inv s" and "j < max_nr_processes (pool s)" and "worker (pool s) ! j = Some w"
  shows "\<exists>sh' stream' p. hdfstream_close_stream True False sh stream w (pool s) = Some (sh', stream', p, False) \<and>
    ds_ended stream' \<and> worker_state p ! j = STOPPED \<and> Some w \<notin> set (worker p) \<and> sem p = sem (pool s)"
proof -
  have "length (srd_buffer (sh_srd (cancel sh))) = NR_BUFFERS" using assms(1) by (simp add: cancel_def)
  then obtain sh' stream' where d: "(if \<not> ds_ended stream then drain_loop True (cancel sh) stream else Some (sh, stream)) = Some (sh', stream')"
    "ds_ended stream'"
    using drain_loop_ends [OF _ assms(2), of "cancel sh"] by (cases "ds_ended stream") auto
  have sh: "pool_shape (pool s)" using assms(3) by (simp add: pool_inv_def)
  then have l: "length (worker (pool s)) = max_nr_processes (pool s)" "length (worker_state (pool s)) = max_nr_processes (pool s)"
    by (simp_all add: pool_shape_def)
  have "hdfstream_close_stream True False sh stream w (pool s) = Some (sh', stream', remove_slot j (pool s), False)"
    using release_slot [OF sh assms(4,5), of False] by (simp add: hdfstream_close_stream_def d)
  moreover have "(worker (pool s))[j := None] ! k \<noteq> Some w" if "k < max_nr_processes (pool s)" for k
    using slot_unique [OF sh assms(4,5) that] assms(4) l by (cases "k = j") auto
  then have "Some w \<notin> set (worker (remove_slot j (pool s)))"
    using l by (auto simp: remove_slot_def in_set_conv_nth)
  ultimately show ?thesis using d(2) assms(4) l by (simp add: remove_slot_def)
qed

theorem close_after_crash_witness:
  "\<exists>sh' stream' p. hdfstream_close_stream True False sample_shared \<lparr>ds_next_buffer = 0, ds_ended = False\<rparr> 5
      (pool (one_slot 1 (Some 5) BUSY 0 [Holding 5, Outside])) = Some (sh', stream', p, False) \<and> Some 5 \<notin> set (worker p)"
proof -
  let ?s = "one_slot 1 (Some 5) BUSY 0 [Holding 5, Outside]"
  have "pool_inv ?s" using pool_reach_inv [OF reach_holding] by blast
  moreover have "length (srd_buffer (sh_srd sample_shared)) = NR_BUFFERS" by (simp add: sample_shared_def shared_data_populate_def)
  moreover have "0 < NR_BUFFERS" by (simp add: NR_BUFFERS_def)
  ultimately show ?thesis
    using close_after_crash [of sample_shared "\<lparr>ds_next_buffer = 0, ds_ended = False\<rparr>" ?s 0 5]
    by (simp add: one_slot_def) blast
qed

end
