(* ===== verification/JavaBindings.thy ===== *)
theory JavaBindings
  imports Service Handles CloseStream
begin

text \<open>
  The native methods of the Java classes, src/jni/HDFStream.c and src/jni/DataStream.c.  A jint is an
  int, and a jlong a 64 bit word, whose signed value is the one that Java sees; a Java array is a
  list.  Strings are what GetStringUTFChars() returns.  A method that returns a pointer returns the
  result of the library function here, with the pointer 0 for Refused, NoWorker and Released.
\<close>

type_synonym jlong = "64 word"

definition jint :: "int \<Rightarrow> int" where
  "jint i = sint (word_of_int i :: 32 word)"

section \<open>HDFStream\<close>

definition c_get_max_slices :: int where "c_get_max_slices = HDFSTREAM_MAX_SLICES"

definition c_get_max_dims :: int where "c_get_max_dims = HDFSTREAM_MAX_DIMS"

text \<open>
  A pointer is handed to Java as a jlong.  c_new() and c_new_with_executable() return 0 when there is
  no handle; c_free() is the release of the handle after process_pool_free() has returned.
\<close>

definition jlong_of_pointer :: "addr \<Rightarrow> jlong" where
  "jlong_of_pointer p = word_of_nat p"

definition pointer_of_jlong :: "jlong \<Rightarrow> addr" where
  "pointer_of_jlong ptr = unat ptr"

definition c_new ::
  "addr \<Rightarrow> addr \<Rightarrow> pool_mallocs \<Rightarrow> pool_struct \<Rightarrow> bool \<Rightarrow> bool \<Rightarrow> string \<Rightarrow> int \<Rightarrow> int \<Rightarrow> int \<Rightarrow> int \<Rightarrow> int \<Rightarrow>
     memory \<Rightarrow> (memory \<times> jlong) option" where
  "c_new hs ex ml junk sem_ok mutex_ok default_executable nr_processes max_open_files max_open_datasets
     check_interval expiry_interval m =
     map_option (\<lambda>(m, p). (m, jlong_of_pointer p))
       (new_hdfstream hs ex ml junk sem_ok mutex_ok default_executable nr_processes None max_open_files max_open_datasets
          check_interval expiry_interval m)"

definition c_new_with_executable ::
  "addr \<Rightarrow> addr \<Rightarrow> pool_mallocs \<Rightarrow> pool_struct \<Rightarrow> bool \<Rightarrow> bool \<Rightarrow> string \<Rightarrow> int \<Rightarrow> string \<Rightarrow> int \<Rightarrow> int \<Rightarrow> int \<Rightarrow> int \<Rightarrow>
     memory \<Rightarrow> (memory \<times> jlong) option" where
  "c_new_with_executable hs ex ml junk sem_ok mutex_ok default_executable nr_processes executable max_open_files
     max_open_datasets check_interval expiry_interval m =
     map_option (\<lambda>(m, p). (m, jlong_of_pointer p))
       (new_hdfstream hs ex ml junk sem_ok mutex_ok default_executable nr_processes (Some executable) max_open_files
          max_open_datasets check_interval expiry_interval m)"

definition c_free :: "jlong \<Rightarrow> memory \<Rightarrow> memory option" where
  "c_free ptr m = free_handle (pointer_of_jlong ptr) m"

lemma pointer_roundtrip: "p < 2 ^ 64 \<Longrightarrow> pointer_of_jlong (jlong_of_pointer p) = p"
  by (simp add: pointer_of_jlong_def jlong_of_pointer_def unsigned_of_nat take_bit_nat_eq_self)

text \<open>The checks of c_open_slices() and the arguments that it makes for the library.\<close>

definition slices_arguments :: "string \<Rightarrow> string \<Rightarrow> int \<Rightarrow> int \<Rightarrow> jlong list \<Rightarrow> jlong list \<Rightarrow> jlong \<Rightarrow> dataset_request option" where
  "slices_arguments file_name dataset_name nr_slices rank start cnt buffer_size =
     (if nr_slices > HDFSTREAM_MAX_SLICES \<or> nr_slices < 1 then None
      else if rank > HDFSTREAM_MAX_DIMS \<or> rank < 0 then None
      else let arr_len = jint (nr_slices * rank) in
        if int (length start) \<noteq> arr_len then None
        else if int (length cnt) \<noteq> arr_len then None
        else Some \<lparr>dr_file_name = file_name, dr_dataset_name = dataset_name, dr_rank = rank, dr_nr_slices = nr_slices,
                   dr_start = start, dr_count = cnt, dr_buffer_size = unat buffer_size\<rparr>)"

definition c_open_slices ::
  "int \<Rightarrow> write_answer list \<Rightarrow> read_answer list \<Rightarrow> int \<Rightarrow> byte list \<Rightarrow> reader_handle option \<Rightarrow>
     string \<Rightarrow> string \<Rightarrow> int \<Rightarrow> int \<Rightarrow> jlong list \<Rightarrow> jlong list \<Rightarrow> jlong \<Rightarrow> (open_result \<times> byte list) option" where
  "c_open_slices st ws rs now reply handle file_name dataset_name nr_slices rank start cnt buffer_size =
     (case slices_arguments file_name dataset_name nr_slices rank start cnt buffer_size of
        None \<Rightarrow> Some (Refused, [])
      | Some req \<Rightarrow> hdfstream_dataset_multi_slice_open st ws rs now reply handle (Some (dr_file_name req)) (Some (dr_dataset_name req))
          (dr_nr_slices req) (dr_rank req) (Some (dr_start req)) (Some (dr_count req)) (dr_buffer_size req))"

definition c_open_object ::
  "int \<Rightarrow> write_answer list \<Rightarrow> read_answer list \<Rightarrow> int \<Rightarrow> byte list \<Rightarrow> reader_handle option \<Rightarrow>
     string \<Rightarrow> string \<Rightarrow> int \<Rightarrow> jlong \<Rightarrow> jlong \<Rightarrow> (open_result \<times> byte list) option" where
  "c_open_object st ws rs now reply handle file_name object_name max_depth buffer_size data_size_limit =
     hdfstream_object_open st ws rs now reply handle (Some file_name) (Some object_name) max_depth (unat buffer_size)
       (unat data_size_limit)"

text \<open>The three elements of the array that is filled in.\<close>

definition c_cache_info :: "(addr \<Rightarrow> int \<times> int) \<Rightarrow> process_pool \<Rightarrow> int \<Rightarrow> int list option" where
  "c_cache_info counters p worker_nr =
     map_option (\<lambda>ci. [ci_process_state ci, ci_nr_file_cache_hits ci, ci_nr_file_cache_misses ci])
       (hdfstream_cache_info counters p worker_nr)"

section \<open>DataStream\<close>

text \<open>The last result is the return value, None when it depends on a status that was never stored.\<close>

definition c_read_chunk :: "bool \<Rightarrow> shared \<Rightarrow> data_stream \<Rightarrow> (shared \<times> data_stream \<times> byte list \<times> int option) option" where
  "c_read_chunk dead sh stream = do {
     (sh, stream, data, status) \<leftarrow> hdfstream_read_chunk dead sh stream;
     Some (sh, stream, data,
       if length data = 0 then map_option (\<lambda>status. if status = 0 then 0 else -1) status
       else Some (int (length data))) }"

text \<open>c_free() of DataStream.\<close>

definition c_free_stream ::
  "bool \<Rightarrow> bool \<Rightarrow> shared \<Rightarrow> data_stream \<Rightarrow> addr \<Rightarrow> process_pool \<Rightarrow> (shared \<times> data_stream \<times> process_pool \<times> bool) option" where
  "c_free_stream dead alive sh stream w p = hdfstream_close_stream dead alive sh stream w p"

section \<open>Lemmas\<close>

lemma jint_length: "1 \<le> n \<Longrightarrow> n \<le> HDFSTREAM_MAX_SLICES \<Longrightarrow> 0 \<le> r \<Longrightarrow> r \<le> HDFSTREAM_MAX_DIMS \<Longrightarrow> jint (n * r) = n * r"
proof -
  assume a: "1 \<le> n" "n \<le> HDFSTREAM_MAX_SLICES" "0 \<le> r" "r \<le> HDFSTREAM_MAX_DIMS"
  then have "n * r \<le> HDFSTREAM_MAX_SLICES * HDFSTREAM_MAX_DIMS" by (intro mult_mono) auto
  then have "0 \<le> n * r" "n * r < 2 ^ 31" using a by (auto simp: HDFSTREAM_MAX_SLICES_def HDFSTREAM_MAX_DIMS_def)
  then show ?thesis unfolding jint_def int_word_sint by simp
qed

text \<open>A call after the end of the stream returns a value that was never stored.\<close>

lemma read_after_end: "ds_ended stream \<Longrightarrow> c_read_chunk dead sh stream = Some (sh, stream, [], None)"
  by (simp add: c_read_chunk_def hdfstream_read_chunk_def)

lemma mem_read_empty: "mem_read m a n = [] \<longleftrightarrow> n = 0"
  using mem_read_length [of m a n] by (metis length_0_conv)

lemma empty_chunk_ends:
  assumes "hdfstream_read_chunk dead sh stream = Some (sh', stream', [], status)"
  shows "ds_ended stream'"
proof (cases "ds_ended stream")
  case False
  then obtain r where r: "worker_process_wait_for_semaphore dead (bd_ready_for_read (buffer sh (ds_next_buffer stream))) = Some r"
    using assms by (cases "worker_process_wait_for_semaphore dead (bd_ready_for_read (buffer sh (ds_next_buffer stream)))")
      (auto simp: hdfstream_read_chunk_def)
  show ?thesis using assms False r
    by (cases r) (auto simp: hdfstream_read_chunk_def Let_def mem_read_empty split: if_splits)
qed (use assms in \<open>auto simp: hdfstream_read_chunk_def\<close>)

lemma read_chunk_value:
  assumes "c_read_chunk dead sh stream = Some (sh', stream', data, Some n)"
  shows "n > 0 \<and> n = int (length data) \<or> data = [] \<and> ds_ended stream' \<and> (n = 0 \<or> n = -1)"
proof -
  obtain status where "hdfstream_read_chunk dead sh stream = Some (sh', stream', data, status)"
    "Some n = (if length data = 0 then map_option (\<lambda>status. if status = 0 then 0 else -1) status else Some (int (length data)))"
    using assms by (auto simp: c_read_chunk_def bind_eq_Some_conv)
  then show ?thesis using empty_chunk_ends by (cases status; cases "data = []") (auto split: if_splits)
qed

section \<open>Properties\<close>

text \<open>
  C32. The Java binding sends a request exactly when its arguments are well formed: the arrays have
  one entry for each slice and dimension, so the library, which cannot know their length, never
  reads behind their end.  The entries keep their 64 bits, so that a negative offset becomes one
  of at least 2^63.
\<close>

theorem java_requests_ok:
  assumes "c_string file_name" and "c_string dataset_name" and "buffer_size \<noteq> 0"
  shows "slices_arguments file_name dataset_name nr_slices rank start cnt buffer_size = Some req \<longleftrightarrow>
    dataset_request_ok req \<and> dr_file_name req = file_name \<and> dr_dataset_name req = dataset_name \<and> dr_rank req = rank \<and>
    dr_nr_slices req = nr_slices \<and> dr_start req = start \<and> dr_count req = cnt \<and> dr_buffer_size req = unat buffer_size"
proof (cases "1 \<le> nr_slices \<and> nr_slices \<le> HDFSTREAM_MAX_SLICES \<and> 0 \<le> rank \<and> rank \<le> HDFSTREAM_MAX_DIMS")
  case True
  then have j: "jint (nr_slices * rank) = rank * nr_slices" and nonneg: "0 \<le> rank * nr_slices"
    using jint_length [of nr_slices rank] by (simp_all add: mult.commute)
  then have len: "int (length xs) = jint (nr_slices * rank) \<longleftrightarrow> length xs = nat (rank * nr_slices)" for xs :: "jlong list" by auto
  have "unat buffer_size < 2 ^ 64" "0 < unat buffer_size"
    using assms(3) unsigned_less [of buffer_size] by (simp_all add: unat_gt_0)
  then show ?thesis using True assms len by (cases req) (auto simp: slices_arguments_def dataset_request_ok_def Let_def)
next
  case False
  then show ?thesis by (auto simp: slices_arguments_def dataset_request_ok_def)
qed

text \<open>Two slices in one dimension are accepted, an array that is too short is not.\<close>

theorem java_requests_ok_witness:
  "dataset_request_ok \<lparr>dr_file_name = ''f'', dr_dataset_name = ''d'', dr_rank = 1, dr_nr_slices = 2,
     dr_start = [0, -1], dr_count = [2, 1], dr_buffer_size = 64\<rparr> \<and>
   slices_arguments ''f'' ''d'' 2 1 [0] [2, 1] 64 = None"
proof -
  have s: "c_string ''f''" "c_string ''d''" "(64 :: jlong) \<noteq> 0" by (simp_all add: c_string_def)
  have "slices_arguments ''f'' ''d'' 2 1 [0, -1] [2, 1] 64 = Some \<lparr>dr_file_name = ''f'', dr_dataset_name = ''d'', dr_rank = 1,
     dr_nr_slices = 2, dr_start = [0, -1], dr_count = [2, 1], dr_buffer_size = 64\<rparr>"
    "slices_arguments ''f'' ''d'' 2 1 [0] [2, 1] 64 = None"
    by code_simp+
  then show ?thesis using java_requests_ok [OF s] by simp
qed

end
